(* ===== verification/Base.thy ===== *)
theory Base
  imports Main "HOL-Library.Word"
begin

text \<open>
  Shared vocabulary of the development.

  \<^item> machine integers: \<open>u8\<close>, \<open>u16\<close>, \<open>u32\<close>, \<open>u64\<close> are the types of
    \<open>src/src/lib/stdint.h\<close>; \<open>unsigned long\<close> is \<open>u64\<close> on the x86_64 target;
  \<^item> static arrays are functions from cell indices; a cell index beyond the declared
    length stands for the memory that follows the array, and the bounds lemmas of each
    component say that its operations stay inside;
  \<^item> \<open>machine\<close> is the part of the state every component shares: byte-addressed memory
    and the log of calls to \<open>printk\<close>, \<open>printk_color\<close> and \<open>print_str\<close>. The components append their
    calls in order; the console theory says what such a call does to the screen;
  \<^item> \<open>scan\<close> is the kernel's search loop over a table;
  \<^item> little-endian loads and stores, with the two laws every structure in memory rests
    on: a load returns what was stored, and a store leaves disjoint bytes alone.
\<close>

unbundle bit_operations_syntax

section \<open>Types\<close>

type_synonym u8 = "8 word"
type_synonym u16 = "16 word"
type_synonym u32 = "32 word"
type_synonym u64 = "64 word"
type_synonym 'a array = "nat \<Rightarrow> 'a"
type_synonym memory = "u64 \<Rightarrow> u8"

text \<open>One variadic argument: an integer register slot, or a pointer to a C string.\<close>

datatype varg = VNum u64 | VStr "string option"

datatype kmsg =
    Printk string "varg list"
  | PrintkColor u8 u8 string "varg list"
  | PrintStr string

record machine =
  klog :: "kmsg list"
  ram :: memory

definition printk :: "string \<Rightarrow> varg list \<Rightarrow> 'a machine_scheme \<Rightarrow> 'a machine_scheme" where
  "printk fmt args s = s\<lparr>klog := klog s @ [Printk fmt args]\<rparr>"

definition printk_color ::
    "u8 \<Rightarrow> u8 \<Rightarrow> string \<Rightarrow> varg list \<Rightarrow> 'a machine_scheme \<Rightarrow> 'a machine_scheme" where
  "printk_color fg bg fmt args s = s\<lparr>klog := klog s @ [PrintkColor fg bg fmt args]\<rparr>"

definition log_str :: "string \<Rightarrow> 'a machine_scheme \<Rightarrow> 'a machine_scheme" where
  "log_str str s = s\<lparr>klog := klog s @ [PrintStr str]\<rparr>"

abbreviation vnum :: "'a::len word \<Rightarrow> varg" where
  "vnum w \<equiv> VNum (ucast w)"

abbreviation vnat :: "nat \<Rightarrow> varg" where
  "vnat n \<equiv> VNum (of_nat n)"

abbreviation vint :: "int \<Rightarrow> varg" where
  "vint i \<equiv> VNum (ucast (word_of_int i :: u32))"

text \<open>The colours of \<open>console.h\<close> that the components use.\<close>

abbreviation (input) BLACK :: u8 where "BLACK \<equiv> 0x00"
abbreviation (input) RED :: u8 where "RED \<equiv> 0x0C"
abbreviation (input) ORANGE :: u8 where "ORANGE \<equiv> 0x06"
abbreviation (input) YELLOW :: u8 where "YELLOW \<equiv> 0x0E"
abbreviation (input) GREEN :: u8 where "GREEN \<equiv> 0x0A"
abbreviation (input) BLUE :: u8 where "BLUE \<equiv> 0x09"
abbreviation (input) CYAN :: u8 where "CYAN \<equiv> 0x0B"

section \<open>The search loop\<close>

text \<open>\<open>for (i = lo; i < hi; i++) if (P(i)) \<dots> break;\<close>\<close>

function scan :: "(nat \<Rightarrow> bool) \<Rightarrow> nat \<Rightarrow> nat \<Rightarrow> nat option" where
  "scan P lo hi = (if lo < hi then (if P lo then Some lo else scan P (Suc lo) hi) else None)"
  by pat_completeness auto
termination
  by (relation "measure (\<lambda>(P, lo, hi). hi - lo)") auto

declare scan.simps [simp del]

section \<open>Loads and stores\<close>

primrec load_le :: "nat \<Rightarrow> memory \<Rightarrow> u64 \<Rightarrow> u64" where
  "load_le 0 m a = 0"
| "load_le (Suc n) m a = ucast (m a) OR push_bit 8 (load_le n m (a + 1))"

primrec store_le :: "nat \<Rightarrow> memory \<Rightarrow> u64 \<Rightarrow> u64 \<Rightarrow> memory" where
  "store_le 0 m a v = m"
| "store_le (Suc n) m a v = store_le n (m(a := ucast v)) (a + 1) (drop_bit 8 v)"

text \<open>The bytes of \<open>n\<close> cells from address \<open>a\<close>, as natural numbers.\<close>

abbreviation bytes_at :: "u64 \<Rightarrow> nat \<Rightarrow> nat set" where
  "bytes_at a n \<equiv> {unat a ..< unat a + n}"

text \<open>Two memories hold the same bytes in a set of addresses.\<close>

definition same_on :: "nat set \<Rightarrow> memory \<Rightarrow> memory \<Rightarrow> bool" where
  "same_on S m m' \<longleftrightarrow> (\<forall>x. unat x \<in> S \<longrightarrow> m x = m' x)"

section \<open>Lemma collections\<close>

named_theorems mem_frame \<open>loads and reads that a store or a copy leaves alone\<close>
named_theorems machine_simps \<open>what the logging calls keep\<close>

lemma printk_keeps [simp, machine_simps]:
  "ram (printk f as s) = ram s" "machine.more (printk f as s) = machine.more s"
  by (simp_all add: printk_def)

lemma printk_color_keeps [simp, machine_simps]:
  "ram (printk_color fg bg f as s) = ram s"
  "machine.more (printk_color fg bg f as s) = machine.more s"
  by (simp_all add: printk_color_def)

lemma log_str_keeps [simp, machine_simps]:
  "ram (log_str str s) = ram s" "machine.more (log_str str s) = machine.more s"
  by (simp_all add: log_str_def)

section \<open>Facts about the search loop\<close>

lemma scan_SomeD:
  assumes "scan P lo hi = Some i"
  shows "lo \<le> i" "i < hi" "P i" "\<forall>j. lo \<le> j \<longrightarrow> j < i \<longrightarrow> \<not> P j"
proof -
  have "lo \<le> i \<and> i < hi \<and> P i \<and> (\<forall>j. lo \<le> j \<longrightarrow> j < i \<longrightarrow> \<not> P j)"
    using assms
  proof (induction P lo hi rule: scan.induct)
    case (1 P lo hi)
    show ?case
    proof (cases "lo < hi \<and> \<not> P lo")
      case True
      then have rec: "scan P (Suc lo) hi = Some i"
        using "1.prems" by (simp add: scan.simps [of P lo])
      have IH: "Suc lo \<le> i \<and> i < hi \<and> P i \<and> (\<forall>j. Suc lo \<le> j \<longrightarrow> j < i \<longrightarrow> \<not> P j)"
        using "1.IH" True rec by blast
      have "\<not> P j" if "lo \<le> j" "j < i" for j
        using IH True that by (cases "j = lo") auto
      then show ?thesis using IH by auto
    next
      case False
      then show ?thesis
        using "1.prems" by (auto simp: scan.simps [of P lo] split: if_splits)
    qed
  qed
  then show "lo \<le> i" "i < hi" "P i" "\<forall>j. lo \<le> j \<longrightarrow> j < i \<longrightarrow> \<not> P j"
    by blast+
qed

lemma scan_None_iff: "scan P lo hi = None \<longleftrightarrow> (\<forall>j. lo \<le> j \<longrightarrow> j < hi \<longrightarrow> \<not> P j)"
proof (induction P lo hi rule: scan.induct)
  case (1 P lo hi)
  show ?case
  proof (cases "lo < hi \<and> \<not> P lo")
    case True
    then have "scan P lo hi = scan P (Suc lo) hi" by (simp add: scan.simps [of P lo])
    moreover have "(\<forall>j. Suc lo \<le> j \<longrightarrow> j < hi \<longrightarrow> \<not> P j) \<longleftrightarrow> (\<forall>j. lo \<le> j \<longrightarrow> j < hi \<longrightarrow> \<not> P j)"
      using True by (metis Suc_leD le_antisym not_less_eq_eq)
    ultimately show ?thesis using "1.IH" True by simp
  next
    case False
    then show ?thesis by (auto simp: scan.simps [of P lo])
  qed
qed

lemma scan_Some_iff:
  "scan P lo hi = Some i \<longleftrightarrow> lo \<le> i \<and> i < hi \<and> P i \<and> (\<forall>j. lo \<le> j \<longrightarrow> j < i \<longrightarrow> \<not> P j)"
proof
  assume "scan P lo hi = Some i"
  then show "lo \<le> i \<and> i < hi \<and> P i \<and> (\<forall>j. lo \<le> j \<longrightarrow> j < i \<longrightarrow> \<not> P j)"
    using scan_SomeD by blast
next
  assume i: "lo \<le> i \<and> i < hi \<and> P i \<and> (\<forall>j. lo \<le> j \<longrightarrow> j < i \<longrightarrow> \<not> P j)"
  then have "scan P lo hi \<noteq> None" by (auto simp: scan_None_iff)
  then obtain k where k: "scan P lo hi = Some k" by blast
  have "k = i"
    using scan_SomeD [OF k] i by (meson linorder_neqE_nat)
  with k show "scan P lo hi = Some i" by simp
qed

lemma scan_ex: "lo \<le> i \<Longrightarrow> i < hi \<Longrightarrow> P i \<Longrightarrow> \<exists>k. scan P lo hi = Some k"
  by (cases "scan P lo hi") (auto simp: scan_None_iff)

lemma scan_cong:
  "(\<And>j. lo \<le> j \<Longrightarrow> j < hi \<Longrightarrow> P j = Q j) \<Longrightarrow> scan P lo hi = scan Q lo hi"
proof (induction P lo hi rule: scan.induct)
  case (1 P lo hi)
  then show ?case by (auto simp: scan.simps [of P lo] scan.simps [of Q lo])
qed

section \<open>Tables of slots\<close>

text \<open>
  The kernel keeps its objects in fixed tables and looks for a free slot with a search loop:
  processes, open files, cached inodes, cached blocks. The contract: the slot found is in the
  table and free, and the search fails only when the table is full.
\<close>

locale slot_table =
  fixes used :: "'s \<Rightarrow> nat \<Rightarrow> bool" and capacity :: nat and find_slot :: "'s \<Rightarrow> nat option"
  assumes found: "find_slot s = Some i \<Longrightarrow> i < capacity \<and> \<not> used s i \<and> (\<forall>j < i. used s j)"
    and full: "find_slot s = None \<Longrightarrow> i < capacity \<Longrightarrow> used s i"
begin

lemma find_slot_iff: "(\<exists>i. find_slot s = Some i) \<longleftrightarrow> card {i. i < capacity \<and> used s i} < capacity"
proof
  assume "\<exists>i. find_slot s = Some i"
  then obtain i where i: "i < capacity" "\<not> used s i" using found by blast
  then have "{i. i < capacity \<and> used s i} \<subset> {..<capacity}" by auto
  then show "card {i. i < capacity \<and> used s i} < capacity"
    using psubset_card_mono [of "{..<capacity}"] by simp
next
  assume less: "card {i. i < capacity \<and> used s i} < capacity"
  show "\<exists>i. find_slot s = Some i"
  proof (rule ccontr)
    assume "\<not> (\<exists>i. find_slot s = Some i)"
    then have "{i. i < capacity \<and> used s i} = {..<capacity}" using full [of s] by auto
    then show False using less by simp
  qed
qed

text \<open>Filling the slot found uses up exactly one slot.\<close>

lemma fill_slot:
  assumes "find_slot s = Some i" "used s' i" "\<And>j. j < capacity \<Longrightarrow> j \<noteq> i \<Longrightarrow> used s' j = used s j"
  shows "card {j. j < capacity \<and> used s' j} = Suc (card {j. j < capacity \<and> used s j})"
proof -
  have i: "i < capacity" "\<not> used s i" using found [OF assms(1)] by blast+
  have "{j. j < capacity \<and> used s' j} = insert i {j. j < capacity \<and> used s j}"
    using assms(2,3) i(1) by blast
  then show ?thesis using i(2) by simp
qed

text \<open>Clearing a used slot frees exactly one, and the next search succeeds.\<close>

lemma clear_slot:
  assumes "i < capacity" "used s i" "\<not> used s' i" "\<And>j. j < capacity \<Longrightarrow> j \<noteq> i \<Longrightarrow> used s' j = used s j"
  shows "Suc (card {j. j < capacity \<and> used s' j}) = card {j. j < capacity \<and> used s j}"
    "\<exists>k. find_slot s' = Some k"
proof -
  have "{j. j < capacity \<and> used s j} = insert i {j. j < capacity \<and> used s' j}"
    using assms by blast
  then show "Suc (card {j. j < capacity \<and> used s' j}) = card {j. j < capacity \<and> used s j}"
    using assms(3) by simp
  show "\<exists>k. find_slot s' = Some k"
    using full [of s' i] assms(1,3) by (cases "find_slot s'") auto
qed

end

section \<open>Array loops\<close>

lemma fold_array_fill:
  "fold (\<lambda>i a. a(i := g i)) [lo..<hi] a = (\<lambda>i. if lo \<le> i \<and> i < hi then g i else a i)"
proof (induction hi)
  case 0
  then show ?case by simp
next
  case (Suc hi)
  then show ?case by (cases "lo \<le> hi") (auto simp: fun_eq_iff less_Suc_eq)
qed

lemma fold_invariant:
  "(\<And>x s. x \<in> set xs \<Longrightarrow> I s \<Longrightarrow> I (f x s)) \<Longrightarrow> I s \<Longrightarrow> I (fold f xs s)"
  by (induction xs arbitrary: s) auto

lemma fold_frame: "(\<And>x s. x \<in> set xs \<Longrightarrow> g (f x s) = g s) \<Longrightarrow> g (fold f xs s) = g s"
  by (induction xs arbitrary: s) auto

section \<open>Facts about loads and stores\<close>

lemma unat_add_1: "unat (a :: u64) + Suc n \<le> 2 ^ 64 \<Longrightarrow> n > 0 \<Longrightarrow> unat (a + 1) = unat a + 1"
  by (simp add: unat_word_ariths)

lemma unat_plus: "unat (a :: u64) + unat b < 2 ^ 64 \<Longrightarrow> unat (a + b) = unat a + unat b"
  by (simp add: unat_word_ariths)

lemma store_le_other [mem_frame]:
  "unat a + n \<le> 2 ^ 64 \<Longrightarrow> unat x \<notin> bytes_at a n \<Longrightarrow> store_le n m a v x = m x"
proof (induction n arbitrary: m a v)
  case 0
  then show ?case by simp
next
  case (Suc n)
  then have ne: "x \<noteq> a" by auto
  show ?case
  proof (cases "n = 0")
    case False
    then have a1: "unat (a + 1) = unat a + 1" using Suc.prems unat_add_1 by blast
    have "store_le n (m(a := ucast v)) (a + 1) (drop_bit 8 v) x = (m(a := ucast v)) x"
      by (rule Suc.IH) (use Suc.prems a1 in auto)
    then show ?thesis using ne by simp
  qed (use ne in simp)
qed

lemma load_le_cong:
  "unat a + n \<le> 2 ^ 64 \<Longrightarrow> same_on (bytes_at a n) m m' \<Longrightarrow> load_le n m a = load_le n m' a"
proof (induction n arbitrary: a)
  case 0
  then show ?case by simp
next
  case (Suc n)
  have here: "m a = m' a" using Suc.prems by (simp add: same_on_def)
  show ?case
  proof (cases "n = 0")
    case False
    then have a1: "unat (a + 1) = unat a + 1" using Suc.prems unat_add_1 by blast
    have "load_le n m (a + 1) = load_le n m' (a + 1)"
      by (rule Suc.IH) (use Suc.prems a1 in \<open>auto simp: same_on_def\<close>)
    then show ?thesis using here by simp
  qed (use here in simp)
qed

lemma same_on_store_le:
  "unat a + n \<le> 2 ^ 64 \<Longrightarrow> S \<inter> bytes_at a n = {} \<Longrightarrow> same_on S (store_le n m a v) m"
  by (auto simp: same_on_def intro!: store_le_other)

lemma load_store_other [mem_frame]:
  assumes "unat a + n \<le> 2 ^ 64" "unat b + k \<le> 2 ^ 64" "bytes_at b k \<inter> bytes_at a n = {}"
  shows "load_le k (store_le n m a v) b = load_le k m b"
  by (rule load_le_cong) (use assms in \<open>auto intro: same_on_store_le\<close>)

lemma byte_split: "(ucast (ucast v :: u8) :: u64) OR push_bit 8 (take_bit (8 * n) (drop_bit 8 v))
    = take_bit (8 * Suc n) (v :: u64)"
  by (rule bit_word_eqI) (auto simp: bit_simps)

lemma load_store_same:
  "unat a + n \<le> 2 ^ 64 \<Longrightarrow> load_le n (store_le n m a v) a = take_bit (8 * n) v"
proof (induction n arbitrary: m a v)
  case 0
  then show ?case by simp
next
  case (Suc n)
  show ?case
  proof (cases "n = 0")
    case True
    then show ?thesis using byte_split [of v 0] by simp
  next
    case False
    then have a1: "unat (a + 1) = unat a + 1" using Suc.prems unat_add_1 by blast
    let ?m = "m(a := ucast v)"
    have "load_le n (store_le n ?m (a + 1) (drop_bit 8 v)) (a + 1)
        = take_bit (8 * n) (drop_bit 8 v)"
      by (rule Suc.IH) (use Suc.prems a1 in simp)
    moreover have "store_le n ?m (a + 1) (drop_bit 8 v) a = ?m a"
      by (rule store_le_other) (use Suc.prems a1 in auto)
    ultimately show ?thesis using byte_split [of v n] by simp
  qed
qed

lemma load_store_64 [simp]: "unat a + 8 \<le> 2 ^ 64 \<Longrightarrow> load_le 8 (store_le 8 m a v) a = v"
  by (subst load_store_same) (simp_all add: take_bit_word_eq_self)

lemma same_on_refl [simp]: "same_on S m m"
  by (simp add: same_on_def)

lemma same_on_sym: "same_on S m m' \<Longrightarrow> same_on S m' m"
  by (simp add: same_on_def)

lemma same_on_trans [trans]: "same_on S m m' \<Longrightarrow> same_on S m' m'' \<Longrightarrow> same_on S m m''"
  by (simp add: same_on_def)

lemma same_on_subset: "same_on S m m' \<Longrightarrow> T \<subseteq> S \<Longrightarrow> same_on T m m'"
  by (auto simp: same_on_def)

end
