(* ===== verification/Format.thy ===== *)
theory Format
  imports Base "HOL-Library.Monad_Syntax"
begin

text \<open>
  The formatter of \<open>src/src/kernel/console.c\<close>: \<open>skip_atoi\<close>, \<open>number\<close> and \<open>vprintk\<close>.

  The output buffer \<open>fmt_buf\<close> is the string produced so far. A variadic argument is a \<open>varg\<close>;
  \<open>None\<close> is the undefined behaviour of \<open>va_arg\<close> (no argument left, or a string where a number is
  expected). Flags are the bit mask of the code; widths and precisions are C \<open>int\<close>s. The stores of
  \<open>%n\<close> are collected in order. The lemmas: the scan of the format always ends, \<open>number\<close> stays inside
  its 64 digit buffer, and its output reads back as the number.
\<close>

section \<open>Definitions\<close>

definition ZEROPAD :: u32 where "ZEROPAD = 1"
definition SIGN :: u32 where "SIGN = 2"
definition PLUS :: u32 where "PLUS = 4"
definition SPACE :: u32 where "SPACE = 8"
definition LEFT :: u32 where "LEFT = 16"
definition SPECIAL :: u32 where "SPECIAL = 32"
definition SMALL :: u32 where "SMALL = 64"

lemmas flag_defs = ZEROPAD_def SIGN_def PLUS_def SPACE_def LEFT_def SPECIAL_def SMALL_def

abbreviation flag :: "u32 \<Rightarrow> u32 \<Rightarrow> bool" where
  "flag type f \<equiv> type AND f \<noteq> 0"

definition is_digit :: "char \<Rightarrow> bool" where
  "is_digit c \<longleftrightarrow> of_char CHR ''0'' \<le> (of_char c :: nat) \<and> (of_char c :: nat) \<le> of_char CHR ''9''"

fun skip_atoi :: "int \<Rightarrow> string \<Rightarrow> int \<times> string" where
  "skip_atoi i [] = (i, [])"
| "skip_atoi i (c # cs) =
     (if is_digit c then skip_atoi (i * 10 + of_char c - of_char CHR ''0'') cs else (i, c # cs))"

text \<open>The loop \<open>while (size-- > 0) *str++ = c\<close>: the characters and the value left in \<open>size\<close>.\<close>

function pad :: "char \<Rightarrow> int \<Rightarrow> string \<times> int" where
  "pad c sz = (if sz > 0 then (let (r, sz') = pad c (sz - 1) in (c # r, sz')) else ([], sz - 1))"
  by pat_completeness auto
termination
  by (relation "measure (\<lambda>(c, sz). nat sz)") auto

declare pad.simps [simp del]

definition digits_upper :: string where "digits_upper = ''0123456789ABCDEFGHIJKLMNOPQRSTUVWXYZ''"
definition digits_lower :: string where "digits_lower = ''0123456789abcdefghijklmnopqrstuvwxyz''"

text \<open>The digits written to \<open>tmp\<close>, least significant first.\<close>

function tmp_digits :: "string \<Rightarrow> nat \<Rightarrow> nat \<Rightarrow> string" where
  "tmp_digits digits base num =
     (if num = 0 \<or> base < 2 then [] else digits ! (num mod base) # tmp_digits digits base (num div base))"
  by pat_completeness auto
termination
  by (relation "measure (\<lambda>(d, b, n). n)") auto

declare tmp_digits.simps [simp del]

definition number :: "u64 \<Rightarrow> int \<Rightarrow> int \<Rightarrow> int \<Rightarrow> u32 \<Rightarrow> string option" where
  "number num base sz precision type =
     (let digits = (if flag type SMALL then digits_lower else digits_upper);
          type = (if flag type LEFT then type AND NOT ZEROPAD else type)
      in if base < 2 \<or> base > 36 then None
      else
        let c = (if flag type ZEROPAD then CHR ''0'' else CHR '' '');
            (sign, num, sz) =
              (if flag type SIGN \<and> sint num < 0 then (''-'', - num, sz - 1)
               else if flag type PLUS then (''+'', num, sz - 1)
               else if flag type SPACE then ('' '', num, sz - 1)
               else ('''', num, sz));
            sz = (if flag type SPECIAL then (if base = 16 then sz - 2 else if base = 8 then sz - 1 else sz) else sz);
            tmp = (if num = 0 then ''0'' else tmp_digits digits (nat base) (unat num));
            i = int (length tmp);
            precision = (if i > precision then i else precision);
            sz = sz - precision;
            (s1, sz) = (if \<not> flag type (ZEROPAD OR LEFT) then pad (CHR '' '') sz else ('''', sz));
            s2 = (if flag type SPECIAL
                  then (if base = 8 then ''0''
                        else if base = 16 then ''0'' @ (if flag type SMALL then ''x'' else ''X'') else '''')
                  else '''');
            (s3, sz) = (if \<not> flag type LEFT then pad c sz else ('''', sz));
            s4 = replicate (nat (precision - i)) (CHR ''0'');
            (s5, sz) = pad (CHR '' '') sz
        in Some (s1 @ sign @ s2 @ s3 @ s4 @ rev tmp @ s5))"

text \<open>The state of the scan: output so far, arguments left, stores of \<open>%n\<close> (pointer, bytes, value).\<close>

record fmt_state =
  out :: string
  args :: "varg list"
  stores :: "(u64 \<times> nat \<times> nat) list"

definition emit :: "string \<Rightarrow> fmt_state \<Rightarrow> fmt_state" where
  "emit cs st = st\<lparr>out := out st @ cs\<rparr>"

definition arg_num :: "fmt_state \<Rightarrow> (u64 \<times> fmt_state) option" where
  "arg_num st = (case args st of VNum w # as \<Rightarrow> Some (w, st\<lparr>args := as\<rparr>) | _ \<Rightarrow> None)"

definition arg_str :: "fmt_state \<Rightarrow> (string option \<times> fmt_state) option" where
  "arg_str st = (case args st of VStr x # as \<Rightarrow> Some (x, st\<lparr>args := as\<rparr>) | _ \<Rightarrow> None)"

definition arg_int :: "fmt_state \<Rightarrow> (int \<times> fmt_state) option" where
  "arg_int st = map_option (\<lambda>(w, st'). (sint (ucast w :: u32), st')) (arg_num st)"

text \<open>\<open>qualifier == 'l' ? va_arg(uint64_t) : va_arg(uint32_t)\<close>.\<close>

definition arg_unsigned :: "char option \<Rightarrow> fmt_state \<Rightarrow> (u64 \<times> fmt_state) option" where
  "arg_unsigned qualifier st =
     map_option (\<lambda>(w, st'). (if qualifier = Some CHR ''l'' then w else ucast (ucast w :: u32), st')) (arg_num st)"

fun fmt_flags :: "string \<Rightarrow> u32 \<Rightarrow> u32 \<times> string" where
  "fmt_flags [] flags = (flags, [])"
| "fmt_flags (c # cs) flags =
     (if c = CHR ''-'' then fmt_flags cs (flags OR LEFT)
      else if c = CHR ''+'' then fmt_flags cs (flags OR PLUS)
      else if c = CHR '' '' then fmt_flags cs (flags OR SPACE)
      else if c = CHR ''#'' then fmt_flags cs (flags OR SPECIAL)
      else if c = CHR ''0'' then fmt_flags cs (flags OR ZEROPAD)
      else (flags, c # cs))"

definition fmt_width :: "string \<Rightarrow> u32 \<Rightarrow> fmt_state \<Rightarrow> (int \<times> u32 \<times> string \<times> fmt_state) option" where
  "fmt_width fmt flags st =
     (case fmt of
        [] \<Rightarrow> Some (-1, flags, fmt, st)
      | c # cs \<Rightarrow>
          if is_digit c then (let (w, cs') = skip_atoi 0 (c # cs) in Some (w, flags, cs', st))
          else if c = CHR ''*'' then
            map_option (\<lambda>(w, st'). if w < 0 then (- w, flags OR LEFT, cs, st') else (w, flags, cs, st')) (arg_int st)
          else Some (-1, flags, c # cs, st))"

definition fmt_precision :: "string \<Rightarrow> fmt_state \<Rightarrow> (int \<times> string \<times> fmt_state) option" where
  "fmt_precision fmt st =
     (case fmt of
        CHR ''.'' # cs \<Rightarrow>
          map_option (\<lambda>(p, r). (if p < 0 then 0 else p, r))
           (case cs of
              [] \<Rightarrow> Some (-1, cs, st)
            | c # cs' \<Rightarrow>
                if is_digit c then (let (p, r) = skip_atoi 0 (c # cs') in Some (p, r, st))
                else if c = CHR ''*'' then map_option (\<lambda>(p, st'). (p, cs', st')) (arg_int st)
                else Some (-1, cs, st))
      | _ \<Rightarrow> Some (-1, fmt, st))"

definition fmt_qualifier :: "string \<Rightarrow> char option \<times> string" where
  "fmt_qualifier fmt =
     (case fmt of c # cs \<Rightarrow> (if c = CHR ''h'' \<or> c = CHR ''l'' \<or> c = CHR ''L'' then (Some c, cs) else (None, fmt))
      | [] \<Rightarrow> (None, fmt))"

text \<open>\<open>while (--field_width > 0)\<close> of \<open>%c\<close> and \<open>while (len < field_width--)\<close> of \<open>%s\<close>.\<close>

definition pad_char :: "int \<Rightarrow> string \<times> int" where
  "pad_char fw = (let (r, sz) = pad (CHR '' '') (fw - 1) in (r, sz + 1))"

definition pad_str :: "int \<Rightarrow> int \<Rightarrow> string \<times> int" where
  "pad_str len fw = (let (r, sz) = pad (CHR '' '') (fw - len) in (r, sz + len))"

definition conv_char :: "u32 \<Rightarrow> int \<Rightarrow> fmt_state \<Rightarrow> fmt_state option" where
  "conv_char flags fw st =
     (let (s1, fw1) = (if \<not> flag flags LEFT then pad_char fw else ('''', fw))
      in do {
        (w, st') \<leftarrow> arg_num st;
        Some (emit (s1 @ [char_of (unat (ucast w :: u8))] @ fst (pad_char fw1)) st')
      })"

definition conv_str :: "u32 \<Rightarrow> int \<Rightarrow> int \<Rightarrow> fmt_state \<Rightarrow> fmt_state option" where
  "conv_str flags fw precision st = do {
     (x, st') \<leftarrow> arg_str st;
     let s = (case x of None \<Rightarrow> ''(null)'' | Some s \<Rightarrow> s);
     let len = (if precision \<ge> 0 \<and> int (length s) > precision then precision else int (length s));
     let (s1, fw1) = (if \<not> flag flags LEFT then pad_str len fw else ('''', fw));
     Some (emit (s1 @ take (nat len) s @ fst (pad_str len fw1)) st')
   }"

definition conv_number ::
    "char option \<Rightarrow> int \<Rightarrow> u32 \<Rightarrow> int \<Rightarrow> int \<Rightarrow> fmt_state \<Rightarrow> fmt_state option" where
  "conv_number qualifier base flags fw precision st = do {
     (w, st') \<leftarrow> arg_unsigned qualifier st;
     cs \<leftarrow> number w base fw precision flags;
     Some (emit cs st')
   }"

definition conv_pointer :: "u32 \<Rightarrow> int \<Rightarrow> int \<Rightarrow> fmt_state \<Rightarrow> fmt_state option" where
  "conv_pointer flags fw precision st = do {
     (w, st') \<leftarrow> arg_num st;
     let (fw, flags) = (if fw = -1 then (16, flags OR ZEROPAD) else (fw, flags));
     cs \<leftarrow> number w 16 fw precision (flags OR SMALL);
     Some (emit cs st')
   }"

definition conv_count :: "char option \<Rightarrow> fmt_state \<Rightarrow> fmt_state option" where
  "conv_count qualifier st = do {
     (w, st') \<leftarrow> arg_num st;
     Some (st'\<lparr>stores := stores st' @ [(w, if qualifier = Some CHR ''l'' then 8 else 4, length (out st'))]\<rparr>)
   }"

text \<open>The conversion character; the result has the rest of the format.\<close>

definition conversion ::
    "u32 \<Rightarrow> int \<Rightarrow> int \<Rightarrow> char option \<Rightarrow> string \<Rightarrow> fmt_state \<Rightarrow> (string \<times> fmt_state) option" where
  "conversion flags fw precision qualifier fmt st =
     (case fmt of
        [] \<Rightarrow> Some ([], emit ''%'' st)
      | c # cs \<Rightarrow> map_option (Pair cs)
          (if c = CHR ''c'' then conv_char flags fw st
           else if c = CHR ''s'' then conv_str flags fw precision st
           else if c = CHR ''o'' then conv_number qualifier 8 flags fw precision st
           else if c = CHR ''p'' then conv_pointer flags fw precision st
           else if c = CHR ''x'' then conv_number qualifier 16 (flags OR SMALL) fw precision st
           else if c = CHR ''X'' then conv_number qualifier 16 flags fw precision st
           else if c = CHR ''d'' \<or> c = CHR ''i'' then conv_number qualifier 10 (flags OR SIGN) fw precision st
           else if c = CHR ''u'' then conv_number qualifier 10 flags fw precision st
           else if c = CHR ''n'' then conv_count qualifier st
           else if c = CHR ''%'' then Some (emit ''%'' st)
           else Some (emit [CHR ''%'', c] st)))"

text \<open>Everything after a percent sign.\<close>

definition directive :: "string \<Rightarrow> fmt_state \<Rightarrow> (string \<times> fmt_state) option" where
  "directive fmt st =
     (let (flags, fmt1) = fmt_flags fmt 0
      in do {
        (fw, flags, fmt2, st1) \<leftarrow> fmt_width fmt1 flags st;
        (precision, fmt3, st2) \<leftarrow> fmt_precision fmt2 st1;
        let (qualifier, fmt4) = fmt_qualifier fmt3;
        conversion flags fw precision qualifier fmt4 st2
      })"

lemma fmt_flags_length: "fmt_flags fmt fl = (fl', rest) \<Longrightarrow> length rest \<le> length fmt"
  by (induction fmt fl rule: fmt_flags.induct) (force split: if_splits)+

lemma skip_atoi_length: "skip_atoi i cs = (w, rest) \<Longrightarrow> length rest \<le> length cs"
  by (induction i cs rule: skip_atoi.induct) (force split: if_splits)+

lemma fmt_width_length: "fmt_width fmt fl st = Some (w, fl', rest, st') \<Longrightarrow> length rest \<le> length fmt"
  by (auto simp: fmt_width_def split: list.splits if_splits prod.splits dest!: skip_atoi_length)

lemma fmt_precision_length: "fmt_precision fmt st = Some (p, rest, st') \<Longrightarrow> length rest \<le> length fmt"
  unfolding fmt_precision_def
  by (auto split: list.splits if_splits prod.splits char.splits bool.splits dest!: skip_atoi_length)

lemma fmt_qualifier_length: "fmt_qualifier fmt = (q, rest) \<Longrightarrow> length rest \<le> length fmt"
  by (auto simp: fmt_qualifier_def split: list.splits if_splits)

lemma conversion_length: "conversion fl fw p q fmt st = Some (rest, st') \<Longrightarrow> length rest \<le> length fmt"
  by (auto simp: conversion_def split: list.splits)

lemma directive_length:
  assumes "directive fmt st = Some (rest, st')"
  shows "length rest \<le> length fmt"
proof -
  obtain fl f1 where fl: "fmt_flags fmt 0 = (fl, f1)" by fastforce
  then obtain fw fl' f2 st1 p f3 st2 where w: "fmt_width f1 fl st = Some (fw, fl', f2, st1)"
      "fmt_precision f2 st1 = Some (p, f3, st2)"
      "conversion fl' fw p (fst (fmt_qualifier f3)) (snd (fmt_qualifier f3)) st2 = Some (rest, st')"
    using assms by (auto simp: directive_def bind_eq_Some_conv case_prod_beta)
  show ?thesis
    using fmt_flags_length [OF fl] fmt_width_length [OF w(1)] fmt_precision_length [OF w(2)]
      fmt_qualifier_length [of f3 "fst (fmt_qualifier f3)" "snd (fmt_qualifier f3)"] conversion_length [OF w(3)]
    by simp
qed

function vprintk_loop :: "string \<Rightarrow> fmt_state \<Rightarrow> fmt_state option" where
  "vprintk_loop [] st = Some st"
| "vprintk_loop (c # cs) st =
     (if c \<noteq> CHR ''%'' then vprintk_loop cs (emit [c] st)
      else case directive cs st of None \<Rightarrow> None | Some (rest, st') \<Rightarrow> vprintk_loop rest st')"
  by pat_completeness auto
termination
  by (relation "measure (\<lambda>(fmt, st). length fmt)") (auto dest: directive_length)

definition vprintk :: "string \<Rightarrow> varg list \<Rightarrow> fmt_state option" where
  "vprintk fmt as = vprintk_loop fmt \<lparr>out = [], args = as, stores = []\<rparr>"

section \<open>Numbers\<close>

lemma pad_eq: "pad c sz = (replicate (nat sz) c, min sz 0 - 1)"
proof (induction c sz rule: pad.induct)
  case (1 c sz)
  show ?case
  proof (cases "sz > 0")
    case True
    then have "nat sz = Suc (nat (sz - 1))" by simp
    then show ?thesis using 1 True by (simp add: pad.simps [of c sz])
  qed (simp add: pad.simps [of c sz])
qed

text \<open>The reference reading of a printed number.\<close>

definition digit_of :: "char \<Rightarrow> nat" where
  "digit_of c = (if is_digit c then of_char c - 48 else if of_char c \<ge> (97 :: nat) then of_char c - 87 else of_char c - 55)"

definition read_number :: "nat \<Rightarrow> string \<Rightarrow> nat" where
  "read_number b cs = foldl (\<lambda>v c. v * b + digit_of c) 0 cs"

definition read_int :: "nat \<Rightarrow> string \<Rightarrow> int" where
  "read_int b cs = (if cs \<noteq> [] \<and> hd cs = CHR ''-'' then - int (read_number b (tl cs)) else int (read_number b cs))"

lemma digits_length: "length digits_upper = 36" "length digits_lower = 36"
  by (simp_all add: digits_upper_def digits_lower_def)

lemma digit_values: "map digit_of digits_upper = [0..<36]" "map digit_of digits_lower = [0..<36]"
  by (simp_all add: digits_upper_def digits_lower_def digit_of_def is_digit_def upt_rec)

lemma digit_of_digits: "d < 36 \<Longrightarrow> digit_of (digits_upper ! d) = d" "d < 36 \<Longrightarrow> digit_of (digits_lower ! d) = d"
  using nth_map [of d digits_upper digit_of] nth_map [of d digits_lower digit_of]
  by (simp_all add: digit_values digits_length)

lemma digits_blank_free: "{CHR '' '', CHR ''-''} \<inter> set digits_upper = {}" "{CHR '' '', CHR ''-''} \<inter> set digits_lower = {}"
  by (simp_all add: digits_upper_def digits_lower_def)

lemma digits_not_blank:
  "d < 36 \<Longrightarrow> digits_upper ! d \<notin> {CHR '' '', CHR ''-''}" "d < 36 \<Longrightarrow> digits_lower ! d \<notin> {CHR '' '', CHR ''-''}"
  using digits_blank_free nth_mem [of d digits_upper, unfolded digits_length]
    nth_mem [of d digits_lower, unfolded digits_length] by blast+

lemma read_number_snoc [simp]: "read_number b (cs @ [c]) = read_number b cs * b + digit_of c"
  by (simp add: read_number_def)

lemma read_number_zeros [simp]: "read_number b (replicate n (CHR ''0'') @ cs) = read_number b cs"
proof -
  have "foldl (\<lambda>v c. v * b + digit_of c) 0 (replicate n (CHR ''0'')) = 0"
    by (induction n) (simp_all add: digit_of_def is_digit_def)
  then show ?thesis by (simp add: read_number_def)
qed

lemma tmp_digits_read:
  assumes "\<And>d. d < base \<Longrightarrow> digit_of (digits ! d) = d" "2 \<le> base"
  shows "read_number base (rev (tmp_digits digits base n)) = n"
proof (induction n rule: less_induct)
  case (less n)
  show ?case
  proof (cases "n = 0")
    case True
    then show ?thesis by (simp add: tmp_digits.simps read_number_def)
  next
    case False
    then have "read_number base (rev (tmp_digits digits base (n div base))) = n div base"
      using less assms(2) by simp
    moreover have "digit_of (digits ! (n mod base)) = n mod base" using assms by simp
    ultimately show ?thesis using False assms(2) by (simp add: tmp_digits.simps [of digits base n])
  qed
qed

lemma tmp_digits_length: "2 \<le> base \<Longrightarrow> n < base ^ k \<Longrightarrow> length (tmp_digits digits base n) \<le> k"
proof (induction k arbitrary: n)
  case 0
  then show ?case by (simp add: tmp_digits.simps)
next
  case (Suc k)
  have "n div base < base ^ k" using Suc.prems by (simp add: less_mult_imp_div_less mult.commute)
  then show ?case using Suc by (simp add: tmp_digits.simps [of digits base n])
qed

lemma tmp_digits_set: "2 \<le> base \<Longrightarrow> set (tmp_digits digits base n) \<subseteq> (!) digits ` {..<base}"
proof (induction n rule: less_induct)
  case (less n)
  show ?case
  proof (cases "n = 0")
    case False
    then show ?thesis using less by (auto simp: tmp_digits.simps [of digits base n])
  qed (simp add: tmp_digits.simps)
qed

lemma flag_or: "flag type (f OR g) \<longleftrightarrow> flag type f \<or> flag type g"
  by (simp only: bit.conj_disj_distrib or_eq_0_iff de_Morgan_conj)

text \<open>The digits of a number and how \<open>number\<close> frames them.\<close>

definition digit_string :: "u32 \<Rightarrow> int \<Rightarrow> u64 \<Rightarrow> string" where
  "digit_string type base num =
     (if num = 0 then ''0''
      else rev (tmp_digits (if flag type SMALL then digits_lower else digits_upper) (nat base) (unat num)))"

lemma nat_after_pad [simp]: "nat (min x 0 - 1) = 0" "nat (min (min x 0 - 1) 0 - 1) = 0"
  by auto

lemma max_int_length: "(if i > p then i else p) = max p (i :: int)"
  by simp

lemma number_eq:
  fixes num :: u64 and precision sz :: int
  assumes "2 \<le> base" "base \<le> 36" "\<not> flag type LEFT" "\<not> flag type PLUS" "\<not> flag type SPACE" "\<not> flag type SPECIAL"
  defines "neg \<equiv> flag type SIGN \<and> sint num < 0"
  defines "ds \<equiv> digit_string type base (if neg then - num else num)"
  defines "p \<equiv> max precision (int (length ds))"
  defines "w \<equiv> sz - (if neg then 1 else 0) - p"
  shows "number num base sz precision type = Some
    ((if flag type ZEROPAD then '''' else replicate (nat w) (CHR '' '')) @ (if neg then ''-'' else '''') @
     (if flag type ZEROPAD then replicate (nat w) (CHR ''0'') else '''') @
     replicate (nat (p - int (length ds))) (CHR ''0'') @ ds)"
proof -
  have b: "\<not> (base < 2 \<or> base > 36)" using assms(1,2) by simp
  have l: "flag type (ZEROPAD OR LEFT) \<longleftrightarrow> flag type ZEROPAD" using assms(3) by (simp add: flag_or)
  have ds: "rev (if n = 0 then ''0'' else
      tmp_digits (if flag type SMALL then digits_lower else digits_upper) (nat base) (unat n)) = digit_string type base n" for n :: u64
    by (simp add: digit_string_def)
  have len: "length (if n = 0 then ''0'' else
      tmp_digits (if flag type SMALL then digits_lower else digits_upper) (nat base) (unat n)) = length (digit_string type base n)" for n :: u64
    by (simp add: digit_string_def)
  show ?thesis
    unfolding number_def Let_def if_not_P [OF b] if_not_P [OF assms(3)] max_int_length l neg_def [symmetric]
    using assms(3-6)
    by (cases neg; cases "flag type ZEROPAD") (simp_all only: if_True if_False pad_eq ds len p_def w_def ds_def
      split_conv nat_after_pad not_True_eq_False not_False_eq_True simp_thms replicate_0 append_Nil append_Nil2
      diff_zero append.simps append_assoc)
qed

lemma digit_string_reads:
  assumes "2 \<le> base" "base \<le> 36"
  shows "read_number (nat base) (digit_string type base num) = unat num"
proof (cases "num = 0")
  case True
  then show ?thesis by (simp add: digit_string_def read_number_def digit_of_def is_digit_def)
next
  case False
  then show ?thesis using assms
    by (auto simp: digit_string_def intro!: tmp_digits_read digit_of_digits)
qed

lemma digit_string_chars:
  assumes "2 \<le> base" "base \<le> 36"
  shows "digit_string type base num \<noteq> []" "{CHR '' '', CHR ''-''} \<inter> set (digit_string type base num) = {}"
proof -
  show "digit_string type base num \<noteq> []"
    using assms by (auto simp: digit_string_def tmp_digits.simps [of _ "nat base" "unat num"] unat_eq_0)
  have "(!) digits_upper ` {..<nat base} \<subseteq> set digits_upper" "(!) digits_lower ` {..<nat base} \<subseteq> set digits_lower"
    using assms digits_length by auto
  then have "set (tmp_digits digits_upper (nat base) (unat num)) \<subseteq> set digits_upper"
    "set (tmp_digits digits_lower (nat base) (unat num)) \<subseteq> set digits_lower"
    using tmp_digits_set [of "nat base" digits_upper "unat num"] tmp_digits_set [of "nat base" digits_lower "unat num"]
      nat_mono [OF assms(1)] by auto
  then show "{CHR '' '', CHR ''-''} \<inter> set (digit_string type base num) = {}"
    using digits_blank_free by (auto simp: digit_string_def)
qed

lemma read_int_digits: "CHR ''-'' \<notin> set cs \<Longrightarrow> read_int b cs = int (read_number b cs)"
  by (cases cs) (auto simp: read_int_def)

lemma read_int_minus [simp]: "read_int b (CHR ''-'' # cs) = - int (read_number b cs)"
  by (simp add: read_int_def)

lemma skip_blanks: "CHR '' '' \<notin> set cs \<Longrightarrow> dropWhile (\<lambda>c. c = CHR '' '') (replicate n (CHR '' '') @ cs) = cs"
  by (induction n) (auto simp: dropWhile_eq_self_iff dest: hd_in_set)

lemma sint_cases: "sint (num :: u64) = uint num \<and> 0 \<le> sint num \<or> sint num = uint num - 2 ^ 64 \<and> sint num < 0"
  using uint_lt2p [of num]
  by (simp add: sint_uint signed_take_bit_eq_take_bit_minus bintr_uint)

lemma negative_magnitude: "sint (num :: u64) < 0 \<Longrightarrow> int (unat (- num)) = - sint num"
  using sint_cases [of num] uint_lt2p [of num] by (cases "num = 0") (auto simp: uint_word_ariths zmod_zminus1_eq_if uint_0_iff)

text \<open>C24: for every base from 2 to 36, width, precision and the flags \<open>ZEROPAD\<close>, \<open>SMALL\<close> and \<open>SIGN\<close>,
  \<open>number\<close> writes at least \<open>size\<close> characters, and reading them back after the blanks gives the
  number: the signed value under \<open>SIGN\<close>, the unsigned one otherwise.\<close>

theorem number_reads_back:
  fixes num :: u64
  assumes "2 \<le> base" "base \<le> 36" "\<not> flag type LEFT" "\<not> flag type PLUS" "\<not> flag type SPACE" "\<not> flag type SPECIAL"
  shows "\<exists>str. number num base sz precision type = Some str \<and> sz \<le> int (length str) \<and>
    read_int (nat base) (dropWhile (\<lambda>c. c = CHR '' '') str) = (if flag type SIGN then sint num else uint num)"
proof -
  define neg where "neg \<longleftrightarrow> flag type SIGN \<and> sint num < 0"
  define ds where "ds = digit_string type base (if neg then - num else num)"
  define p where "p = max precision (int (length ds))"
  define w where "w = sz - (if neg then 1 else 0) - p"
  define zs where "zs = (if flag type ZEROPAD then replicate (nat w) (CHR ''0'') else '''') @
    replicate (nat (p - int (length ds))) (CHR ''0'')"
  define bl where "bl = (if flag type ZEROPAD then '''' else replicate (nat w) (CHR '' ''))"
  have n: "number num base sz precision type = Some (bl @ (if neg then ''-'' else '''') @ zs @ ds)"
    using number_eq [OF assms, of num sz precision]
    by (simp add: neg_def ds_def p_def w_def zs_def bl_def)
  have z: "zs = replicate (length zs) (CHR ''0'')" by (simp add: zs_def replicate_add)
  have ds_ok: "CHR '' '' \<notin> set ds" "CHR ''-'' \<notin> set ds" using digit_string_chars(2) [OF assms(1,2)] by (auto simp: ds_def)
  have r: "read_number (nat base) (zs @ ds) = unat (if neg then - num else num)"
    by (subst z) (simp add: ds_def digit_string_reads assms)
  have drop: "dropWhile (\<lambda>c. c = CHR '' '') (bl @ cs) = cs" if "CHR '' '' \<notin> set cs" for cs
    using that skip_blanks [of cs "nat w"] skip_blanks [of cs 0] by (simp add: bl_def)
  have "dropWhile (\<lambda>c. c = CHR '' '') (bl @ (if neg then ''-'' else '''') @ zs @ ds) = (if neg then ''-'' else '''') @ zs @ ds"
    by (rule drop) (use ds_ok in \<open>auto simp: zs_def\<close>)
  moreover have "read_int (nat base) ((if neg then ''-'' else '''') @ zs @ ds) = (if flag type SIGN then sint num else uint num)"
  proof (cases neg)
    case True
    then show ?thesis using r negative_magnitude [of num] by (simp add: neg_def)
  next
    case False
    then have "read_int (nat base) (zs @ ds) = uint num"
      using r read_int_digits [of "zs @ ds"] ds_ok(2) by (simp add: zs_def)
    then show ?thesis using False sint_cases [of num] by (auto simp: neg_def)
  qed
  moreover have "sz \<le> int (length (bl @ (if neg then ''-'' else '''') @ zs @ ds))"
    by (auto simp: bl_def zs_def w_def p_def)
  ultimately show ?thesis using n by simp
qed

section \<open>Formats\<close>

lemma emit_simps [simp]:
  "out (emit cs st) = out st @ cs" "args (emit cs st) = args st" "stores (emit cs st) = stores st"
  "emit ds (emit cs st) = emit (cs @ ds) st" "emit [] st = st"
  by (simp_all add: emit_def)

lemma vprintk_literal:
  "CHR ''%'' \<notin> set pre \<Longrightarrow> vprintk_loop (pre @ fmt) st = vprintk_loop fmt (emit pre st)"
  by (induction pre arbitrary: st) auto

lemma vprintk_plain: "CHR ''%'' \<notin> set pre \<Longrightarrow> vprintk_loop pre st = Some (emit pre st)"
  using vprintk_literal [of pre "[]"] by simp

lemma directive_d:
  "directive (CHR ''d'' # cs) st = map_option (Pair cs) (conv_number None 10 SIGN (-1) (-1) st)"
  by (simp add: directive_def fmt_width_def fmt_precision_def fmt_qualifier_def conversion_def is_digit_def)

lemma directive_s:
  "directive (CHR ''s'' # cs) st = map_option (Pair cs) (conv_str 0 (-1) (-1) st)"
  by (simp add: directive_def fmt_width_def fmt_precision_def fmt_qualifier_def conversion_def is_digit_def)

lemma conv_str_plain: "args st = VStr (Some x) # as \<Longrightarrow> conv_str 0 (-1) (-1) st = Some (emit x (st\<lparr>args := as\<rparr>))"
  by (simp add: conv_str_def arg_str_def pad_str_def pad_eq)

lemma sint_small: "sint (ucast (w :: u32) :: u64) = uint w"
  using uint_lt2p [of w] sint_cases [of "ucast w :: u64"] sint_greater_eq [of "ucast w :: u64"]
  by (simp add: unsigned_ucast_eq bintr_uint)

theorem number_reads_back_witness:
  "\<exists>str. number (- 42) 10 6 (-1) (SIGN OR ZEROPAD) = Some str \<and> 6 \<le> int (length str) \<and>
    read_int 10 (dropWhile (\<lambda>c. c = CHR '' '') str) = - 42"
  using number_reads_back [of 10 "SIGN OR ZEROPAD" "- 42" 6 "-1"] by (simp add: flag_defs)

text \<open>The digits of a 64 bit number in any base that \<open>number\<close> accepts fit its buffer
  \<open>tmp[64]\<close>.\<close>

theorem number_digits_fit_buffer:
  fixes num :: u64
  assumes "2 \<le> base"
  shows "length (tmp_digits digits base (unat num)) \<le> 64"
proof (rule tmp_digits_length [OF assms])
  have "unat num < 2 ^ LENGTH(64)" by (rule unsigned_less)
  also have "\<dots> \<le> base ^ 64" using power_mono [of 2 base 64] assms by simp
  finally show "unat num < base ^ 64" .
qed

theorem number_digits_fit_buffer_witness:
  "length (tmp_digits digits_upper 2 (unat (- 1 :: u64))) \<le> 64 \<and> tmp_digits digits_upper 16 255 = ''FF''"
  using number_digits_fit_buffer [of 2 digits_upper "- 1"]
  by (simp add: tmp_digits.simps [of _ _ 255] tmp_digits.simps [of _ _ 15] tmp_digits.simps [of _ _ 0] digits_upper_def)

text \<open>A \<open>%d\<close> between literal text prints the 32 bit argument as an unsigned number, whatever
  its sign: the value is read with \<open>va_arg(args, uint32_t)\<close> and is never negative as an
  \<open>int64_t\<close>.\<close>

theorem percent_d_prints_unsigned:
  assumes "CHR ''%'' \<notin> set pre" "CHR ''%'' \<notin> set post"
  shows "\<exists>ds. vprintk (pre @ ''%d'' @ post) [VNum w] = Some \<lparr>out = pre @ ds @ post, args = [], stores = []\<rparr> \<and>
    ds \<noteq> [] \<and> read_int 10 ds = uint (ucast w :: u32)"
proof -
  let ?n = "ucast (ucast w :: u32) :: u64"
  define ds where "ds = digit_string SIGN 10 ?n"
  have pos: "\<not> sint ?n < 0" by (simp add: sint_small)
  have "number ?n 10 (-1) (-1) SIGN = Some ds"
    using number_eq [of 10 SIGN ?n "-1" "-1"] pos by (simp add: flag_defs ds_def)
  then have "vprintk (pre @ ''%d'' @ post) [VNum w] = Some \<lparr>out = pre @ ds @ post, args = [], stores = []\<rparr>"
    using assms by (simp add: vprintk_def vprintk_literal directive_d conv_number_def arg_unsigned_def arg_num_def
      vprintk_plain emit_def)
  moreover have "read_int 10 ds = uint (ucast w :: u32)"
  proof -
    have "CHR ''-'' \<notin> set ds" using digit_string_chars(2) [of 10 SIGN ?n] by (auto simp: ds_def)
    then show ?thesis
      using read_int_digits [of ds 10] digit_string_reads [of 10 SIGN ?n] by (simp add: ds_def unsigned_ucast_eq unsigned_take_bit_eq of_nat_take_bit)
  qed
  ultimately show ?thesis using digit_string_chars(1) [of 10 SIGN ?n] by (auto simp: ds_def)
qed

theorem percent_d_prints_unsigned_witness:
  "\<exists>ds. vprintk ''PID %d.'' [VNum 0xFFFFFFFF] = Some \<lparr>out = ''PID '' @ ds @ ''.'', args = [], stores = []\<rparr> \<and>
    ds \<noteq> [] \<and> read_int 10 ds = 4294967295"
  using percent_d_prints_unsigned [of "''PID ''" "''.''" "0xFFFFFFFF"] by simp

text \<open>A \<open>%s\<close> between literal text copies the whole argument into the output, however long it is:
  nothing limits the copy to the 1024 bytes of \<open>fmt_buf\<close>.\<close>

theorem percent_s_copies_whole_argument:
  assumes "CHR ''%'' \<notin> set pre" "CHR ''%'' \<notin> set post"
  shows "vprintk (pre @ ''%s'' @ post) [VStr (Some x)] = Some \<lparr>out = pre @ x @ post, args = [], stores = []\<rparr>"
  using assms
  by (simp add: vprintk_def vprintk_literal directive_s conv_str_plain vprintk_plain emit_def)

theorem percent_s_copies_whole_argument_witness:
  "\<exists>st. vprintk ''> %s'' [VStr (Some (replicate 2000 (CHR ''x'')))] = Some st \<and> 1024 < length (out st)"
  using percent_s_copies_whole_argument [of "''> ''" "''''" "replicate 2000 (CHR ''x'')"] by simp

end
