(* ===== verification/Console.thy ===== *)
theory Console
  imports Format
begin

text \<open>
  The text console of \<open>src/src/kernel/console.c\<close>: the VGA text screen, four virtual terminals, the
  scroll-back history and the cursor.

  \<open>console\<close> holds the static variables of the file, the cells of the VGA memory at \<open>0xB8000\<close> and
  the bytes sent to I/O ports, in order. \<open>tty_buf\<close> is one flat array: terminal \<open>t\<close> has the cells from
  \<open>2000 * t\<close> on, so an index past the end of one terminal is the first cell of the next. Cursor
  coordinates are bytes as in the code; history positions are C \<open>int\<close>s. \<open>con_printk\<close> is \<open>printk\<close>:
  the log that the other components keep is shown by \<open>display\<close>.
\<close>

section \<open>State\<close>

definition VGA_WIDTH :: nat where "VGA_WIDTH = 80"
definition VGA_HEIGHT :: nat where "VGA_HEIGHT = 25"
definition TTY_COUNT :: nat where "TTY_COUNT = 4"
definition HISTORY_SIZE :: int where "HISTORY_SIZE = 1000"
definition VGA_CTRL_PORT :: u16 where "VGA_CTRL_PORT = 0x3D4"
definition VGA_DATA_PORT :: u16 where "VGA_DATA_PORT = 0x3D5"
definition VGA_BLACK :: u8 where "VGA_BLACK = 0x00"
definition VGA_LIGHT_GREY :: u8 where "VGA_LIGHT_GREY = 0x07"
definition VGA_YELLOW :: u8 where "VGA_YELLOW = 0x0E"

lemmas con_consts [simp] = VGA_WIDTH_def VGA_HEIGHT_def TTY_COUNT_def HISTORY_SIZE_def

record console =
  vga :: "u16 array"
  ports :: "(u16 \<times> u8) list"
  simple_history :: "u16 array array"
  history_write_pos :: int
  history_count :: int
  is_viewing_history :: bool
  history_view_offset :: int
  screen_backup :: "u16 array array"
  cursor_row :: u8
  cursor_col :: u8
  vga_color :: u8
  tty_buf :: "u16 array"
  tty_row :: "u8 array"
  tty_col :: "u8 array"
  tty_color :: "u8 array"
  tty_cur :: nat

definition outb :: "u16 \<Rightarrow> u8 \<Rightarrow> 'a console_scheme \<Rightarrow> 'a console_scheme" where
  "outb port data c = c\<lparr>ports := ports c @ [(port, data)]\<rparr>"

text \<open>The start of the active terminal in \<open>tty_buf\<close>.\<close>

definition TBUF :: "'a console_scheme \<Rightarrow> nat" where
  "TBUF c = tty_cur c * (VGA_WIDTH * VGA_HEIGHT)"

definition vga_index :: "nat \<Rightarrow> nat \<Rightarrow> nat" where
  "vga_index row col = row * VGA_WIDTH + col"

definition vga_make_color :: "u8 \<Rightarrow> u8 \<Rightarrow> u8" where
  "vga_make_color fg bg = push_bit 4 bg OR (fg AND 0x0F)"

text \<open>A cell: attribute and character.\<close>

definition vga_cell :: "u8 \<Rightarrow> char \<Rightarrow> u16" where
  "vga_cell color ch = push_bit 8 (ucast color) OR ucast (of_char ch :: u8)"

section \<open>Cursor and history\<close>

definition update_cursor :: "u8 \<Rightarrow> u8 \<Rightarrow> 'a console_scheme \<Rightarrow> 'a console_scheme" where
  "update_cursor row col c =
     (let row = (if unat row \<ge> VGA_HEIGHT then of_nat (VGA_HEIGHT - 1) else row);
          col = (if unat col \<ge> VGA_WIDTH then of_nat (VGA_WIDTH - 1) else col);
          cursor_pos = (ucast row * of_nat VGA_WIDTH + ucast col :: u16)
      in outb VGA_DATA_PORT (ucast (cursor_pos AND 0xFF)) (outb VGA_CTRL_PORT 0x0F
           (outb VGA_DATA_PORT (ucast (drop_bit 8 cursor_pos AND 0xFF)) (outb VGA_CTRL_PORT 0x0E c))))"

definition history_init_simple :: "'a console_scheme \<Rightarrow> 'a console_scheme" where
  "history_init_simple c = c\<lparr>history_write_pos := 0, history_count := 0, is_viewing_history := False,
     history_view_offset := 0\<rparr>"

definition save_line_to_history :: "nat \<Rightarrow> 'a console_scheme \<Rightarrow> 'a console_scheme" where
  "save_line_to_history line_num c =
     (let wp = nat (history_write_pos c);
          line = fold (\<lambda>col a. a(col := vga c (line_num * VGA_WIDTH + col))) [0..<VGA_WIDTH] (simple_history c wp)
      in c\<lparr>simple_history := (simple_history c)(wp := line),
           history_write_pos := (history_write_pos c + 1) mod HISTORY_SIZE,
           history_count := (if history_count c < HISTORY_SIZE then history_count c + 1 else history_count c)\<rparr>)"

definition backup_current_screen :: "'a console_scheme \<Rightarrow> 'a console_scheme" where
  "backup_current_screen c = c\<lparr>screen_backup :=
     fold (\<lambda>row b. b(row := fold (\<lambda>col a. a(col := vga c (row * VGA_WIDTH + col))) [0..<VGA_WIDTH] (b row)))
       [0..<VGA_HEIGHT] (screen_backup c)\<rparr>"

definition restore_screen_from_backup :: "'a console_scheme \<Rightarrow> 'a console_scheme" where
  "restore_screen_from_backup c =
     (let t = TBUF c;
          (v, b) = fold (\<lambda>row. fold (\<lambda>col (v, b).
               let idx = row * VGA_WIDTH + col; e = screen_backup c row col
               in (v(idx := e), b(t + idx := e))) [0..<VGA_WIDTH]) [0..<VGA_HEIGHT] (vga c, tty_buf c)
      in c\<lparr>vga := v, tty_buf := b\<rparr>)"

definition history_prompt :: string where
  "history_prompt = ''(History View - Press any key to return)''"

text \<open>The C remainder: the sign follows the dividend.\<close>

definition c_rem :: "int \<Rightarrow> int \<Rightarrow> int" where
  "c_rem a b = (if a < 0 then - ((- a) mod b) else a mod b)"

definition history_start :: "'a console_scheme \<Rightarrow> int \<Rightarrow> int" where
  "history_start c lines_to_show =
     (let start_index = c_rem (history_write_pos c - lines_to_show - history_view_offset c) HISTORY_SIZE
      in if start_index < 0 then start_index + HISTORY_SIZE else start_index)"

definition lines_shown :: "'a console_scheme \<Rightarrow> int" where
  "lines_shown c =
     (let n = (if int VGA_HEIGHT - 1 > history_count c then history_count c else int VGA_HEIGHT - 1)
      in if n \<le> 0 then 0 else n)"

definition printable :: "u16 \<Rightarrow> bool" where
  "printable e \<longleftrightarrow> 32 \<le> e AND 0xFF \<and> e AND 0xFF \<le> 126"

definition show_history_lines :: "'a console_scheme \<Rightarrow> 'a console_scheme" where
  "show_history_lines c =
     (let blank = vga_cell (vga_make_color VGA_LIGHT_GREY VGA_BLACK) (CHR '' '');
          v0 = fold (\<lambda>i v. v(i := blank)) [0..<VGA_WIDTH * VGA_HEIGHT] (vga c);
          n = lines_shown c;
          start = history_start c n;
          v1 = fold (\<lambda>row. fold (\<lambda>col v.
                 let e = simple_history c (nat (c_rem (start + int row) HISTORY_SIZE)) col
                 in v(row * VGA_WIDTH + col := (if printable e then e else blank))) [0..<VGA_WIDTH]) [0..<nat n] v0;
          prompt_len = length history_prompt;
          prompt_row = (if n \<ge> int VGA_HEIGHT then VGA_HEIGHT - 1 else nat n);
          prompt_col = nat ((int VGA_WIDTH - int prompt_len) div 2);
          prompt_color = vga_make_color VGA_YELLOW VGA_BLACK;
          v2 = fold (\<lambda>i v. if prompt_col + i < VGA_WIDTH
                 then v(prompt_row * VGA_WIDTH + prompt_col + i := vga_cell prompt_color (history_prompt ! i)) else v)
                 [0..<prompt_len] v1
      in update_cursor (of_nat prompt_row) (of_nat prompt_col) (c\<lparr>vga := v2\<rparr>))"

definition view_history_up :: "'a console_scheme \<Rightarrow> 'a console_scheme" where
  "view_history_up c =
     (if history_count c = 0 then c
      else
        let c1 = (if \<not> is_viewing_history c
                  then (backup_current_screen c)\<lparr>is_viewing_history := True, history_view_offset := 0\<rparr>
                  else
                    let off = history_view_offset c + 1;
                        off = (if off > history_count c - (int VGA_HEIGHT - 1)
                               then history_count c - (int VGA_HEIGHT - 1) else off);
                        off = (if off < 0 then 0 else off)
                    in c\<lparr>history_view_offset := off\<rparr>)
        in show_history_lines c1)"

definition view_history_down :: "'a console_scheme \<Rightarrow> 'a console_scheme" where
  "view_history_down c =
     (if \<not> is_viewing_history c then c
      else
        let c1 = c\<lparr>history_view_offset := history_view_offset c - 1\<rparr> in
        if history_view_offset c1 < 0 then
          let c2 = restore_screen_from_backup (c1\<lparr>is_viewing_history := False, history_view_offset := 0\<rparr>)
          in update_cursor (cursor_row c2) (cursor_col c2) c2
        else show_history_lines c1)"

section \<open>Screen\<close>

definition set_vga_color :: "u8 \<Rightarrow> u8 \<Rightarrow> 'a console_scheme \<Rightarrow> 'a console_scheme" where
  "set_vga_color fg bg c =
     (let v = vga_make_color fg bg in c\<lparr>vga_color := v, tty_color := (tty_color c)(tty_cur c := v)\<rparr>)"

definition get_cursor_row :: "'a console_scheme \<Rightarrow> u8" where "get_cursor_row c = cursor_row c"
definition get_cursor_col :: "'a console_scheme \<Rightarrow> u8" where "get_cursor_col c = cursor_col c"

definition set_cursor_row :: "u8 \<Rightarrow> 'a console_scheme \<Rightarrow> 'a console_scheme" where
  "set_cursor_row row c = (if unat row < VGA_HEIGHT then c\<lparr>cursor_row := row\<rparr> else c)"

definition set_cursor_col :: "u8 \<Rightarrow> 'a console_scheme \<Rightarrow> 'a console_scheme" where
  "set_cursor_col col c = (if unat col < VGA_WIDTH then c\<lparr>cursor_col := col\<rparr> else c)"

definition vt_render_active :: "'a console_scheme \<Rightarrow> 'a console_scheme" where
  "vt_render_active c =
     (let c1 = c\<lparr>vga := fold (\<lambda>i v. v(i := tty_buf c (TBUF c + i))) [0..<VGA_WIDTH * VGA_HEIGHT] (vga c)\<rparr>
      in update_cursor (cursor_row c1) (cursor_col c1) c1)"

text \<open>The inner loop of the scrolling routines: row \<open>s\<close> of the active terminal is copied to row
  \<open>d\<close> and shown.\<close>

definition copy_row :: "nat \<Rightarrow> nat \<Rightarrow> nat \<Rightarrow> u16 array \<times> u16 array \<Rightarrow> u16 array \<times> u16 array" where
  "copy_row t s d = fold (\<lambda>col (b, v).
     let b' = b(t + vga_index d col := b (t + vga_index s col))
     in (b', v(vga_index d col := b' (t + vga_index d col)))) [0..<VGA_WIDTH]"

definition blank_row :: "nat \<Rightarrow> nat \<Rightarrow> u16 \<Rightarrow> u16 array \<times> u16 array \<Rightarrow> u16 array \<times> u16 array" where
  "blank_row t row e = fold (\<lambda>col (b, v).
     (b(t + vga_index row col := e), v(vga_index row col := e))) [0..<VGA_WIDTH]"

definition rows_up :: "nat \<Rightarrow> u16 \<Rightarrow> u16 array \<times> u16 array \<Rightarrow> u16 array \<times> u16 array" where
  "rows_up t e bv = blank_row t (VGA_HEIGHT - 1) e (fold (\<lambda>row. copy_row t row (row - 1)) [1..<VGA_HEIGHT] bv)"

definition rows_down :: "nat \<Rightarrow> u16 \<Rightarrow> u16 array \<times> u16 array \<Rightarrow> u16 array \<times> u16 array" where
  "rows_down t e bv = blank_row t 0 e (fold (\<lambda>row. copy_row t row (row + 1)) (rev [0..<VGA_HEIGHT - 1]) bv)"

definition scroll_screen :: "'a console_scheme \<Rightarrow> 'a console_scheme" where
  "scroll_screen c =
     (let empty = vga_cell (vga_color c) (CHR '' '');
          c1 = save_line_to_history 0 c;
          (b, v) = rows_up (TBUF c1) empty (tty_buf c1, vga c1)
      in backup_current_screen (c1\<lparr>tty_buf := b, vga := v, cursor_row := of_nat (VGA_HEIGHT - 1), cursor_col := 0\<rparr>))"

definition clear_screen :: "'a console_scheme \<Rightarrow> 'a console_scheme" where
  "clear_screen c =
     (let empty = vga_cell (vga_color c) (CHR '' '');
          c1 = fold save_line_to_history [0..<VGA_HEIGHT] c;
          t = TBUF c1;
          (v, b) = fold (\<lambda>i (v, b). (v(i := empty), b(t + i := empty))) [0..<VGA_WIDTH * VGA_HEIGHT] (vga c1, tty_buf c1);
          c2 = update_cursor 0 0 (c1\<lparr>vga := v, tty_buf := b, cursor_row := 0, cursor_col := 0\<rparr>)
      in (backup_current_screen c2)\<lparr>is_viewing_history := False\<rparr>)"

definition console_init :: "'a console_scheme \<Rightarrow> 'a console_scheme" where
  "console_init c = clear_screen c"

section \<open>Output\<close>

definition leave_history :: "'a console_scheme \<Rightarrow> 'a console_scheme" where
  "leave_history c =
     (if is_viewing_history c then
        let c1 = restore_screen_from_backup (c\<lparr>is_viewing_history := False, history_view_offset := 0\<rparr>)
        in update_cursor (cursor_row c1) (cursor_col c1) c1
      else c)"

text \<open>The \<open>default\<close> case of the switch.\<close>

definition put_glyph :: "char \<Rightarrow> 'a console_scheme \<Rightarrow> 'a console_scheme" where
  "put_glyph ch c =
     (let c1 = (if unat (cursor_col c) \<ge> VGA_WIDTH then c\<lparr>cursor_col := 0, cursor_row := cursor_row c + 1\<rparr> else c);
          idx = vga_index (unat (cursor_row c1)) (unat (cursor_col c1));
          val = vga_cell (vga_color c1) ch
      in c1\<lparr>tty_buf := (tty_buf c1)(TBUF c1 + idx := val), vga := (vga c1)(idx := val),
            cursor_col := cursor_col c1 + 1\<rparr>)"

definition print_char_color :: "char \<Rightarrow> u8 \<Rightarrow> u8 \<Rightarrow> 'a console_scheme \<Rightarrow> 'a console_scheme" where
  "print_char_color ch fg bg c =
     (let c0 = leave_history c;
          old_color = vga_color c0;
          c1 = set_vga_color fg bg c0;
          c2 = (if ch = CHR 0x0A then c1\<lparr>cursor_row := cursor_row c1 + 1, cursor_col := 0\<rparr>
                else if ch = CHR 0x0D then c1\<lparr>cursor_col := 0\<rparr>
                else if ch = CHR 0x09 then c1\<lparr>cursor_col := (cursor_col c1 + 4) AND NOT 3\<rparr>
                else put_glyph ch c1);
          c3 = (if unat (cursor_row c2) \<ge> VGA_HEIGHT then scroll_screen c2 else c2)
      in backup_current_screen
           (c3\<lparr>vga_color := old_color, tty_color := (tty_color c3)(tty_cur c3 := old_color)\<rparr>))"

definition print_char :: "char \<Rightarrow> 'a console_scheme \<Rightarrow> 'a console_scheme" where
  "print_char ch = print_char_color ch VGA_LIGHT_GREY VGA_BLACK"

text \<open>The characters before the terminator.\<close>

definition c_string :: "string \<Rightarrow> string" where
  "c_string str = takeWhile (\<lambda>ch. ch \<noteq> CHR 0x00) str"

definition print_str_color :: "string \<Rightarrow> u8 \<Rightarrow> u8 \<Rightarrow> 'a console_scheme \<Rightarrow> 'a console_scheme" where
  "print_str_color str fg bg = fold (\<lambda>ch. print_char_color ch fg bg) (c_string str)"

definition print_str :: "string \<Rightarrow> 'a console_scheme \<Rightarrow> 'a console_scheme" where
  "print_str str = print_str_color str VGA_LIGHT_GREY VGA_BLACK"

text \<open>The loop that fills \<open>buf[20]\<close>, least significant digit first.\<close>

function u64_digits :: "nat \<Rightarrow> string" where
  "u64_digits num = (if num > 0 then char_of (48 + num mod 10 :: nat) # u64_digits (num div 10) else [])"
  by pat_completeness auto
termination
  by (relation "measure id") auto

declare u64_digits.simps [simp del]

definition print_uint64_color :: "u64 \<Rightarrow> u8 \<Rightarrow> u8 \<Rightarrow> 'a console_scheme \<Rightarrow> 'a console_scheme" where
  "print_uint64_color num fg bg c =
     (if num = 0 then print_char_color (CHR ''0'') fg bg c
      else fold (\<lambda>ch. print_char_color ch fg bg) (rev (u64_digits (unat num))) c)"

definition print_uint64 :: "u64 \<Rightarrow> 'a console_scheme \<Rightarrow> 'a console_scheme" where
  "print_uint64 num = print_uint64_color num VGA_LIGHT_GREY VGA_BLACK"

definition vt_switch :: "int \<Rightarrow> 'a console_scheme \<Rightarrow> 'a console_scheme" where
  "vt_switch tty_num c =
     (if tty_num < 0 \<or> tty_num \<ge> int TTY_COUNT \<or> tty_num = int (tty_cur c) then c
      else
        let c1 = c\<lparr>tty_row := (tty_row c)(tty_cur c := cursor_row c), tty_col := (tty_col c)(tty_cur c := cursor_col c),
                   tty_color := (tty_color c)(tty_cur c := vga_color c), tty_cur := nat tty_num\<rparr>;
            c2 = c1\<lparr>cursor_row := tty_row c1 (tty_cur c1), cursor_col := tty_col c1 (tty_cur c1),
                    vga_color := tty_color c1 (tty_cur c1)\<rparr>
        in backup_current_screen (vt_render_active c2))"

definition con_printk :: "string \<Rightarrow> varg list \<Rightarrow> 'a console_scheme \<Rightarrow> (nat \<times> 'a console_scheme) option" where
  "con_printk fmt as c = map_option (\<lambda>st. (length (out st), print_str (out st) c)) (vprintk fmt as)"

definition con_printk_color ::
    "u8 \<Rightarrow> u8 \<Rightarrow> string \<Rightarrow> varg list \<Rightarrow> 'a console_scheme \<Rightarrow> (nat \<times> 'a console_scheme) option" where
  "con_printk_color fg bg fmt as c = map_option (\<lambda>st. (length (out st), print_str_color (out st) fg bg c)) (vprintk fmt as)"

section \<open>Cursor movement and manual scrolling\<close>

definition move_cursor_up :: "'a console_scheme \<Rightarrow> 'a console_scheme" where
  "move_cursor_up c =
     (let c1 = (if cursor_row c > 0 then c\<lparr>cursor_row := cursor_row c - 1\<rparr>
                else (view_history_up c)\<lparr>cursor_row := 0\<rparr>)
      in update_cursor (cursor_row c1) (cursor_col c1) c1)"

definition move_cursor_down :: "'a console_scheme \<Rightarrow> 'a console_scheme" where
  "move_cursor_down c =
     (let c1 = (if unat (cursor_row c) < VGA_HEIGHT - 1 then c\<lparr>cursor_row := cursor_row c + 1\<rparr>
                else (view_history_down c)\<lparr>cursor_row := of_nat (VGA_HEIGHT - 1)\<rparr>)
      in update_cursor (cursor_row c1) (cursor_col c1) c1)"

definition move_cursor_left :: "'a console_scheme \<Rightarrow> 'a console_scheme" where
  "move_cursor_left c =
     (let c1 = (if cursor_col c > 0 then c\<lparr>cursor_col := cursor_col c - 1\<rparr>
                else if cursor_row c > 0 then c\<lparr>cursor_row := cursor_row c - 1, cursor_col := of_nat (VGA_WIDTH - 1)\<rparr>
                else c)
      in update_cursor (cursor_row c1) (cursor_col c1) c1)"

definition move_cursor_right :: "'a console_scheme \<Rightarrow> 'a console_scheme" where
  "move_cursor_right c =
     (let c1 = (if unat (cursor_col c) < VGA_WIDTH - 1 then c\<lparr>cursor_col := cursor_col c + 1\<rparr>
                else if unat (cursor_row c) < VGA_HEIGHT - 1 then c\<lparr>cursor_row := cursor_row c + 1, cursor_col := 0\<rparr>
                else c)
      in update_cursor (cursor_row c1) (cursor_col c1) c1)"

definition scroll_up :: "'a console_scheme \<Rightarrow> 'a console_scheme" where
  "scroll_up c =
     (let c1 = save_line_to_history 0 c;
          (b, v) = rows_up (TBUF c1) (vga_cell (vga_color c1) (CHR '' '')) (tty_buf c1, vga c1);
          c2 = c1\<lparr>tty_buf := b, vga := v\<rparr>;
          c3 = (if unat (cursor_row c2) = VGA_HEIGHT - 1 then c2\<lparr>cursor_row := cursor_row c2 - 1\<rparr>
                else if cursor_row c2 > 0 then c2\<lparr>cursor_row := cursor_row c2 - 1\<rparr> else c2);
          c4 = backup_current_screen c3
      in update_cursor (cursor_row c4) (cursor_col c4) c4)"

definition scroll_down :: "'a console_scheme \<Rightarrow> 'a console_scheme" where
  "scroll_down c =
     (let c1 = save_line_to_history (VGA_HEIGHT - 1) c;
          (b, v) = rows_down (TBUF c1) (vga_cell (vga_color c1) (CHR '' '')) (tty_buf c1, vga c1);
          c2 = c1\<lparr>tty_buf := b, vga := v\<rparr>;
          c3 = (if cursor_row c2 = 0 then c2\<lparr>cursor_row := cursor_row c2 + 1\<rparr>
                else if unat (cursor_row c2) < VGA_HEIGHT - 1 then c2\<lparr>cursor_row := cursor_row c2 + 1\<rparr> else c2);
          c4 = backup_current_screen c3
      in update_cursor (cursor_row c4) (cursor_col c4) c4)"

text \<open>The calls logged by the other components, shown in order.\<close>

fun show_msg :: "kmsg \<Rightarrow> 'a console_scheme \<Rightarrow> 'a console_scheme option" where
  "show_msg (Printk fmt as) c = map_option snd (con_printk fmt as c)"
| "show_msg (PrintkColor fg bg fmt as) c = map_option snd (con_printk_color fg bg fmt as c)"
| "show_msg (PrintStr str) c = Some (print_str str c)"

fun display :: "kmsg list \<Rightarrow> 'a console_scheme \<Rightarrow> 'a console_scheme option" where
  "display [] c = Some c"
| "display (m # ms) c = (case show_msg m c of None \<Rightarrow> None | Some c' \<Rightarrow> display ms c')"

section \<open>Loops over the screen\<close>

lemma fold_grid:
  "lo \<le> hi \<Longrightarrow> fold (\<lambda>row. fold (\<lambda>col. f (row * w + col)) [0..<w]) [lo..<hi] = fold f [lo * w..<hi * w]"
proof (induction hi)
  case (Suc hi)
  show ?case
  proof (cases "lo = Suc hi")
    case False
    then have le: "lo \<le> hi" using Suc.prems by simp
    have "fold (\<lambda>col. f (hi * w + col)) [0..<w] = fold f [hi * w..<hi * w + w]"
      using fold_map [of f "\<lambda>col. hi * w + col" "[0..<w]"]
      by (simp add: comp_def map_add_upt add.commute)
    moreover have "[lo * w..<Suc hi * w] = [lo * w..<hi * w] @ [hi * w..<hi * w + w]"
      using upt_add_eq_append [of "lo * w" "hi * w" w] le by (simp add: add.commute)
    ultimately show ?thesis using Suc.IH le by simp
  qed simp
qed simp

lemma fold_fill2:
  "fold (\<lambda>i (v, b). (v(i := g i), b(t + i := g i))) [0..<n] (v, b) =
     ((\<lambda>i. if i < n then g i else v i), (\<lambda>j. if t \<le> j \<and> j < t + n then g (j - t) else b j))"
  by (induction n) (auto simp: fun_eq_iff less_Suc_eq)

text \<open>A cell of the active terminal and of the backup, by its index on the screen.\<close>

definition active :: "'a console_scheme \<Rightarrow> nat \<Rightarrow> u16" where
  "active c i = tty_buf c (TBUF c + i)"

definition backed_up :: "'a console_scheme \<Rightarrow> nat \<Rightarrow> u16" where
  "backed_up c i = screen_backup c (i div 80) (i mod 80)"

lemma grid_index: "i < 2000 \<Longrightarrow> i div 80 < 25 \<and> i mod 80 < (80 :: nat) \<and> i div 80 * 80 + i mod 80 = i"
  by auto

named_theorems con_frame \<open>what the console operations keep\<close>

lemma update_cursor_frame [simp, con_frame]:
  "vga (update_cursor r k c) = vga c" "tty_buf (update_cursor r k c) = tty_buf c"
  "cursor_row (update_cursor r k c) = cursor_row c" "cursor_col (update_cursor r k c) = cursor_col c"
  "tty_cur (update_cursor r k c) = tty_cur c" "tty_row (update_cursor r k c) = tty_row c"
  "tty_col (update_cursor r k c) = tty_col c" "tty_color (update_cursor r k c) = tty_color c"
  "vga_color (update_cursor r k c) = vga_color c" "screen_backup (update_cursor r k c) = screen_backup c"
  "simple_history (update_cursor r k c) = simple_history c"
  "history_write_pos (update_cursor r k c) = history_write_pos c"
  "history_count (update_cursor r k c) = history_count c"
  "is_viewing_history (update_cursor r k c) = is_viewing_history c"
  "history_view_offset (update_cursor r k c) = history_view_offset c"
  "console.more (update_cursor r k c) = console.more c"
  by (simp_all add: update_cursor_def outb_def Let_def)

lemma backup_frame [simp, con_frame]:
  "vga (backup_current_screen c) = vga c" "tty_buf (backup_current_screen c) = tty_buf c"
  "cursor_row (backup_current_screen c) = cursor_row c" "cursor_col (backup_current_screen c) = cursor_col c"
  "tty_cur (backup_current_screen c) = tty_cur c" "tty_row (backup_current_screen c) = tty_row c"
  "tty_col (backup_current_screen c) = tty_col c" "tty_color (backup_current_screen c) = tty_color c"
  "vga_color (backup_current_screen c) = vga_color c" "simple_history (backup_current_screen c) = simple_history c"
  "history_write_pos (backup_current_screen c) = history_write_pos c"
  "history_count (backup_current_screen c) = history_count c"
  "is_viewing_history (backup_current_screen c) = is_viewing_history c"
  "history_view_offset (backup_current_screen c) = history_view_offset c"
  "console.more (backup_current_screen c) = console.more c"
  by (simp_all add: backup_current_screen_def)

lemma backup_cells: "i < 2000 \<Longrightarrow> backed_up (backup_current_screen c) i = vga c i"
proof -
  assume i: "i < 2000"
  have "fold (\<lambda>row b. b(row := h row (b row))) [0..<n] b = (\<lambda>row. if row < n then h row (b row) else b row)" for h n b
    by (induction n) (auto simp: fun_eq_iff less_Suc_eq)
  from this [of "\<lambda>row. fold (\<lambda>col a. a(col := vga c (row * VGA_WIDTH + col))) [0..<VGA_WIDTH]"]
  show ?thesis using grid_index [OF i]
    by (simp add: backed_up_def backup_current_screen_def fold_array_fill)
qed

lemma restore_eq:
  "restore_screen_from_backup c = c\<lparr>vga := (\<lambda>i. if i < 2000 then backed_up c i else vga c i),
     tty_buf := (\<lambda>j. if TBUF c \<le> j \<and> j < TBUF c + 2000 then backed_up c (j - TBUF c) else tty_buf c j)\<rparr>"
proof -
  have inner: "fold (\<lambda>col (v, b). (v(row * 80 + col := screen_backup c row col), b(TBUF c + (row * 80 + col) := screen_backup c row col)))
      [0..<80] = fold (\<lambda>col. (\<lambda>i (v, b). (v(i := backed_up c i), b(TBUF c + i := backed_up c i))) (row * 80 + col)) [0..<80]" for row
    by (rule ext, rule fold_cong) (auto simp: backed_up_def fun_eq_iff)
  have "fold (\<lambda>row. fold (\<lambda>col (v, b). (v(row * 80 + col := screen_backup c row col),
      b(TBUF c + (row * 80 + col) := screen_backup c row col))) [0..<80]) [0..<25] =
    fold (\<lambda>i (v, b). (v(i := backed_up c i), b(TBUF c + i := backed_up c i))) [0..<2000]"
    unfolding inner by (subst fold_grid) simp_all
  then show ?thesis
    by (simp add: restore_screen_from_backup_def Let_def fold_fill2)
qed

lemma copy_row_eq:
  assumes "s \<noteq> d"
  shows "copy_row t s d (b, v) =
    ((\<lambda>j. if t + d * 80 \<le> j \<and> j < t + d * 80 + 80 then b (j - d * 80 + s * 80) else b j),
     (\<lambda>i. if d * 80 \<le> i \<and> i < d * 80 + 80 then b (t + (i - d * 80 + s * 80)) else v i))"
proof -
  have "s * 80 + 80 \<le> d * 80 \<or> d * 80 + 80 \<le> s * 80" using assms by linarith
  then have "fold (\<lambda>col (b, v). let b' = b(t + (d * 80 + col) := b (t + (s * 80 + col)))
      in (b', v(d * 80 + col := b' (t + (d * 80 + col))))) [0..<n] (b, v) =
    ((\<lambda>j. if t + d * 80 \<le> j \<and> j < t + d * 80 + n then b (j - d * 80 + s * 80) else b j),
     (\<lambda>i. if d * 80 \<le> i \<and> i < d * 80 + n then b (t + (i - d * 80 + s * 80)) else v i))" if "n \<le> 80" for n
    using that
  proof (induction n)
    case (Suc n)
    then show ?case by (auto simp: fun_eq_iff Let_def less_Suc_eq algebra_simps)
  qed (auto simp: fun_eq_iff)
  from this [of 80] show ?thesis by (simp add: copy_row_def vga_index_def)
qed

lemma blank_row_eq:
  "blank_row t row e (b, v) =
    ((\<lambda>j. if t + row * 80 \<le> j \<and> j < t + row * 80 + 80 then e else b j),
     (\<lambda>i. if row * 80 \<le> i \<and> i < row * 80 + 80 then e else v i))"
proof -
  have "fold (\<lambda>col (b, v). (b(t + (row * 80 + col) := e), v(row * 80 + col := e))) [0..<n] (b, v) =
    ((\<lambda>j. if t + row * 80 \<le> j \<and> j < t + row * 80 + n then e else b j),
     (\<lambda>i. if row * 80 \<le> i \<and> i < row * 80 + n then e else v i))" for n
    by (induction n) (auto simp: fun_eq_iff less_Suc_eq)
  from this [of 80] show ?thesis by (simp add: blank_row_def vga_index_def)
qed

lemma rows_up_eq:
  "rows_up t e (b, v) =
    ((\<lambda>j. if t \<le> j \<and> j < t + 1920 then b (j + 80) else if t + 1920 \<le> j \<and> j < t + 2000 then e else b j),
     (\<lambda>i. if i < 1920 then b (t + (i + 80)) else if i < 2000 then e else v i))"
proof -
  have "fold (\<lambda>row. copy_row t row (row - 1)) [1..<Suc n] (b, v) =
    ((\<lambda>j. if t \<le> j \<and> j < t + n * 80 then b (j + 80) else b j),
     (\<lambda>i. if i < n * 80 then b (t + (i + 80)) else v i))" for n
  proof (induction n)
    case (Suc n)
    then show ?case by (auto simp: copy_row_eq fun_eq_iff algebra_simps)
  qed (auto simp: fun_eq_iff)
  from this [of 24] show ?thesis
    by (simp add: rows_up_def blank_row_eq fun_eq_iff)
qed

lemma rows_down_eq:
  "rows_down t e (b, v) =
    ((\<lambda>j. if t \<le> j \<and> j < t + 80 then e else if t + 80 \<le> j \<and> j < t + 2000 then b (j - 80) else b j),
     (\<lambda>i. if i < 80 then e else if i < 2000 then b (t + (i - 80)) else v i))"
proof -
  have "fold (\<lambda>row. copy_row t row (row + 1)) (rev [0..<n]) (b, v) =
    ((\<lambda>j. if t + 80 \<le> j \<and> j < t + 80 + n * 80 then b (j - 80) else b j),
     (\<lambda>i. if 80 \<le> i \<and> i < 80 + n * 80 then b (t + (i - 80)) else v i))" for n b v
  proof (induction n arbitrary: b v)
    case (Suc n)
    then show ?case by (auto simp: copy_row_eq fun_eq_iff algebra_simps)
  qed (auto simp: fun_eq_iff)
  from this [of 24] show ?thesis
    by (auto simp: rows_down_def blank_row_eq fun_eq_iff)
qed

section \<open>The console invariant\<close>

definition cursor_ok :: "'a console_scheme \<Rightarrow> bool" where
  "cursor_ok c \<longleftrightarrow> unat (cursor_row c) < 25 \<and> tty_cur c < 4 \<and> (\<forall>t < 4. unat (tty_row c t) < 25)"

definition history_ok :: "'a console_scheme \<Rightarrow> bool" where
  "history_ok c \<longleftrightarrow> 0 \<le> history_write_pos c \<and> history_write_pos c < 1000 \<and> 0 \<le> history_count c \<and>
     history_count c \<le> 1000 \<and> 0 \<le> history_view_offset c"

text \<open>The backup is the active terminal, and so is the screen unless the history is shown.\<close>

definition mirror :: "'a console_scheme \<Rightarrow> bool" where
  "mirror c \<longleftrightarrow> (\<forall>i < 2000. backed_up c i = active c i) \<and>
     (\<not> is_viewing_history c \<longrightarrow> (\<forall>i < 2000. vga c i = active c i))"

definition con_inv :: "'a console_scheme \<Rightarrow> bool" where
  "con_inv c \<longleftrightarrow> cursor_ok c \<and> history_ok c \<and> mirror c"

lemmas con_inv_defs = con_inv_def cursor_ok_def history_ok_def mirror_def

lemma view_defs [simp]:
  "TBUF (c\<lparr>vga := x1\<rparr>) = TBUF c" "TBUF (c\<lparr>tty_buf := x2\<rparr>) = TBUF c" "TBUF (c\<lparr>cursor_row := x3\<rparr>) = TBUF c"
  "TBUF (c\<lparr>cursor_col := x3\<rparr>) = TBUF c" "TBUF (c\<lparr>vga_color := x3\<rparr>) = TBUF c" "TBUF (c\<lparr>tty_color := x4\<rparr>) = TBUF c"
  "TBUF (c\<lparr>is_viewing_history := x5\<rparr>) = TBUF c" "TBUF (c\<lparr>history_view_offset := x6\<rparr>) = TBUF c"
  "TBUF (update_cursor r k c) = TBUF c" "TBUF (backup_current_screen c) = TBUF c"
  by (simp_all add: TBUF_def)

lemma save_line_frame [simp, con_frame]:
  "vga (save_line_to_history n c) = vga c" "tty_buf (save_line_to_history n c) = tty_buf c"
  "cursor_row (save_line_to_history n c) = cursor_row c" "cursor_col (save_line_to_history n c) = cursor_col c"
  "tty_cur (save_line_to_history n c) = tty_cur c" "tty_row (save_line_to_history n c) = tty_row c"
  "tty_col (save_line_to_history n c) = tty_col c" "tty_color (save_line_to_history n c) = tty_color c"
  "vga_color (save_line_to_history n c) = vga_color c" "screen_backup (save_line_to_history n c) = screen_backup c"
  "is_viewing_history (save_line_to_history n c) = is_viewing_history c"
  "history_view_offset (save_line_to_history n c) = history_view_offset c"
  "TBUF (save_line_to_history n c) = TBUF c" "console.more (save_line_to_history n c) = console.more c"
  by (simp_all add: save_line_to_history_def Let_def TBUF_def)

lemma save_line_history_ok: "history_ok c \<Longrightarrow> history_ok (save_line_to_history n c)"
  by (auto simp: history_ok_def save_line_to_history_def Let_def)

lemma mirror_backup: "(\<And>i. i < 2000 \<Longrightarrow> vga c i = active c i) \<Longrightarrow> mirror (backup_current_screen c)"
  by (simp add: mirror_def backup_cells active_def)

lemma con_inv_update_cursor [simp]: "con_inv (update_cursor r k c) \<longleftrightarrow> con_inv c"
  by (simp add: con_inv_defs active_def backed_up_def)

lemma leave_history_inv: "con_inv c \<Longrightarrow> con_inv (leave_history c) \<and> \<not> is_viewing_history (leave_history c)"
  by (auto simp: leave_history_def restore_eq con_inv_defs active_def backed_up_def TBUF_def Let_def)

lemma show_history_frame [simp, con_frame]:
  "tty_buf (show_history_lines c) = tty_buf c" "cursor_row (show_history_lines c) = cursor_row c"
  "cursor_col (show_history_lines c) = cursor_col c" "tty_cur (show_history_lines c) = tty_cur c"
  "tty_row (show_history_lines c) = tty_row c" "screen_backup (show_history_lines c) = screen_backup c"
  "simple_history (show_history_lines c) = simple_history c"
  "history_write_pos (show_history_lines c) = history_write_pos c" "history_count (show_history_lines c) = history_count c"
  "is_viewing_history (show_history_lines c) = is_viewing_history c"
  "history_view_offset (show_history_lines c) = history_view_offset c"
  by (simp_all add: show_history_lines_def Let_def)

lemma show_history_inv: "con_inv c \<Longrightarrow> is_viewing_history c \<Longrightarrow> con_inv (show_history_lines c)"
  by (simp add: con_inv_defs active_def backed_up_def TBUF_def)

lemma view_history_up_inv:
  assumes "con_inv c"
  shows "con_inv (view_history_up c)"
proof (cases "is_viewing_history c")
  case True
  then show ?thesis
    using assms by (auto simp: view_history_up_def Let_def con_inv_defs active_def backed_up_def TBUF_def intro!: show_history_inv)
next
  case False
  have "mirror (backup_current_screen c)"
    using assms False by (intro mirror_backup) (simp add: con_inv_defs)
  then show ?thesis using assms False
    by (auto simp: view_history_up_def Let_def con_inv_defs active_def backed_up_def TBUF_def intro!: show_history_inv)
qed

lemma view_history_down_inv: "con_inv c \<Longrightarrow> con_inv (view_history_down c)"
  by (auto simp: view_history_down_def Let_def restore_eq con_inv_defs active_def backed_up_def TBUF_def
    intro!: show_history_inv)

text \<open>A scroll of the rows leaves the screen and the active terminal equal.\<close>

lemma rows_mirror:
  assumes "rows_up t e (b, v) = (b', v') \<or> rows_down t e (b, v) = (b', v')" "i < 2000"
  shows "v' i = b' (t + i)"
  using assms by (auto simp: rows_up_eq rows_down_eq algebra_simps)

lemma fold_save_lines [simp]:
  "vga (fold save_line_to_history ns c) = vga c" "tty_buf (fold save_line_to_history ns c) = tty_buf c"
  "tty_cur (fold save_line_to_history ns c) = tty_cur c" "tty_row (fold save_line_to_history ns c) = tty_row c"
  "TBUF (fold save_line_to_history ns c) = TBUF c" "history_view_offset (fold save_line_to_history ns c) = history_view_offset c"
  "cursor_row (fold save_line_to_history ns c) = cursor_row c" "cursor_col (fold save_line_to_history ns c) = cursor_col c"
  "vga_color (fold save_line_to_history ns c) = vga_color c" "console.more (fold save_line_to_history ns c) = console.more c"
  by (rule fold_frame; simp)+

lemma clear_screen_cells:
  "i < 2000 \<Longrightarrow> vga (clear_screen c) i = vga_cell (vga_color c) (CHR '' '')"
  "i < 2000 \<Longrightarrow> tty_buf (clear_screen c) (TBUF c + i) = vga_cell (vga_color c) (CHR '' '')"
  by (simp_all add: clear_screen_def Let_def fold_fill2)

lemma clear_screen_inv:
  assumes "history_ok c" "tty_cur c < 4" "\<forall>t < 4. unat (tty_row c t) < 25"
  shows "con_inv (clear_screen c)"
proof -
  have h: "history_ok (fold save_line_to_history [0..<25] c)"
    by (rule fold_invariant) (use assms(1) save_line_history_ok in blast)+
  have "mirror (clear_screen c)"
    using clear_screen_cells [of _ c]
    by (auto simp: mirror_def active_def backed_up_def clear_screen_def Let_def fold_fill2 backup_cells [unfolded backed_up_def])
  then show ?thesis using assms h
    by (simp add: con_inv_def cursor_ok_def history_ok_def clear_screen_def Let_def split: prod.splits)
qed

lemma glyph_index: "unat (r :: u8) < 25 \<Longrightarrow> unat (k :: u8) < 80 \<Longrightarrow> vga_index (unat r) (unat k) < 2000"
  by (simp add: vga_index_def)

lemma row_Suc: "unat (r :: u8) < 25 \<Longrightarrow> unat (r + 1) = unat r + 1"
  by (simp add: unat_word_ariths)

text \<open>What holds in the middle of a call: the screen shows the active terminal.\<close>

definition shown :: "'a console_scheme \<Rightarrow> bool" where
  "shown c \<longleftrightarrow> history_ok c \<and> tty_cur c < 4 \<and> (\<forall>t < 4. unat (tty_row c t) < 25) \<and>
     (\<forall>i < 2000. vga c i = active c i)"

lemma shown_leave: "con_inv c \<Longrightarrow> shown (leave_history c)"
  using leave_history_inv [of c] by (simp add: shown_def con_inv_defs)

lemma shown_put_glyph: "shown c \<Longrightarrow> shown (put_glyph ch c)"
  by (auto simp: put_glyph_def Let_def shown_def history_ok_def active_def TBUF_def)

lemma shown_updates [simp]:
  "shown c \<Longrightarrow> shown (c\<lparr>cursor_row := r\<rparr>)" "shown c \<Longrightarrow> shown (c\<lparr>cursor_col := k\<rparr>)"
  "shown c \<Longrightarrow> shown (c\<lparr>vga_color := x\<rparr>)" "shown c \<Longrightarrow> shown (c\<lparr>tty_color := y\<rparr>)"
  "shown c \<Longrightarrow> shown (set_vga_color fg bg c)" "shown c \<Longrightarrow> shown (save_line_to_history n c)"
  using save_line_history_ok [of c n]
  by (auto simp: shown_def history_ok_def active_def TBUF_def set_vga_color_def Let_def)

lemma shown_backup: "shown c \<Longrightarrow> unat (cursor_row c) < 25 \<Longrightarrow> con_inv (backup_current_screen c)"
  using mirror_backup [of c] by (simp add: con_inv_def shown_def cursor_ok_def history_ok_def)

lemma con_inv_shown: "con_inv c \<Longrightarrow> \<not> is_viewing_history c \<Longrightarrow> shown c"
  by (simp add: con_inv_defs shown_def)

lemma scroll_shown:
  assumes "shown c"
  shows "shown (scroll_screen c)" "unat (cursor_row (scroll_screen c)) = 24"
proof -
  obtain b v where bv: "rows_up (TBUF c) (vga_cell (vga_color c) (CHR '' '')) (tty_buf c, vga c) = (b, v)" by fastforce
  show "shown (scroll_screen c)" "unat (cursor_row (scroll_screen c)) = 24"
    using assms bv save_line_history_ok [of c 0] rows_mirror [OF disjI1 [OF bv]]
    by (simp_all add: scroll_screen_def Let_def shown_def history_ok_def active_def)
qed

lemma print_char_color_inv:
  assumes "con_inv c"
  shows "con_inv (print_char_color ch fg bg c)"
proof -
  define c1 where "c1 = set_vga_color fg bg (leave_history c)"
  define c2 where "c2 = (if ch = CHR 0x0A then c1\<lparr>cursor_row := cursor_row c1 + 1, cursor_col := 0\<rparr>
    else if ch = CHR 0x0D then c1\<lparr>cursor_col := 0\<rparr>
    else if ch = CHR 0x09 then c1\<lparr>cursor_col := (cursor_col c1 + 4) AND NOT 3\<rparr> else put_glyph ch c1)"
  define c3 where "c3 = (if unat (cursor_row c2) \<ge> 25 then scroll_screen c2 else c2)"
  have "shown c1" using shown_leave [OF assms] by (simp add: c1_def)
  then have "shown c2" by (simp add: c2_def shown_put_glyph)
  then have "shown c3" "unat (cursor_row c3) < 25" using scroll_shown [of c2] by (simp_all add: c3_def)
  then have "con_inv (backup_current_screen (c3\<lparr>vga_color := x, tty_color := y\<rparr>))" for x y
    by (intro shown_backup) simp_all
  then show ?thesis
    unfolding print_char_color_def Let_def c1_def [symmetric] c2_def [symmetric] con_consts c3_def [symmetric]
    by simp
qed

lemma print_str_color_inv: "con_inv c \<Longrightarrow> con_inv (print_str_color str fg bg c)"
  unfolding print_str_color_def by (rule fold_invariant [of _ con_inv]) (simp_all add: print_char_color_inv)

lemma print_uint64_color_inv: "con_inv c \<Longrightarrow> con_inv (print_uint64_color n fg bg c)"
  unfolding print_uint64_color_def
  by (auto intro!: fold_invariant [of _ con_inv] print_char_color_inv)

lemma vt_render_shown:
  assumes "history_ok c" "tty_cur c < 4" "\<forall>t < 4. unat (tty_row c t) < 25"
  shows "shown (vt_render_active c)"
  using assms by (simp add: vt_render_active_def Let_def shown_def history_ok_def active_def fold_array_fill)

lemma vt_switch_inv:
  assumes "con_inv c"
  shows "con_inv (vt_switch n c)"
proof -
  let ?c2 = "c\<lparr>tty_row := (tty_row c)(tty_cur c := cursor_row c), tty_col := (tty_col c)(tty_cur c := cursor_col c),
      tty_color := (tty_color c)(tty_cur c := vga_color c), tty_cur := nat n,
      cursor_row := ((tty_row c)(tty_cur c := cursor_row c)) (nat n),
      cursor_col := ((tty_col c)(tty_cur c := cursor_col c)) (nat n),
      vga_color := ((tty_color c)(tty_cur c := vga_color c)) (nat n)\<rparr>"
  have "shown (vt_render_active ?c2)" "unat (cursor_row (vt_render_active ?c2)) < 25" if "0 \<le> n" "n < 4"
  proof -
    show "shown (vt_render_active ?c2)"
      by (rule vt_render_shown) (use assms that in \<open>auto simp: con_inv_defs\<close>)
    show "unat (cursor_row (vt_render_active ?c2)) < 25"
      using assms that by (auto simp: con_inv_defs vt_render_active_def Let_def)
  qed
  then show ?thesis using assms shown_backup [of "vt_render_active ?c2"] by (auto simp: vt_switch_def Let_def)
qed

lemma con_inv_cursor [simp]:
  "con_inv c \<Longrightarrow> unat r < 25 \<Longrightarrow> con_inv (c\<lparr>cursor_row := r\<rparr>)" "con_inv c \<Longrightarrow> con_inv (c\<lparr>cursor_col := k\<rparr>)"
  by (simp_all add: con_inv_defs active_def backed_up_def TBUF_def)

lemma row_pred: "0 < (r :: u8) \<Longrightarrow> unat (r - 1) = unat r - 1"
  using unat_minus_one [of r] by auto

lemma move_cursor_inv:
  assumes "con_inv c"
  shows "con_inv (move_cursor_up c)" "con_inv (move_cursor_down c)" "con_inv (move_cursor_left c)" "con_inv (move_cursor_right c)"
proof -
  have r: "unat (cursor_row c) < 25" using assms by (simp add: con_inv_defs)
  show "con_inv (move_cursor_up c)"
    using assms r by (simp add: move_cursor_up_def Let_def row_pred view_history_up_inv)
  show "con_inv (move_cursor_down c)"
    using assms r by (simp add: move_cursor_down_def Let_def row_Suc view_history_down_inv)
  show "con_inv (move_cursor_left c)"
    using assms r by (simp add: move_cursor_left_def Let_def row_pred)
  show "con_inv (move_cursor_right c)"
    using assms r by (simp add: move_cursor_right_def Let_def row_Suc)
qed

lemma scroll_up_inv:
  assumes "con_inv c"
  shows "con_inv (scroll_up c)"
proof -
  obtain b v where bv: "rows_up (TBUF c) (vga_cell (vga_color c) (CHR '' '')) (tty_buf c, vga c) = (b, v)" by fastforce
  let ?c = "(save_line_to_history 0 c)\<lparr>tty_buf := b, vga := v\<rparr>"
  have "shown ?c" "unat (cursor_row c) < 25" using assms rows_mirror [OF disjI1 [OF bv]] save_line_history_ok [of c 0]
    by (simp_all add: shown_def con_inv_def cursor_ok_def history_ok_def active_def)
  then show ?thesis using bv
    by (auto simp: scroll_up_def Let_def row_pred word_less_nat_alt intro!: shown_backup)
qed

lemma scroll_down_inv:
  assumes "con_inv c"
  shows "con_inv (scroll_down c)"
proof -
  obtain b v where bv: "rows_down (TBUF c) (vga_cell (vga_color c) (CHR '' '')) (tty_buf c, vga c) = (b, v)" by fastforce
  let ?c = "(save_line_to_history 24 c)\<lparr>tty_buf := b, vga := v\<rparr>"
  have "shown ?c" "unat (cursor_row c) < 25" using assms rows_mirror [OF disjI2 [OF bv]] save_line_history_ok [of c 24]
    by (simp_all add: shown_def con_inv_def cursor_ok_def history_ok_def active_def)
  then show ?thesis using bv
    by (auto simp: scroll_down_def Let_def row_Suc intro!: shown_backup)
qed

lemma set_cursor_inv: "con_inv c \<Longrightarrow> con_inv (set_cursor_row r c)" "con_inv c \<Longrightarrow> con_inv (set_cursor_col k c)"
  by (simp_all add: set_cursor_row_def set_cursor_col_def)

lemma set_vga_color_inv: "con_inv c \<Longrightarrow> con_inv (set_vga_color fg bg c)"
  by (simp add: set_vga_color_def Let_def con_inv_defs active_def backed_up_def TBUF_def)

lemma clear_inv: "con_inv c \<Longrightarrow> con_inv (clear_screen c)"
  by (rule clear_screen_inv) (auto simp: con_inv_defs)

lemma con_printk_inv: "con_inv c \<Longrightarrow> con_printk fmt as c = Some (n, c') \<Longrightarrow> con_inv c'"
  by (auto simp: con_printk_def print_str_def print_str_color_inv)

lemma con_printk_color_inv: "con_inv c \<Longrightarrow> con_printk_color fg bg fmt as c = Some (n, c') \<Longrightarrow> con_inv c'"
  by (auto simp: con_printk_color_def print_str_color_inv)

section \<open>Reachable consoles\<close>

text \<open>The calls other files make.\<close>

inductive con_step :: "console \<Rightarrow> console \<Rightarrow> bool" where
  print_char: "con_step c (print_char_color ch fg bg c)"
| print_uint64: "con_step c (print_uint64_color n fg bg c)"
| printk: "con_printk fmt as c = Some (n, c') \<Longrightarrow> con_step c c'"
| printk_color: "con_printk_color fg bg fmt as c = Some (n, c') \<Longrightarrow> con_step c c'"
| clear: "con_step c (clear_screen c)"
| switch: "con_step c (vt_switch n c)"
| up: "con_step c (move_cursor_up c)"
| down: "con_step c (move_cursor_down c)"
| left: "con_step c (move_cursor_left c)"
| right: "con_step c (move_cursor_right c)"
| scroll_up: "con_step c (scroll_up c)"
| scroll_down: "con_step c (scroll_down c)"
| set_row: "con_step c (set_cursor_row r c)"
| set_col: "con_step c (set_cursor_col k c)"
| set_color: "con_step c (set_vga_color fg bg c)"
| update: "con_step c (update_cursor r k c)"

inductive con_reach :: "console \<Rightarrow> console \<Rightarrow> bool" where
  init: "con_reach c (console_init c)"
| step: "con_reach c d \<Longrightarrow> con_step d d' \<Longrightarrow> con_reach c d'"

text \<open>The static variables at boot; the VGA memory is whatever the boot loader left.\<close>

definition con_boot :: "u16 array \<Rightarrow> console" where
  "con_boot screen = \<lparr>vga = screen, ports = [], simple_history = (\<lambda>_ _. 0), history_write_pos = 0, history_count = 0,
     is_viewing_history = False, history_view_offset = 0, screen_backup = (\<lambda>_ _. 0), cursor_row = 0, cursor_col = 0,
     vga_color = 0x07, tty_buf = (\<lambda>_. 0), tty_row = (\<lambda>_. 0), tty_col = (\<lambda>_. 0), tty_color = (\<lambda>_. 0), tty_cur = 0\<rparr>"

lemma con_step_inv: "con_step c c' \<Longrightarrow> con_inv c \<Longrightarrow> con_inv c'"
  by (induction rule: con_step.induct)
    (auto intro: print_char_color_inv print_uint64_color_inv con_printk_inv con_printk_color_inv clear_inv
      vt_switch_inv move_cursor_inv scroll_up_inv scroll_down_inv set_cursor_inv set_vga_color_inv)



section \<open>Terminals\<close>

lemma leave_history_id [simp]: "\<not> is_viewing_history c \<Longrightarrow> leave_history c = c"
  by (simp add: leave_history_def)

lemma vt_switch_effect:
  assumes "0 \<le> n" "n < 4" "n \<noteq> int (tty_cur c)"
  shows "tty_buf (vt_switch n c) = tty_buf c" "tty_cur (vt_switch n c) = nat n"
    "tty_row (vt_switch n c) = (tty_row c)(tty_cur c := cursor_row c)"
    "tty_col (vt_switch n c) = (tty_col c)(tty_cur c := cursor_col c)"
    "tty_color (vt_switch n c) = (tty_color c)(tty_cur c := vga_color c)"
    "cursor_row (vt_switch n c) = tty_row c (nat n)" "cursor_col (vt_switch n c) = tty_col c (nat n)"
    "vga_color (vt_switch n c) = tty_color c (nat n)"
    "i < 2000 \<Longrightarrow> vga (vt_switch n c) i = tty_buf c (2000 * nat n + i)"
  using assms
  by (auto simp: vt_switch_def vt_render_active_def Let_def TBUF_def fold_array_fill mult.commute)

lemma vt_switch_and_back:
  assumes "con_inv c" "0 \<le> n" "n < 4" "n \<noteq> int (tty_cur c)"
  defines "d \<equiv> vt_switch (int (tty_cur c)) (vt_switch n c)"
  shows "tty_cur d = tty_cur c" "cursor_row d = cursor_row c" "cursor_col d = cursor_col c"
    "vga_color d = vga_color c" "tty_buf d = tty_buf c" "\<forall>i < 2000. vga d i = active c i"
proof -
  have k: "tty_cur c < 4" using assms(1) by (simp add: con_inv_defs)
  note e1 = vt_switch_effect [OF assms(2-4)]
  have "int (tty_cur c) \<noteq> int (tty_cur (vt_switch n c))" using e1(2) assms(2-4) by simp
  note e2 = vt_switch_effect [OF _ _ this, unfolded e1]
  show "tty_cur d = tty_cur c" "cursor_row d = cursor_row c" "cursor_col d = cursor_col c"
    "vga_color d = vga_color c" "tty_buf d = tty_buf c" "\<forall>i < 2000. vga d i = active c i"
    using e2 k assms(2-4) by (simp_all add: d_def active_def TBUF_def mult.commute)
qed

text \<open>C26: switching to another terminal and back restores the cursor, the colour and the contents of
  every terminal, and the screen shows the first terminal again.\<close>

theorem vt_switch_roundtrip:
  assumes "con_inv c" "0 \<le> n" "n < 4" "n \<noteq> int (tty_cur c)"
  defines "d \<equiv> vt_switch (int (tty_cur c)) (vt_switch n c)"
  shows "tty_cur d = tty_cur c \<and> cursor_row d = cursor_row c \<and> cursor_col d = cursor_col c \<and>
    vga_color d = vga_color c \<and> tty_buf d = tty_buf c \<and> (\<forall>i < 2000. vga d i = active c i)"
  unfolding d_def using vt_switch_and_back [OF assms(1-4)] by blast

theorem vt_switch_roundtrip_witness:
  "\<exists>c :: console. tty_cur (vt_switch 0 (vt_switch 3 c)) = 0 \<and> cursor_col (vt_switch 0 (vt_switch 3 c)) = cursor_col c"
proof -
  let ?c = "console_init (con_boot (\<lambda>_. 0))"
  have inv: "con_inv ?c" unfolding console_init_def
    by (rule clear_screen_inv) (simp_all add: con_boot_def history_ok_def)
  have "tty_cur ?c = 0" by (simp add: console_init_def clear_screen_def Let_def con_boot_def split: prod.splits)
  then show ?thesis using vt_switch_roundtrip [OF inv, of 3] by (intro exI [of _ ?c]) simp
qed

section \<open>Glyphs\<close>

lemma backup_of_glyph [simp]: "vga (backup_current_screen (c\<lparr>vga_color := x, tty_color := y\<rparr>)) = vga c"
  "tty_buf (backup_current_screen (c\<lparr>vga_color := x, tty_color := y\<rparr>)) = tty_buf c"
  by simp_all

lemma print_glyph_effect:
  fixes fg bg :: u8
  assumes "con_inv c" "\<not> is_viewing_history c" "unat (cursor_col c) < 80" "ch \<notin> {CHR 0x0A, CHR 0x0D, CHR 0x09}"
  defines "d \<equiv> print_char_color ch fg bg c"
  defines "idx \<equiv> vga_index (unat (cursor_row c)) (unat (cursor_col c))"
  shows "idx < 2000" "vga d = (vga c)(idx := vga_cell (vga_make_color fg bg) ch)"
    "tty_buf d = (tty_buf c)(TBUF c + idx := vga_cell (vga_make_color fg bg) ch)"
    "cursor_row d = cursor_row c" "unat (cursor_col d) = unat (cursor_col c) + 1" "vga_color d = vga_color c"
    "simple_history d = simple_history c"
proof -
  have r: "unat (cursor_row c) < 25" using assms(1) by (simp add: con_inv_defs)
  show "idx < 2000" unfolding idx_def by (rule glyph_index [OF r assms(3)])
  have k: "unat (cursor_col c + 1) = unat (cursor_col c) + 1" using assms(3) by (simp add: unat_word_ariths)
  show "vga d = (vga c)(idx := vga_cell (vga_make_color fg bg) ch)"
    "tty_buf d = (tty_buf c)(TBUF c + idx := vga_cell (vga_make_color fg bg) ch)"
    "cursor_row d = cursor_row c" "unat (cursor_col d) = unat (cursor_col c) + 1" "vga_color d = vga_color c"
    "simple_history d = simple_history c"
    using assms(2-4) r k
    by (simp_all add: d_def idx_def print_char_color_def put_glyph_def set_vga_color_def Let_def)
qed

text \<open>A printable character inside the screen goes to the cursor cell of the screen and of the
  active terminal with the requested colours; every other cell, every other terminal and the
  current colour stay, and the cursor advances by one column.\<close>

theorem print_char_writes_one_cell:
  fixes fg bg :: u8
  assumes "con_inv c" "\<not> is_viewing_history c" "unat (cursor_col c) < 80" "ch \<notin> {CHR 0x0A, CHR 0x0D, CHR 0x09}"
  defines "d \<equiv> print_char_color ch fg bg c"
  defines "idx \<equiv> vga_index (unat (cursor_row c)) (unat (cursor_col c))"
  shows "idx < 2000 \<and> vga d = (vga c)(idx := vga_cell (vga_make_color fg bg) ch) \<and>
    tty_buf d = (tty_buf c)(TBUF c + idx := vga_cell (vga_make_color fg bg) ch) \<and>
    cursor_row d = cursor_row c \<and> unat (cursor_col d) = unat (cursor_col c) + 1 \<and> vga_color d = vga_color c \<and>
    simple_history d = simple_history c"
  unfolding d_def idx_def using print_glyph_effect [OF assms(1-4)] by blast

theorem print_char_writes_one_cell_witness:
  "\<exists>c :: console. con_inv c \<and> vga (print_char_color (CHR ''A'') 7 0 c) = (vga c)(0 := 0x0741)"
proof -
  let ?c = "console_init (con_boot (\<lambda>_. 0))"
  have inv: "con_inv ?c" unfolding console_init_def
    by (rule clear_screen_inv) (simp_all add: con_boot_def history_ok_def)
  have c: "cursor_row ?c = 0" "cursor_col ?c = 0" "\<not> is_viewing_history ?c"
    by (simp_all add: console_init_def clear_screen_def Let_def split: prod.splits)
  have "vga (print_char_color (CHR ''A'') 7 0 ?c) = (vga ?c)(0 := vga_cell (vga_make_color 7 0) (CHR ''A''))"
    using print_char_writes_one_cell [OF inv c(3), where ch = "CHR ''A''" and fg = 7 and bg = 0] c by (simp add: vga_index_def)
  then show ?thesis using inv by (intro exI [of _ ?c]) (simp add: vga_cell_def vga_make_color_def)
qed

text \<open>A character printed on the last row with the cursor past the last column is stored one cell
  beyond the 2000 cells of the active terminal, in the first cell of the next one, before the
  screen scrolls.\<close>

theorem glyph_after_last_row_leaves_terminal:
  assumes "unat (cursor_row c) = 24" "80 \<le> unat (cursor_col c)"
  shows "tty_buf (put_glyph ch c) = (tty_buf c)(2000 * Suc (tty_cur c) := vga_cell (vga_color c) ch)"
  using assms row_Suc [of "cursor_row c"]
  by (simp add: put_glyph_def Let_def vga_index_def TBUF_def algebra_simps)

theorem glyph_after_last_row_leaves_terminal_witness:
  "tty_buf (put_glyph (CHR ''!'') ((con_boot (\<lambda>_. 0))\<lparr>cursor_row := 24, cursor_col := 80\<rparr>)) 2000 = 0x0721"
  using glyph_after_last_row_leaves_terminal [of "(con_boot (\<lambda>_. 0))\<lparr>cursor_row := 24, cursor_col := 80\<rparr>" "CHR ''!''"]
  by (simp add: con_boot_def vga_cell_def)

section \<open>The scroll-back history\<close>

text \<open>The saved lines, oldest first: what the ring buffer stands for.\<close>

definition history_slot :: "'a console_scheme \<Rightarrow> nat \<Rightarrow> nat" where
  "history_slot c k = nat ((history_write_pos c - history_count c + int k) mod 1000)"

definition history_lines :: "'a console_scheme \<Rightarrow> u16 list list" where
  "history_lines c = map (\<lambda>k. map (simple_history c (history_slot c k)) [0..<80]) [0..<nat (history_count c)]"

definition screen_line :: "'a console_scheme \<Rightarrow> nat \<Rightarrow> u16 list" where
  "screen_line c n = map (\<lambda>col. vga c (n * 80 + col)) [0..<80]"

lemma slot_differs:
  fixes wp d :: int
  assumes "0 \<le> wp" "wp < 1000" "0 < d" "d < 1000"
  shows "(wp - d) mod 1000 \<noteq> wp"
proof (cases "d \<le> wp")
  case True
  then show ?thesis using assms by simp
next
  case False
  have "(wp - d) mod 1000 = (wp - d + 1000) mod 1000" by simp
  also have "\<dots> = wp - d + 1000" using assms False by (intro mod_pos_pos_trivial) auto
  finally show ?thesis using assms(4) by simp
qed

lemma save_line_slots:
  assumes "history_ok c"
  shows "simple_history (save_line_to_history n c) = (simple_history c)(nat (history_write_pos c) :=
     (\<lambda>col. if col < 80 then vga c (n * 80 + col) else simple_history c (nat (history_write_pos c)) col))"
    "history_count (save_line_to_history n c) = min 1000 (history_count c + 1)"
  using assms by (auto simp: save_line_to_history_def Let_def fold_array_fill history_ok_def)

lemma saved_slot:
  assumes "history_ok c"
  shows "history_count c < 1000 \<Longrightarrow> history_slot (save_line_to_history n c) k = history_slot c k"
    "\<not> history_count c < 1000 \<Longrightarrow> history_slot (save_line_to_history n c) k = history_slot c (Suc k)"
proof -
  have m: "((wp + 1) mod 1000 - (x + 1) + y) mod 1000 = (wp - x + y) mod (1000 :: int)"
    "((wp + 1) mod 1000 - x + y) mod 1000 = (wp - x + (1 + y)) mod (1000 :: int)" for wp x y
    using mod_add_left_eq [of "wp + 1" 1000 "y - x - 1"] mod_add_left_eq [of "wp + 1" 1000 "y - x"]
    by (simp_all add: algebra_simps)
  show "history_count c < 1000 \<Longrightarrow> history_slot (save_line_to_history n c) k = history_slot c k"
    "\<not> history_count c < 1000 \<Longrightarrow> history_slot (save_line_to_history n c) k = history_slot c (Suc k)"
    by (simp_all add: history_slot_def save_line_to_history_def Let_def m) (simp add: algebra_simps)?
qed

lemma slot_newest:
  assumes "history_ok c"
  shows "history_slot c (nat (history_count c)) = nat (history_write_pos c)"
    "k < nat (history_count c) \<Longrightarrow> k > 0 \<or> history_count c < 1000 \<Longrightarrow> history_slot c k \<noteq> nat (history_write_pos c)"
proof -
  show "history_slot c (nat (history_count c)) = nat (history_write_pos c)"
    using assms by (simp add: history_slot_def history_ok_def)
  assume k: "k < nat (history_count c)" "k > 0 \<or> history_count c < 1000"
  have "(history_write_pos c - (history_count c - int k)) mod 1000 \<noteq> history_write_pos c"
    by (rule slot_differs) (use assms k in \<open>auto simp: history_ok_def\<close>)
  then show "history_slot c k \<noteq> nat (history_write_pos c)"
    using assms by (simp add: history_slot_def history_ok_def eq_nat_nat_iff algebra_simps)
qed

lemma saved_line_rows:
  assumes "history_ok c"
  shows "s \<noteq> nat (history_write_pos c) \<Longrightarrow> map (simple_history (save_line_to_history n c) s) [0..<80] = map (simple_history c s) [0..<80]"
    "map (simple_history (save_line_to_history n c) (nat (history_write_pos c))) [0..<80] = screen_line c n"
  by (simp_all add: save_line_slots(1) [OF assms] screen_line_def)

text \<open>C27: the ring buffer implements a bounded list of lines: saving a line appends it to the saved
  lines and drops the oldest when there are a thousand.\<close>

theorem save_line_appends_to_history:
  assumes "history_ok c"
  shows "history_lines (save_line_to_history n c) =
    (let L = history_lines c @ [screen_line c n] in drop (length L - 1000) L)"
proof (cases "history_count c < 1000")
  case True
  have "nat (history_count (save_line_to_history n c)) = Suc (nat (history_count c))"
    using save_line_slots(2) [OF assms, of n] assms True by (simp add: history_ok_def nat_add_distrib)
  then have "history_lines (save_line_to_history n c) = history_lines c @ [screen_line c n]"
    using saved_line_rows [OF assms, where n = n] saved_slot(1) [OF assms True, of n] slot_newest [OF assms] True
    by (simp add: history_lines_def)
  then show ?thesis using assms True by (simp add: Let_def history_lines_def history_ok_def)
next
  case False
  define m where "m = nat (history_count c) - 1"
  have m: "nat (history_count c) = Suc m" "nat (history_count (save_line_to_history n c)) = Suc m" "Suc m = 1000"
    using save_line_slots(2) [OF assms, of n] assms False by (auto simp: history_ok_def m_def)
  have up: "[0..<Suc k] = 0 # map Suc [0..<k]" for k by (simp add: map_Suc_upt upt_conv_Cons del: upt_Suc)
  have "history_lines c = map (simple_history c (history_slot c 0)) [0..<80] #
      map (\<lambda>k. map (simple_history c (history_slot c (Suc k))) [0..<80]) [0..<m]"
    unfolding history_lines_def m(1) up by (simp add: comp_def)
  moreover have "history_lines (save_line_to_history n c) =
      map (\<lambda>k. map (simple_history c (history_slot c (Suc k))) [0..<80]) [0..<m] @ [screen_line c n]"
    using saved_line_rows [OF assms, where n = n] saved_slot(2) [OF assms False, of n] slot_newest [OF assms, unfolded m(1)]
    unfolding history_lines_def m(2) by simp
  ultimately show ?thesis using m(3) by (simp add: Let_def)
qed

theorem save_line_appends_to_history_witness:
  "history_lines (save_line_to_history 0 (con_boot (\<lambda>i. of_nat i))) = [map of_nat [0..<80]]"
  using save_line_appends_to_history [of "con_boot (\<lambda>i. of_nat i)" 0]
  by (simp add: con_boot_def history_ok_def history_lines_def screen_line_def)

lemma c_rem_mod:
  assumes "0 < b"
  shows "(let r = c_rem a b in if r < 0 then r + b else r) = a mod b"
proof -
  have "\<not> a mod b < 0" using assms by (simp add: not_less)
  then show ?thesis using assms by (auto simp: c_rem_def Let_def zmod_zminus1_eq_if split: if_splits)
qed

lemma history_start_mod: "history_start c n = (history_write_pos c - n - history_view_offset c) mod 1000"
  using c_rem_mod [of 1000 "history_write_pos c - n - history_view_offset c"]
  by (auto simp: history_start_def Let_def split: if_splits)

lemma lines_shown_range: "history_ok c \<Longrightarrow> 0 \<le> lines_shown c \<and> lines_shown c \<le> 24 \<and> lines_shown c \<le> history_count c"
  by (auto simp: lines_shown_def Let_def history_ok_def)

lemma shown_slot:
  assumes "history_ok c"
  shows "nat (c_rem (history_start c n + int row) 1000) =
    nat ((history_write_pos c - n - history_view_offset c + int row) mod 1000)"
proof -
  have "\<not> history_start c n + int row < 0" by (simp add: history_start_mod not_less add_nonneg_nonneg)
  then show ?thesis by (simp add: c_rem_def history_start_mod mod_add_left_eq)
qed

lemma fold_grid_fill:
  "fold (\<lambda>row. fold (\<lambda>col v. v(row * 80 + col := g row col)) [0..<80]) [0..<n] v =
    (\<lambda>i. if i < n * 80 then g (i div 80) (i mod 80) else v i)"
proof -
  have inner: "fold (\<lambda>col v. v(row * 80 + col := g row col)) [0..<80] =
      fold (\<lambda>col. (\<lambda>i v. v(i := g (i div 80) (i mod 80))) (row * 80 + col)) [0..<80]" for row
    by (rule ext, rule fold_cong) (auto simp: fun_eq_iff)
  show ?thesis unfolding inner by (subst fold_grid) (simp_all add: fold_array_fill)
qed

text \<open>The prompt is written below the lines shown.\<close>

lemma prompt_frame:
  fixes v :: "u16 array"
  assumes "j < row * 80"
  shows "fold (\<lambda>i v. if P i then v(row * 80 + col + i := f i) else v) xs v j = v j"
  by (rule fold_frame [of xs "\<lambda>v. v j"]) (use assms in auto)

text \<open>C28: the history view shows consecutive saved lines: row \<open>r\<close> of the screen is the saved line
  with number \<open>count - shown - offset + r\<close>, with a blank for every unprintable cell.\<close>

theorem history_view_shows_saved_lines:
  assumes "history_ok c" "history_view_offset c \<le> history_count c - lines_shown c"
    "int row < lines_shown c" "col < 80"
  shows "vga (show_history_lines c) (row * 80 + col) =
    (let e = history_lines c ! nat (history_count c - lines_shown c - history_view_offset c + int row) ! col
     in if printable e then e else vga_cell (vga_make_color VGA_LIGHT_GREY VGA_BLACK) (CHR '' ''))"
proof -
  note n = lines_shown_range [OF assms(1)]
  let ?k = "nat (history_count c - lines_shown c - history_view_offset c + int row)"
  have row: "row < nat (lines_shown c)" using assms(3) by linarith
  have idx: "row * 80 + col < nat (lines_shown c) * 80" "(row * 80 + col) div 80 = row" "(row * 80 + col) mod 80 = col"
    using row assms(4) by auto
  have k: "?k < nat (history_count c)" using assms n by (auto simp: history_ok_def)
  have "history_slot c ?k = nat (c_rem (history_start c (lines_shown c) + int row) 1000)"
    unfolding shown_slot [OF assms(1)] history_slot_def using assms n by (simp add: history_ok_def algebra_simps)
  then have line: "history_lines c ! ?k ! col = simple_history c (nat (c_rem (history_start c (lines_shown c) + int row) 1000)) col"
    using k assms(4) by (simp add: history_lines_def)
  have pr: "\<not> 25 \<le> lines_shown c" using n by simp
  show ?thesis unfolding line show_history_lines_def Let_def con_consts
    using idx by (simp add: pr prompt_frame fold_grid_fill)
qed

theorem history_view_shows_saved_lines_witness:
  "vga (show_history_lines (save_line_to_history 0 (con_boot (\<lambda>i. 0x0761)))) (0 * 80 + 5) = 0x0761"
proof -
  let ?c = "save_line_to_history 0 (con_boot (\<lambda>i. 0x0761))"
  have ok: "history_ok (con_boot (\<lambda>i. 0x0761))" by (simp add: con_boot_def history_ok_def)
  have c: "history_count ?c = 1" "history_view_offset ?c = 0" "lines_shown ?c = 1"
    by (simp_all add: save_line_to_history_def con_boot_def Let_def lines_shown_def)
  have "history_slot ?c 0 = 0" by (simp add: history_slot_def save_line_to_history_def con_boot_def Let_def)
  then have "history_lines ?c ! 0 ! 5 = 0x0761"
    using save_line_slots(1) [OF ok, of 0] c(1) by (simp add: history_lines_def con_boot_def)
  then show ?thesis
    using history_view_shows_saved_lines [OF save_line_history_ok [OF ok, of 0], of 0 5] c
    by (simp add: Let_def printable_def)
qed

section \<open>Decimal output\<close>

lemma u64_digits_tmp: "u64_digits n = tmp_digits digits_upper 10 n"
proof (induction n rule: u64_digits.induct)
  case (1 n)
  have "map (\<lambda>d. char_of (48 + d :: nat)) [0..<10] = take 10 digits_upper"
    by (simp add: digits_upper_def upt_rec char_of_def bit_iff_odd)
  then have "d < 10 \<Longrightarrow> char_of (48 + d :: nat) = digits_upper ! d" for d
    using nth_map [of d "[0..<10]" "\<lambda>d. char_of (48 + d :: nat)"] by simp
  then show ?case using 1 by (simp add: u64_digits.simps [of n] tmp_digits.simps [of _ _ n])
qed

text \<open>\<open>print_uint64\<close> prints exactly what \<open>printk("%lu", num)\<close> prints, at most twenty digits,
  which is the size of its buffer.\<close>

theorem print_uint64_is_percent_lu:
  "con_printk ''%lu'' [VNum num] c = Some (length (digit_string 0 10 num), print_uint64 num c) \<and>
   length (digit_string 0 10 num) \<le> 20"
proof -
  have n: "number num 10 (-1) (-1) 0 = Some (digit_string 0 10 num)"
    using number_eq [of 10 0 num "-1" "-1"] by simp
  then have v: "vprintk ''%lu'' [VNum num] = Some \<lparr>out = digit_string 0 10 num, args = [], stores = []\<rparr>"
    by (simp add: vprintk_def directive_def fmt_width_def fmt_precision_def fmt_qualifier_def conversion_def
      is_digit_def conv_number_def arg_unsigned_def arg_num_def emit_def)
  have "set (digit_string 0 10 num) \<subseteq> insert (CHR ''0'') (set digits_upper)"
    using tmp_digits_set [of 10 digits_upper "unat num"] nth_mem [of _ digits_upper, unfolded digits_length]
    by (auto simp: digit_string_def)
  then have "CHR 0x00 \<notin> set (digit_string 0 10 num)" by (auto simp: digits_upper_def)
  then have "c_string (digit_string 0 10 num) = digit_string 0 10 num"
    by (auto simp: c_string_def takeWhile_eq_all_conv)
  then have "print_str (digit_string 0 10 num) c = print_uint64 num c"
    by (simp add: print_str_def print_str_color_def print_uint64_def print_uint64_color_def digit_string_def u64_digits_tmp)
  moreover have "length (digit_string 0 10 num) \<le> 20"
  proof -
    have "unat num < 2 ^ LENGTH(64)" by (rule unsigned_less)
    then show ?thesis using tmp_digits_length [of 10 "unat num" 20 digits_upper] by (simp add: digit_string_def)
  qed
  ultimately show ?thesis using v by (simp add: con_printk_def)
qed

section \<open>What clients rely on\<close>

text \<open>
  The files that print hold state of their own beside the console. The contract they rely on: a
  console operation keeps the console invariant and leaves the client's state alone.
\<close>

locale screen_client =
  fixes inv :: "'s \<Rightarrow> bool" and own :: "'s \<Rightarrow> 'r" and op :: "('s \<Rightarrow> 's) set"
  assumes op_inv: "f \<in> op \<Longrightarrow> inv s \<Longrightarrow> inv (f s)"
    and op_own: "f \<in> op \<Longrightarrow> own (f s) = own s"
begin

definition keeps :: "'s \<Rightarrow> 's \<Rightarrow> bool" where
  "keeps s s' \<longleftrightarrow> own s' = own s \<and> (inv s \<longrightarrow> inv s')"

lemma keeps_refl [simp]: "keeps s s"
  by (simp add: keeps_def)

lemma keeps_trans: "keeps s s' \<Longrightarrow> keeps s' s'' \<Longrightarrow> keeps s s''"
  by (simp add: keeps_def)

lemma keeps_op: "f \<in> op \<Longrightarrow> keeps s (f s)"
  by (simp add: keeps_def op_inv op_own)

lemma keeps_funpow: "f \<in> op \<Longrightarrow> keeps s ((f ^^ n) s)"
  by (induction n) (auto intro: keeps_trans keeps_op)

lemma keeps_fold: "(\<And>x. x \<in> set xs \<Longrightarrow> f x \<in> op) \<Longrightarrow> keeps s (fold f xs s)"
  by (induction xs arbitrary: s) (auto intro: keeps_trans [OF keeps_op])

end

text \<open>The operations of the console.\<close>

inductive_set con_ops :: "('a console_scheme \<Rightarrow> 'a console_scheme) set" where
  "print_char_color ch fg bg \<in> con_ops" | "clear_screen \<in> con_ops" | "vt_switch n \<in> con_ops"
| "move_cursor_up \<in> con_ops" | "move_cursor_down \<in> con_ops" | "move_cursor_left \<in> con_ops"
| "move_cursor_right \<in> con_ops" | "update_cursor r k \<in> con_ops" | "set_cursor_row r \<in> con_ops"
| "set_cursor_col k \<in> con_ops" | "scroll_up \<in> con_ops" | "scroll_down \<in> con_ops"

lemma console_more_basic [simp]:
  "console.more (restore_screen_from_backup c) = console.more c" "console.more (show_history_lines c) = console.more c"
  "console.more (set_vga_color fg bg c) = console.more c" "console.more (put_glyph ch c) = console.more c"
  "console.more (scroll_screen c) = console.more c" "console.more (vt_render_active c) = console.more c"
  by (simp_all add: restore_eq show_history_lines_def set_vga_color_def put_glyph_def scroll_screen_def
    vt_render_active_def Let_def split: prod.splits)

lemma console_more_history [simp]:
  "console.more (view_history_up c) = console.more c" "console.more (view_history_down c) = console.more c"
  "console.more (leave_history c) = console.more c"
  by (simp_all add: view_history_up_def view_history_down_def leave_history_def Let_def)

lemma con_ops_more: "f \<in> con_ops \<Longrightarrow> console.more (f c) = console.more c"
  by (erule con_ops.cases)
    (auto simp: print_char_color_def clear_screen_def vt_switch_def move_cursor_up_def move_cursor_down_def
      move_cursor_left_def move_cursor_right_def set_cursor_row_def set_cursor_col_def scroll_up_def scroll_down_def
      Let_def split: prod.splits)

interpretation con: screen_client con_inv console.more con_ops
proof
  fix f :: "'a console_scheme \<Rightarrow> 'a console_scheme" and s
  assume f: "f \<in> con_ops"
  show "console.more (f s) = console.more s" by (rule con_ops_more [OF f])
  assume "con_inv s"
  with f show "con_inv (f s)"
    by cases (auto intro: print_char_color_inv clear_inv vt_switch_inv move_cursor_inv set_cursor_inv
      scroll_up_inv scroll_down_inv)
qed

lemma con_keeps_print_str: "con.keeps c (print_str_color str fg bg c)"
  unfolding print_str_color_def by (rule con.keeps_fold) (rule con_ops.intros)

end
