(* ===== verification/Lib.thy ===== *)
theory Lib
  imports Base
begin

text \<open>
  The routines of \<open>src/src/kernel/lib.h\<close>.

  The memory routines are inline assembly; \<open>movs\<close> and \<open>stos\<close> are one string instruction
  of the given width (the direction flag is cleared by \<open>cld\<close>), \<open>rep\<close> repeats it, and the
  tail is copied by the width tests on the low bits of the count. Counts are \<open>long\<close>
  values of the callers, all of them non-negative sizes, and are natural numbers here.
  Note the parameter order of this \<open>memcpy\<close>: the first pointer is the source.

  The string routines work on the bytes at and after a \<open>char *\<close>, a function from offsets.
  A string without terminator makes \<open>strlen\<close>, \<open>strcmp\<close> and \<open>str_copy\<close> run on: \<open>None\<close>.
\<close>

section \<open>Memory routines\<close>

definition movs :: "nat \<Rightarrow> memory \<times> u64 \<times> u64 \<Rightarrow> memory \<times> u64 \<times> u64" where
  "movs k = (\<lambda>(m, si, di).
     (store_le k m di (load_le k m si), si + of_nat k, di + of_nat k))"

definition memcpy :: "u64 \<Rightarrow> u64 \<Rightarrow> nat \<Rightarrow> memory \<Rightarrow> memory" where
  "memcpy From To Num m =
     (let s1 = (movs 8 ^^ (Num div 8)) (m, From, To);
          s2 = (if bit Num 2 then movs 4 s1 else s1);
          s3 = (if bit Num 1 then movs 2 s2 else s2);
          s4 = (if bit Num 0 then movs 1 s3 else s3)
      in fst s4)"

definition stos :: "nat \<Rightarrow> u64 \<Rightarrow> memory \<times> u64 \<Rightarrow> memory \<times> u64" where
  "stos k v = (\<lambda>(m, di). (store_le k m di v, di + of_nat k))"

definition memset :: "u64 \<Rightarrow> u8 \<Rightarrow> nat \<Rightarrow> memory \<Rightarrow> memory" where
  "memset Address C Count m =
     (let tmp = ucast C * 0x0101010101010101;
          s1 = (stos 8 tmp ^^ (Count div 8)) (m, Address);
          s2 = (if bit Count 2 then stos 4 tmp s1 else s1);
          s3 = (if bit Count 1 then stos 2 tmp s2 else s2);
          s4 = (if bit Count 0 then stos 1 tmp s3 else s3)
      in fst s4)"

text \<open>
  \<open>repe cmpsb\<close> compares the byte at \<open>rsi\<close> (the second part) with the byte at \<open>rdi\<close>
  (the first part); \<open>jl\<close> is a signed comparison. With a zero count no comparison sets the
  flags and the result depends on what ran before: \<open>None\<close>.
\<close>

fun memcmp_loop :: "u64 \<Rightarrow> u64 \<Rightarrow> nat \<Rightarrow> memory \<Rightarrow> int" where
  "memcmp_loop p q 0 m = 0"
| "memcmp_loop p q (Suc n) m =
     (if m q = m p then memcmp_loop (p + 1) (q + 1) n m
      else if sint (m q) < sint (m p) then 1 else -1)"

definition memcmp :: "u64 \<Rightarrow> u64 \<Rightarrow> nat \<Rightarrow> memory \<Rightarrow> int option" where
  "memcmp FirstPart SecondPart Count m =
     (if Count = 0 then None else Some (memcmp_loop FirstPart SecondPart Count m))"

text \<open>The bit helpers return a value and leave memory alone; a shift by 64 or more is
  undefined in C: \<open>None\<close>.\<close>

definition bit_set :: "u64 \<Rightarrow> u64 \<Rightarrow> u64 option" where
  "bit_set w nr = (if nr < 64 then Some (w OR push_bit (unat nr) 1) else None)"

definition bit_get :: "u64 \<Rightarrow> u64 \<Rightarrow> u64 option" where
  "bit_get w nr = (if nr < 64 then Some (w AND push_bit (unat nr) 1) else None)"

definition bit_clean :: "u64 \<Rightarrow> u64 \<Rightarrow> u64 option" where
  "bit_clean w nr = (if nr < 64 then Some (w AND NOT (push_bit (unat nr) 1)) else None)"

section \<open>String routines\<close>

type_synonym cptr = "nat \<Rightarrow> u8"

partial_function (option) strlen_from :: "cptr \<Rightarrow> nat \<Rightarrow> nat option" where
  "strlen_from p i = (if p i \<noteq> 0 then strlen_from p (Suc i) else Some i)"

definition strlen :: "cptr \<Rightarrow> nat option" where
  "strlen p = strlen_from p 0"

partial_function (option) strcmp_from :: "cptr \<Rightarrow> cptr \<Rightarrow> nat \<Rightarrow> int option" where
  "strcmp_from p q i =
     (if p i \<noteq> 0 \<and> p i = q i then strcmp_from p q (Suc i)
      else Some (int (unat (p i)) - int (unat (q i))))"

definition strcmp :: "cptr \<Rightarrow> cptr \<Rightarrow> int option" where
  "strcmp s1 s2 = strcmp_from s1 s2 0"

fun strncpy_pad :: "cptr \<Rightarrow> nat \<Rightarrow> nat \<Rightarrow> cptr" where
  "strncpy_pad d i 0 = d"
| "strncpy_pad d i (Suc n) = strncpy_pad (d(i := 0)) (Suc i) n"

fun strncpy_loop :: "cptr \<Rightarrow> cptr \<Rightarrow> nat \<Rightarrow> nat \<Rightarrow> cptr" where
  "strncpy_loop d s i 0 = d"
| "strncpy_loop d s i (Suc n) =
     (if s i \<noteq> 0 then strncpy_loop (d(i := s i)) s (Suc i) n else strncpy_pad d i (Suc n))"

definition strncpy :: "cptr \<Rightarrow> cptr \<Rightarrow> int \<Rightarrow> cptr" where
  "strncpy dest src n = strncpy_loop dest src 0 (nat n)"

partial_function (option) str_copy_from :: "cptr \<Rightarrow> cptr \<Rightarrow> nat \<Rightarrow> cptr option" where
  "str_copy_from d s i =
     (if s i = 0 then Some (d(i := s i)) else str_copy_from (d(i := s i)) s (Suc i))"

definition str_copy :: "cptr \<Rightarrow> cptr \<Rightarrow> cptr option" where
  "str_copy dest src = str_copy_from dest src 0"

text \<open>The bytes \<open>xs\<close> followed by a terminator stand at the pointer.\<close>

definition cstr :: "cptr \<Rightarrow> u8 list \<Rightarrow> bool" where
  "cstr p xs \<longleftrightarrow> 0 \<notin> set xs \<and> (\<forall>i < length xs. p i = xs ! i) \<and> p (length xs) = 0"

section \<open>What the memory routines compute\<close>

definition copied :: "u64 \<Rightarrow> u64 \<Rightarrow> nat \<Rightarrow> memory \<Rightarrow> memory" where
  "copied src dst n m = (\<lambda>x. if unat x \<in> bytes_at dst n then m (src + (x - dst)) else m x)"

definition filled :: "u64 \<Rightarrow> u8 \<Rightarrow> nat \<Rightarrow> memory \<Rightarrow> memory" where
  "filled dst c n m = (\<lambda>x. if unat x \<in> bytes_at dst n then c else m x)"

lemma unat_add_of_nat:
  "unat (a :: u64) + k < 2 ^ 64 \<Longrightarrow> unat (a + of_nat k) = unat a + k"
  by (simp add: unat_word_ariths unat_of_nat)

lemma copied_0 [simp]: "copied src dst 0 m = m"
  by (auto simp: copied_def)

lemma filled_0 [simp]: "filled dst c 0 m = m"
  by (auto simp: filled_def)

lemma bytes_at_Suc:
  assumes "unat a + Suc n \<le> 2 ^ 64"
  shows "unat x \<in> bytes_at a (Suc n) \<longleftrightarrow> x = a \<or> (n > 0 \<and> unat x \<in> bytes_at (a + 1) n)"
proof (cases "n = 0")
  case True
  have "unat x \<in> bytes_at a 1 \<longleftrightarrow> unat x = unat a" by auto
  then show ?thesis using True by (simp add: word_unat_eq_iff)
next
  case False
  then have "unat (a + 1) = unat a + 1" using assms unat_add_1 by blast
  moreover have "x = a \<longleftrightarrow> unat x = unat a" by (simp add: word_unat_eq_iff)
  ultimately show ?thesis using False by auto
qed

lemma load_le_bits: "bit (load_le k m a) i \<Longrightarrow> i < 8 * k"
proof (induction k arbitrary: a i)
  case (Suc k)
  then show ?case by (auto simp: bit_simps dest!: Suc.IH dest: bit_imp_le_length)
qed simp

lemma load_le_high: "k < 8 \<Longrightarrow> take_bit 56 (load_le k m a) = load_le k m a"
  by (rule bit_word_eqI) (auto simp: bit_simps dest: load_le_bits)

lemma byte_low: "(ucast (ucast (b :: u8) OR push_bit 8 v :: u64) :: u8) = b"
  by (rule bit_word_eqI) (auto simp: bit_simps)

lemma byte_high: "drop_bit 8 (ucast (b :: u8) OR push_bit 8 v :: u64) = take_bit 56 v"
  by (rule bit_word_eqI) (auto simp: bit_simps dest: bit_imp_le_length)

lemma store_load_Suc:
  "k < 8 \<Longrightarrow> store_le (Suc k) m' dst (load_le (Suc k) m src) =
    store_le k (m'(dst := m src)) (dst + 1) (load_le k m (src + 1))"
  by (simp only: store_le.simps load_le.simps byte_low byte_high load_le_high)

lemma store_load_copied:
  assumes "unat src + k \<le> 2 ^ 64" "unat dst + k \<le> 2 ^ 64" "k \<le> 8"
  shows "store_le k m' dst (load_le k m src) x =
    (if unat x \<in> bytes_at dst k then m (src + (x - dst)) else m' x)"
  using assms
proof (induction k arbitrary: m' src dst)
  case 0
  then show ?case by auto
next
  case (Suc k)
  have split: "unat x \<in> bytes_at dst (Suc k) \<longleftrightarrow> x = dst \<or> (k > 0 \<and> unat x \<in> bytes_at (dst + 1) k)"
    using bytes_at_Suc Suc.prems by blast
  show ?case
  proof (cases "k = 0")
    case True
    then show ?thesis using split Suc.prems by (simp add: store_load_Suc del: store_le.simps load_le.simps) simp
  next
    case False
    have s1: "unat (src + 1) = unat src + 1" using Suc.prems False unat_add_1 by blast
    have d1: "unat (dst + 1) = unat dst + 1" using Suc.prems False unat_add_1 by blast
    have "store_le k (m'(dst := m src)) (dst + 1) (load_le k m (src + 1)) x =
      (if unat x \<in> bytes_at (dst + 1) k then m (src + 1 + (x - (dst + 1)))
       else (m'(dst := m src)) x)"
      by (rule Suc.IH) (use Suc.prems s1 d1 in auto)
    moreover have "unat dst \<notin> bytes_at (dst + 1) k" using d1 by auto
    moreover have "src + 1 + (x - (dst + 1)) = src + (x - dst)" by simp
    ultimately show ?thesis
      using split Suc.prems False by (simp only: store_load_Suc) auto
  qed
qed

definition copy_state :: "u64 \<Rightarrow> u64 \<Rightarrow> memory \<Rightarrow> nat \<Rightarrow> memory \<times> u64 \<times> u64" where
  "copy_state From To m j = (copied From To j m, From + of_nat j, To + of_nat j)"

lemma movs_copy_state:
  assumes "unat From + (j + k) \<le> 2 ^ 64" "unat To + (j + k) \<le> 2 ^ 64" "k \<le> 8" "0 < k"
    and "bytes_at From (j + k) \<inter> bytes_at To (j + k) = {}"
  shows "movs k (copy_state From To m j) = copy_state From To m (j + k)"
proof -
  have f: "unat (From + of_nat j) = unat From + j"
    using assms by (intro unat_add_of_nat) auto
  have t: "unat (To + of_nat j) = unat To + j"
    using assms by (intro unat_add_of_nat) auto
  have "load_le k (copied From To j m) (From + of_nat j) = load_le k m (From + of_nat j)"
    by (rule load_le_cong) (use assms f in \<open>auto simp: same_on_def copied_def\<close>)
  moreover have "store_le k (copied From To j m) (To + of_nat j) (load_le k m (From + of_nat j))
      = copied From To (j + k) m"
    by (rule ext, subst store_load_copied)
       (use assms f t in \<open>auto simp: copied_def algebra_simps\<close>)
  ultimately show ?thesis by (simp add: movs_def copy_state_def algebra_simps)
qed

lemma movsq_copied:
  assumes "unat From + 8 * q \<le> 2 ^ 64" "unat To + 8 * q \<le> 2 ^ 64"
    and "bytes_at From (8 * q) \<inter> bytes_at To (8 * q) = {}"
  shows "(movs 8 ^^ q) (m, From, To) = copy_state From To m (8 * q)"
  using assms
proof (induction q)
  case 0
  then show ?case by (simp add: copy_state_def)
next
  case (Suc q)
  then have "(movs 8 ^^ q) (m, From, To) = copy_state From To m (8 * q)"
    by (intro Suc.IH) auto
  then show ?case
    using movs_copy_state [of From "8 * q" 8 To m] Suc.prems by (simp add: add.commute)
qed

text \<open>One conditional tail instruction of the copy.\<close>

lemma movs_tail:
  assumes "unat From + n \<le> 2 ^ 64" "unat To + n \<le> 2 ^ 64"
    and "bytes_at From n \<inter> bytes_at To n = {}"
    and "j + (if c then k else 0) \<le> n" "k \<le> 8" "0 < k"
  shows "(if c then movs k (copy_state From To m j) else copy_state From To m j)
    = copy_state From To m (j + (if c then k else 0))"
proof (cases c)
  case True
  have "movs k (copy_state From To m j) = copy_state From To m (j + k)"
    by (rule movs_copy_state) (use assms True in auto)
  with True show ?thesis by simp
qed simp

lemma low_bits_sum:
  "n = 8 * (n div 8) + (if bit n 2 then 4 else 0) + (if bit n 1 then 2 else 0)
     + (if bit n 0 then 1 else (0::nat))"
proof -
  define a b c where "a = n div 2" and "b = n div 4" and "c = n div 8"
  have half: "k = 2 * (k div 2) + (if odd k then 1 else 0)" for k :: nat
    by (simp add: odd_iff_mod_2_eq_one even_iff_mod_2_eq_zero)
  have "a div 2 = b" "b div 2 = c"
    by (simp_all add: a_def b_def c_def flip: div_mult2_eq)
  then have eqs: "n = 2 * a + (if odd n then 1 else 0)" "a = 2 * b + (if odd a then 1 else 0)"
      "b = 2 * c + (if odd b then 1 else 0)"
    using half [of n] half [of a] half [of b] by (auto simp: a_def)
  have bits: "bit n 2 = odd b" "bit n 1 = odd a" "bit n 0 = odd n"
    by (simp_all add: bit_iff_odd a_def b_def)
  have "(if odd b then 4 else 0) = 4 * (if odd b then 1 else (0::nat))"
    "(if odd a then 2 else 0) = 2 * (if odd a then 1 else (0::nat))" by simp_all
  then show ?thesis
    unfolding bits c_def [symmetric] using eqs by linarith
qed

lemma memcpy_copied:
  assumes "unat From + n \<le> 2 ^ 64" "unat To + n \<le> 2 ^ 64"
    and "bytes_at From n \<inter> bytes_at To n = {}"
  shows "memcpy From To n m = copied From To n m"
proof -
  note tail = movs_tail [OF assms]
  have n: "n = 8 * (n div 8) + (if bit n 2 then 4 else 0) + (if bit n 1 then 2 else 0)
     + (if bit n 0 then 1 else 0)"
    by (rule low_bits_sum)
  have q: "(movs 8 ^^ (n div 8)) (m, From, To) = copy_state From To m (8 * (n div 8))"
    by (rule movsq_copied) (use assms in \<open>auto intro: order_trans\<close>)
  have "memcpy From To n m = fst (copy_state From To m
     (8 * (n div 8) + (if bit n 2 then 4 else 0) + (if bit n 1 then 2 else 0)
     + (if bit n 0 then 1 else 0)))"
    unfolding memcpy_def Let_def q
    by (subst tail, use n in linarith, simp, simp)+ simp
  also have "\<dots> = copied From To n m"
    unfolding n [symmetric] by (simp add: copy_state_def)
  finally show ?thesis .
qed

section \<open>What \<open>memset\<close> computes\<close>

text \<open>The low \<open>k\<close> bytes of \<open>v\<close> are all \<open>c\<close>; the pattern \<open>C * 0x0101...\<close> has eight of them.\<close>

primrec all_bytes :: "nat \<Rightarrow> u8 \<Rightarrow> u64 \<Rightarrow> bool" where
  "all_bytes 0 c v \<longleftrightarrow> True"
| "all_bytes (Suc k) c v \<longleftrightarrow> ucast v = c \<and> all_bytes k c (drop_bit 8 v)"

primrec ones256 :: "nat \<Rightarrow> nat" where
  "ones256 0 = 0"
| "ones256 (Suc k) = 1 + 256 * ones256 k"

lemma ones256_bound: "c < 256 \<Longrightarrow> c * ones256 k < 256 ^ k"
proof (induction k)
  case (Suc k)
  then have "c * ones256 k + 1 \<le> 256 ^ k" by simp
  then have "256 * (c * ones256 k + 1) \<le> 256 * 256 ^ k" by (rule mult_le_mono2)
  then show ?case using Suc.prems by (simp add: algebra_simps)
qed simp

lemma byte_of_nat: "x < 2 ^ 64 \<Longrightarrow> unat (ucast (of_nat x :: u64) :: u8) = x mod 256"
  by (simp add: unsigned_ucast_eq unat_of_nat take_bit_eq_mod)

lemma drop_of_nat: "x < 2 ^ 64 \<Longrightarrow> drop_bit 8 (of_nat x :: u64) = of_nat (x div 256)"
proof -
  assume "x < 2 ^ 64"
  then have "unat (drop_bit 8 (of_nat x :: u64)) = x div 256"
    by (simp add: drop_bit_eq_div unat_div_distrib unat_of_nat)
  then show ?thesis by (metis of_nat_unat ucast_id)
qed

lemma all_bytes_ones: "k \<le> 8 \<Longrightarrow> all_bytes k c (of_nat (unat c * ones256 k))"
proof (induction k)
  case (Suc k)
  define x where "x = unat c * ones256 (Suc k)"
  have c: "unat c < 256" using unsigned_less [of c] by simp
  have "x < 256 ^ Suc k" unfolding x_def by (rule ones256_bound [OF c])
  also have "(256 :: nat) ^ Suc k \<le> 256 ^ 8" by (rule power_increasing) (use Suc.prems in auto)
  finally have x: "x < 2 ^ 64" by simp
  have x': "x = unat c + 256 * (unat c * ones256 k)" by (simp add: x_def algebra_simps)
  have "x mod 256 = unat c" "x div 256 = unat c * ones256 k" using c by (simp_all add: x')
  then have "ucast (of_nat x :: u64) = c" "drop_bit 8 (of_nat x :: u64) = of_nat (unat c * ones256 k)"
    using byte_of_nat [OF x] drop_of_nat [OF x] by (simp_all add: word_unat_eq_iff)
  then show ?case using Suc.IH Suc.prems by (simp add: x_def del: ones256.simps)
qed simp

lemma pattern_bytes: "all_bytes 8 c (ucast c * 0x0101010101010101)"
proof -
  have "ones256 (Suc (Suc (Suc (Suc (Suc (Suc (Suc (Suc 0)))))))) = 0x0101010101010101" by simp
  moreover have "8 = Suc (Suc (Suc (Suc (Suc (Suc (Suc (Suc 0)))))))" by simp
  ultimately have "ones256 8 = 0x0101010101010101" by presburger
  then have "(of_nat (unat c * ones256 8) :: u64) = ucast c * 0x0101010101010101"
    by (metis of_nat_mult of_nat_numeral of_nat_unat)
  then show ?thesis using all_bytes_ones [of 8 c] by simp
qed

lemma all_bytes_le: "all_bytes n c v \<Longrightarrow> k \<le> n \<Longrightarrow> all_bytes k c v"
proof (induction n arbitrary: k v)
  case (Suc n)
  then show ?case by (cases k) auto
qed simp

lemma store_all_bytes:
  "all_bytes k c v \<Longrightarrow> unat a + k \<le> 2 ^ 64 \<Longrightarrow> store_le k m a v x = filled a c k m x"
proof (induction k arbitrary: m a v)
  case (Suc k)
  have split: "unat x \<in> bytes_at a (Suc k) \<longleftrightarrow> x = a \<or> (k > 0 \<and> unat x \<in> bytes_at (a + 1) k)"
    using bytes_at_Suc Suc.prems by blast
  show ?case
  proof (cases "k = 0")
    case True
    then show ?thesis using Suc.prems split by (auto simp: filled_def)
  next
    case False
    then have "unat (a + 1) = unat a + 1" using Suc.prems unat_add_1 by blast
    then have "store_le k (m(a := c)) (a + 1) (drop_bit 8 v) x = filled (a + 1) c k (m(a := c)) x"
      using Suc.prems by (intro Suc.IH) auto
    then show ?thesis using Suc.prems split False by (auto simp: filled_def)
  qed
qed simp

definition fill_state :: "u64 \<Rightarrow> u8 \<Rightarrow> memory \<Rightarrow> nat \<Rightarrow> memory \<times> u64" where
  "fill_state a c m j = (filled a c j m, a + of_nat j)"

lemma stos_fill_state:
  assumes "unat a + (j + k) \<le> 2 ^ 64" "k \<le> 8" "0 < k" "all_bytes 8 c v"
  shows "stos k v (fill_state a c m j) = fill_state a c m (j + k)"
proof -
  have t: "unat (a + of_nat j) = unat a + j"
    using assms by (intro unat_add_of_nat) auto
  have v: "all_bytes k c v" using assms by (blast intro: all_bytes_le)
  have "store_le k (filled a c j m) (a + of_nat j) v = filled a c (j + k) m"
    by (rule ext, subst store_all_bytes [OF v])
       (use assms t in \<open>auto simp: filled_def\<close>)
  then show ?thesis by (simp add: stos_def fill_state_def algebra_simps)
qed

lemma stosq_filled:
  assumes "unat a + 8 * q \<le> 2 ^ 64" "all_bytes 8 c v"
  shows "(stos 8 v ^^ q) (m, a) = fill_state a c m (8 * q)"
  using assms
proof (induction q)
  case 0
  then show ?case by (simp add: fill_state_def)
next
  case (Suc q)
  then show ?case
    using stos_fill_state [of a "8 * q" 8 c v m] by (simp add: add.commute)
qed

lemma stos_tail:
  assumes "unat a + n \<le> 2 ^ 64" "all_bytes 8 c v"
    and "j + (if b then k else 0) \<le> n" "k \<le> 8" "0 < k"
  shows "(if b then stos k v (fill_state a c m j) else fill_state a c m j)
    = fill_state a c m (j + (if b then k else 0))"
proof (cases b)
  case True
  have "stos k v (fill_state a c m j) = fill_state a c m (j + k)"
    by (rule stos_fill_state) (use assms True in auto)
  with True show ?thesis by simp
qed simp

lemma memset_filled:
  assumes "unat a + n \<le> 2 ^ 64"
  shows "memset a c n m = filled a c n m"
proof -
  note tail = stos_tail [OF assms pattern_bytes]
  have n: "n = 8 * (n div 8) + (if bit n 2 then 4 else 0) + (if bit n 1 then 2 else 0)
     + (if bit n 0 then 1 else 0)"
    by (rule low_bits_sum)
  have q: "(stos 8 (ucast c * 0x0101010101010101) ^^ (n div 8)) (m, a)
      = fill_state a c m (8 * (n div 8))"
    by (rule stosq_filled [OF _ pattern_bytes]) (use assms in \<open>auto intro: order_trans\<close>)
  have "memset a c n m = fst (fill_state a c m
     (8 * (n div 8) + (if bit n 2 then 4 else 0) + (if bit n 1 then 2 else 0)
     + (if bit n 0 then 1 else 0)))"
    unfolding memset_def Let_def q
    by (subst tail, use n in linarith, simp, simp)+ simp
  also have "\<dots> = filled a c n m"
    unfolding n [symmetric] by (simp add: fill_state_def)
  finally show ?thesis .
qed

section \<open>What the comparison and string routines compute\<close>

lemma memcmp_loop_range: "memcmp_loop p q n m \<in> {-1, 0, 1}"
  by (induction p q n m rule: memcmp_loop.induct) auto

lemma memcmp_loop_0_iff:
  "memcmp_loop p q n m = 0 \<longleftrightarrow> (\<forall>i < n. m (p + of_nat i) = m (q + of_nat i))"
proof (induction p q n m rule: memcmp_loop.induct)
  case (2 p q n m)
  have "(\<forall>i < Suc n. m (p + of_nat i) = m (q + of_nat i)) \<longleftrightarrow>
      m p = m q \<and> (\<forall>i < n. m (p + 1 + of_nat i) = m (q + 1 + of_nat i))"
    by (auto simp: All_less_Suc2 add.assoc)
  then show ?case using 2 by auto
qed simp

lemma memcmp_loop_swap: "memcmp_loop q p n m = - memcmp_loop p q n m"
proof (induction p q n m rule: memcmp_loop.induct)
  case (2 p q n m)
  have "sint (m p) = sint (m q) \<longleftrightarrow> m p = m q" by (auto intro: signed_word_eqI)
  then show ?case using 2 by auto
qed simp

lemma cstr_nth: "cstr p xs \<Longrightarrow> i < length xs \<Longrightarrow> p i = xs ! i \<and> p i \<noteq> 0"
  by (auto simp: cstr_def) (metis nth_mem)

lemma strlen_from_cstr:
  assumes "cstr p xs" "i \<le> length xs"
  shows "strlen_from p i = Some (length xs)"
  using assms(2)
proof (induction "length xs - i" arbitrary: i)
  case 0
  then show ?case using assms(1) by (subst strlen_from.simps) (simp add: cstr_def)
next
  case (Suc d)
  then have "strlen_from p (Suc i) = Some (length xs)" by (intro Suc.hyps) auto
  moreover have "i < length xs" using Suc.hyps(2) by simp
  then have "p i \<noteq> 0" using cstr_nth [OF assms(1)] by blast
  ultimately show ?case by (subst strlen_from.simps) simp
qed

lemma strlen_cstr: "cstr p xs \<Longrightarrow> strlen p = Some (length xs)"
  by (simp add: strlen_def strlen_from_cstr)

text \<open>The bytewise lexicographic comparison of two strings, with the terminator below every byte.\<close>

fun bytes_cmp :: "u8 list \<Rightarrow> u8 list \<Rightarrow> int" where
  "bytes_cmp [] [] = 0"
| "bytes_cmp [] (y # ys) = - int (unat y)"
| "bytes_cmp (x # xs) [] = int (unat x)"
| "bytes_cmp (x # xs) (y # ys) = (if x = y then bytes_cmp xs ys else int (unat x) - int (unat y))"

lemma cstr_drop: "cstr p xs \<Longrightarrow> i \<le> length xs \<Longrightarrow> cstr (\<lambda>j. p (i + j)) (drop i xs)"
  by (auto simp: cstr_def dest: in_set_dropD)

lemma strcmp_from_cstr:
  assumes "cstr (\<lambda>j. p (i + j)) xs" "cstr (\<lambda>j. q (i + j)) ys"
  shows "strcmp_from p q i = Some (bytes_cmp xs ys)"
  using assms
proof (induction xs ys arbitrary: i rule: bytes_cmp.induct)
  case 1
  then show ?case by (subst strcmp_from.simps) (simp add: cstr_def)
next
  case (2 y ys)
  then show ?case by (subst strcmp_from.simps) (auto simp: cstr_def)
next
  case (3 x xs)
  then show ?case by (subst strcmp_from.simps) (auto simp: cstr_def)
next
  case (4 x xs y ys)
  have p: "p i = x" "x \<noteq> 0" and q: "q i = y" using "4.prems" by (auto simp: cstr_def)
  have "cstr (\<lambda>j. p (Suc i + j)) xs" "cstr (\<lambda>j. q (Suc i + j)) ys"
    using cstr_drop [OF "4.prems"(1), of 1] cstr_drop [OF "4.prems"(2), of 1] by simp_all
  then show ?case using p q "4.IH" by (subst strcmp_from.simps) auto
qed

lemma strcmp_cstr: "cstr p xs \<Longrightarrow> cstr q ys \<Longrightarrow> strcmp p q = Some (bytes_cmp xs ys)"
  using strcmp_from_cstr [of p 0 xs q ys] by (simp add: strcmp_def)

lemma bytes_cmp_0_iff: "0 \<notin> set xs \<Longrightarrow> 0 \<notin> set ys \<Longrightarrow> bytes_cmp xs ys = 0 \<longleftrightarrow> xs = ys"
proof (induction xs ys rule: bytes_cmp.induct)
  case (4 x xs y ys)
  have "int (unat x) - int (unat y) = 0 \<Longrightarrow> x = y" by (simp add: word_uint_eqI)
  with 4 show ?case by auto
qed (auto simp: uint_0_iff)

lemma strncpy_pad_eq: "strncpy_pad d i n k = (if i \<le> k \<and> k < i + n then 0 else d k)"
  by (induction n arbitrary: d i) auto

lemma strncpy_loop_cstr:
  "cstr (\<lambda>j. s (i + j)) xs \<Longrightarrow> strncpy_loop d s i n k =
     (if i \<le> k \<and> k < i + n then (if k - i < length xs then xs ! (k - i) else 0) else d k)"
proof (induction n arbitrary: d i xs)
  case (Suc n)
  show ?case
  proof (cases xs)
    case Nil
    then show ?thesis using Suc.prems by (simp add: cstr_def strncpy_pad_eq del: strncpy_pad.simps)
  next
    case (Cons y ys)
    have y: "s i = y" "y \<noteq> 0" using Suc.prems Cons by (auto simp: cstr_def)
    have "cstr (\<lambda>j. s (Suc i + j)) ys" using cstr_drop [OF Suc.prems, of 1] Cons by simp
    from Suc.IH [OF this] show ?thesis using y Cons by (auto simp: nth_Cons' Suc_diff_le)
  qed
qed auto

lemma strncpy_cstr:
  "cstr s xs \<Longrightarrow> strncpy d s n k =
     (if k < nat n then (if k < length xs then xs ! k else 0) else d k)"
  using strncpy_loop_cstr [of s 0 xs d "nat n" k] by (simp add: strncpy_def)

lemma str_copy_from_cstr:
  assumes "cstr s xs" "i \<le> length xs"
  shows "str_copy_from d s i = Some (\<lambda>k. if i \<le> k \<and> k \<le> length xs then s k else d k)"
  using assms(2)
proof (induction "length xs - i" arbitrary: i d)
  case 0
  then have "s i = 0" "i = length xs" using assms(1) by (auto simp: cstr_def)
  then show ?case by (subst str_copy_from.simps) (auto simp: fun_eq_iff)
next
  case (Suc n)
  then have "str_copy_from (d(i := s i)) s (Suc i) =
      Some (\<lambda>k. if Suc i \<le> k \<and> k \<le> length xs then s k else (d(i := s i)) k)"
    by (intro Suc.hyps) auto
  moreover have i: "i < length xs" using Suc.hyps(2) by simp
  then have "s i \<noteq> 0" using cstr_nth [OF assms(1)] by blast
  ultimately show ?case using i by (subst str_copy_from.simps) (auto simp: fun_eq_iff)
qed

lemma str_copy_cstr:
  assumes "cstr s xs"
  shows "\<exists>d'. str_copy d s = Some d' \<and> cstr d' xs \<and> (\<forall>k > length xs. d' k = d k)"
  using str_copy_from_cstr [OF assms, of 0 d] assms
  by (auto simp: str_copy_def cstr_def)

section \<open>Properties\<close>

text \<open>C23: \<open>memcpy\<close> copies exactly the \<open>n\<close> bytes from the first pointer to the second and changes
  no other byte, for every length: the \<open>movsq\<close> loop and the width tests on the low bits of the
  count add up to a byte copy, when the two ranges do not overlap or wrap.\<close>

theorem memcpy_is_byte_copy:
  assumes "unat From + n \<le> 2 ^ 64" "unat To + n \<le> 2 ^ 64" "bytes_at From n \<inter> bytes_at To n = {}"
  shows "memcpy From To n m = (\<lambda>x. if unat x \<in> bytes_at To n then m (From + (x - To)) else m x)"
  using memcpy_copied [OF assms] by (simp add: copied_def)

theorem memcpy_is_byte_copy_witness:
  "memcpy 0x100 0x200 13 (\<lambda>x. ucast x) 0x20C = (0x0C :: u8)"
  using memcpy_is_byte_copy [of "0x100" 13 "0x200" "\<lambda>x. ucast x"] by simp

text \<open>\<open>memset\<close> writes the byte to exactly the \<open>n\<close> cells of the range.\<close>

theorem memset_fills_range:
  assumes "unat a + n \<le> 2 ^ 64"
  shows "memset a c n m = (\<lambda>x. if unat x \<in> bytes_at a n then c else m x)"
  using memset_filled [OF assms] by (simp add: filled_def)

theorem memset_fills_range_witness:
  "memset 0x1000 0xAB 7 (\<lambda>_. 0) 0x1006 = 0xAB \<and> memset 0x1000 0xAB 7 (\<lambda>_. 0) 0x1007 = 0"
  using memset_fills_range [of "0x1000" 7 "0xAB" "\<lambda>_. 0"] by simp

text \<open>On two terminated strings \<open>strcmp\<close> returns, and it returns zero exactly when they are
  equal; its sign is the bytewise lexicographic order.\<close>

theorem strcmp_decides_equality:
  assumes "cstr p xs" "cstr q ys"
  shows "\<exists>r. strcmp p q = Some r \<and> (r = 0 \<longleftrightarrow> xs = ys) \<and> r = bytes_cmp xs ys"
  using strcmp_cstr [OF assms] bytes_cmp_0_iff [of xs ys] assms by (simp add: cstr_def)

theorem strcmp_decides_equality_witness:
  "\<exists>r. strcmp (\<lambda>i. if i = 0 then 0x61 else 0) (\<lambda>i. if i = 0 then 0x62 else 0) = Some r \<and> r \<noteq> 0 \<and> r = -1"
  using strcmp_decides_equality [of "\<lambda>i. if i = 0 then 0x61 else 0" "[0x61]" "\<lambda>i. if i = 0 then 0x62 else 0" "[0x62]"]
  by (auto simp: cstr_def)

end
