(* ===== verification/Paging.thy ===== *)
theory Paging
  imports Lib
begin

text \<open>
  The page layer of \<open>src/src/kernel/memory.c\<close> and the macros of \<open>memory.h\<close>: the E820 map
  (\<open>init_memory_map\<close>), the list of free 2M pages (\<open>init_page\<close>, \<open>alloc_page\<close>, \<open>free_page\<close>)
  and \<open>init_memory\<close>.

  \<open>kmem\<close> extends the machine by the globals of \<open>memory.c\<close> and by
  \<open>memory_management_struct\<close>. The \<open>struct Page\<close> objects live in memory, at the addresses
  the code computes; pointers are addresses and \<open>NULL\<close> is 0. The kernel runs with the low
  memory mapped, so a write through a null \<open>struct Page *\<close> is an ordinary write.

  The lemmas: \<open>page_list\<close> abstracts the free list to the list of its page structures;
  \<open>alloc_page\<close> takes its head, \<open>free_page\<close> puts a page back and a second \<open>free_page\<close> of
  the same page does not put it there twice.
\<close>

section \<open>Address arithmetic (memory.h)\<close>

definition PAGE_OFFSET :: u64 where "PAGE_OFFSET = 0xffff800000000000"
definition PAGE_2M_SHIFT :: nat where "PAGE_2M_SHIFT = 21"
definition PAGE_4K_SHIFT :: nat where "PAGE_4K_SHIFT = 12"
definition PAGE_2M_SIZE :: u64 where "PAGE_2M_SIZE = push_bit PAGE_2M_SHIFT 1"
definition PAGE_4K_SIZE :: u64 where "PAGE_4K_SIZE = push_bit PAGE_4K_SHIFT 1"
definition PAGE_2M_MASK :: u64 where "PAGE_2M_MASK = NOT (PAGE_2M_SIZE - 1)"
definition PAGE_4K_MASK :: u64 where "PAGE_4K_MASK = NOT (PAGE_4K_SIZE - 1)"

definition PAGE_2M_ALIGN :: "u64 \<Rightarrow> u64" where
  "PAGE_2M_ALIGN addr = (addr + PAGE_2M_SIZE - 1) AND PAGE_2M_MASK"

definition PAGE_4K_ALIGN :: "u64 \<Rightarrow> u64" where
  "PAGE_4K_ALIGN addr = (addr + PAGE_4K_SIZE - 1) AND PAGE_4K_MASK"

definition Virt_To_Phy :: "u64 \<Rightarrow> u64" where
  "Virt_To_Phy addr = addr - PAGE_OFFSET"

definition Phy_To_Virt :: "u64 \<Rightarrow> u64" where
  "Phy_To_Virt addr = addr + PAGE_OFFSET"

section \<open>Data\<close>

record E820 =
  e_address :: u64
  e_length :: u64
  e_type :: u32

record kmem = machine +
  e820 :: "E820 array"
  e820_length :: u64
  start_code :: u64
  end_code :: u64
  end_data :: u64
  end_brk :: u64
  pages_struct :: u64
  free_pages_list :: u64
  total_free_pages :: u64
  kernel_heap_start :: u64
  kernel_heap_end :: u64
  malloc_head :: u64
  malloc_total_allocated :: u64
  malloc_total_freed :: u64

text \<open>\<open>struct E820\<close> is packed: 20 bytes.\<close>

definition e820_at :: "memory \<Rightarrow> u64 \<Rightarrow> E820" where
  "e820_at m p = \<lparr>e_address = load_le 8 m p, e_length = load_le 8 m (p + 8),
     e_type = ucast (load_le 4 m (p + 16))\<rparr>"

text \<open>\<open>struct Page\<close>: \<open>phy_addr\<close> at 0, \<open>ref_count\<close> (4 bytes) at 8, \<open>next\<close> at 16; 24 bytes.\<close>

definition sizeof_Page :: u64 where "sizeof_Page = 24"

definition phy_addr :: "memory \<Rightarrow> u64 \<Rightarrow> u64" where
  "phy_addr m p = load_le 8 m p"
definition ref_count :: "memory \<Rightarrow> u64 \<Rightarrow> u32" where
  "ref_count m p = ucast (load_le 4 m (p + 8))"
definition page_next :: "memory \<Rightarrow> u64 \<Rightarrow> u64" where
  "page_next m p = load_le 8 m (p + 16)"

definition set_phy_addr :: "u64 \<Rightarrow> u64 \<Rightarrow> memory \<Rightarrow> memory" where
  "set_phy_addr p v m = store_le 8 m p v"
definition set_ref_count :: "u64 \<Rightarrow> u32 \<Rightarrow> memory \<Rightarrow> memory" where
  "set_ref_count p v m = store_le 4 m (p + 8) (ucast v)"
definition set_page_next :: "u64 \<Rightarrow> u64 \<Rightarrow> memory \<Rightarrow> memory" where
  "set_page_next p v m = store_le 8 m (p + 16) v"

definition malloc_debug :: "string \<Rightarrow> varg list \<Rightarrow> 'a machine_scheme \<Rightarrow> 'a machine_scheme" where
  "malloc_debug fmt args = printk_color CYAN BLACK (''malloc: '' @ fmt) args"

section \<open>The E820 map\<close>

definition E820_TABLE :: u64 where "E820_TABLE = 0xffff800000005000"

text \<open>The copy loop of \<open>init_memory_map\<close>; the first argument counts the entries left of the 32.\<close>

fun init_memory_map_loop ::
    "nat \<Rightarrow> nat \<Rightarrow> u64 \<Rightarrow> u64 \<Rightarrow> 'a kmem_scheme \<Rightarrow> u64 \<times> 'a kmem_scheme" where
  "init_memory_map_loop 0 i p TotalMem s = (TotalMem, s)"
| "init_memory_map_loop (Suc left) i p TotalMem s =
     (let en = e820_at (ram s) p;
          s1 = printk_color ORANGE BLACK
                 (''Address:0x%016lx'' @ [CHR 0x09] @ ''Length:0x%016lx'' @ [CHR 0x09]
                  @ ''Type:0x%x\<newline>'')
                 [VNum (e_address en), VNum (e_length en), vnum (e_type en)] s;
          TotalMem' = (if e_type en = 1 then TotalMem + e_length en else TotalMem);
          s2 = s1\<lparr>e820 := (e820 s1)(i := en), e820_length := of_nat i + 1\<rparr>;
          p' = p + 20;
          nxt = e820_at (ram s2) p'
      in if e_type nxt > 4 \<or> e_length nxt = 0 then (TotalMem', s2)
         else init_memory_map_loop left (Suc i) p' TotalMem' s2)"

definition region_start :: "E820 \<Rightarrow> u64" where
  "region_start e = PAGE_2M_ALIGN (e_address e)"

definition region_end :: "E820 \<Rightarrow> u64" where
  "region_end e = push_bit PAGE_2M_SHIFT (drop_bit PAGE_2M_SHIFT (e_address e + e_length e))"

text \<open>The number of whole 2M pages an entry contributes (0 for the skipped entries).\<close>

definition region_pages :: "E820 \<Rightarrow> u64" where
  "region_pages e =
     (if e_type e \<noteq> 1 then 0
      else if region_end e \<le> region_start e then 0
      else drop_bit PAGE_2M_SHIFT (region_end e - region_start e))"

definition count_pages :: "'a kmem_scheme \<Rightarrow> u64" where
  "count_pages s = fold (\<lambda>i n. n + region_pages (e820 s i)) [0..<unat (e820_length s)] 0"

definition init_memory_map :: "'a kmem_scheme \<Rightarrow> 'a kmem_scheme" where
  "init_memory_map s =
     (let s0 = s\<lparr>e820_length := 0\<rparr>;
          (TotalMem, s1) = init_memory_map_loop 32 0 E820_TABLE 0 s0;
          s2 = printk_color ORANGE BLACK ''OS Can Used Total RAM: 0x%016lx = %lu MB\<newline>''
                 [VNum TotalMem, VNum (TotalMem div (1024 * 1024))] s1;
          pages = count_pages s2
      in printk_color YELLOW BLACK ''OS Can Used Total 2M PAGEs: 0x%08lx = %lu\<newline>''
           [VNum pages, VNum pages] s2)"

section \<open>The free page list\<close>

text \<open>The first usable entry that is long enough for the page structures.\<close>

definition place_pages :: "u64 \<Rightarrow> 'a kmem_scheme \<Rightarrow> nat option" where
  "place_pages page_count s =
     scan (\<lambda>i. e_type (e820 s i) = 1 \<and>
               (e_address (e820 s i) + e_length (e820 s i)) - e_address (e820 s i)
                 \<ge> page_count * sizeof_Page)
          0 (unat (e820_length s))"

text \<open>One iteration of the loop over \<open>j\<close>: the page structure with index \<open>page_index\<close> is
  filled in and appended to the list. The loop state is \<open>(page_index, current, state)\<close>.\<close>

definition add_page :: "u64 \<Rightarrow> u64 \<Rightarrow> u64 \<times> u64 \<times> 'a kmem_scheme \<Rightarrow> u64 \<times> u64 \<times> 'a kmem_scheme" where
  "add_page pages j = (\<lambda>(page_index, current, s).
     let page = pages + page_index * sizeof_Page;
         s1 = s\<lparr>ram := set_page_next page 0 (set_ref_count page 0 (set_phy_addr page j (ram s)))\<rparr>;
         s2 = (if free_pages_list s1 = 0 then s1\<lparr>free_pages_list := page\<rparr>
               else s1\<lparr>ram := set_page_next current page (ram s1)\<rparr>)
     in (page_index + 1, page, s2\<lparr>total_free_pages := total_free_pages s2 + 1\<rparr>))"

text \<open>\<open>for (j = start; j < end; j += PAGE_2M_SIZE)\<close>: both bounds are multiples of 2M, so the
  loop visits \<open>start + k * 2M\<close> for each \<open>k\<close> below the page count of the region.\<close>

definition add_region :: "u64 \<Rightarrow> E820 \<Rightarrow> u64 \<times> u64 \<times> 'a kmem_scheme \<Rightarrow> u64 \<times> u64 \<times> 'a kmem_scheme" where
  "add_region pages e =
     fold (\<lambda>k. add_page pages (region_start e + of_nat k * PAGE_2M_SIZE))
       [0..<unat (region_pages e)]"

definition max_usable_end :: "'a kmem_scheme \<Rightarrow> u64" where
  "max_usable_end s =
     fold (\<lambda>i acc. let e = e820 s i in
         if e_type e = 1 \<and> e_address e + e_length e > acc then e_address e + e_length e else acc)
       [0..<unat (e820_length s)] 0"

text \<open>The heap range and its checks, from \<open>first_page\<close> on.\<close>

definition init_heap_range :: "'a kmem_scheme \<Rightarrow> 'a kmem_scheme" where
  "init_heap_range s =
     (let first_page = free_pages_list s in
      if first_page = 0 then
        printk_color RED BLACK ''No free pages available for heap!\<newline>'' [] s
      else
        let s1 = s\<lparr>kernel_heap_start := phy_addr (ram s) first_page,
                   kernel_heap_end := max_usable_end s\<rparr>;
            small = kernel_heap_end s1 < 128 * 1024 * 1024;
            heap_size = (if small then 64 * 1024 * 1024 else 128 * 1024 * 1024);
            s2 = (if small then printk_color RED BLACK
                    ''Error: Not enough memory for kernel heap!\<newline>'' [] s1 else s1)
        in if small \<and> kernel_heap_end s2 < heap_size then
             printk_color RED BLACK ''Fatal: Still not enough memory!\<newline>'' [] s2
           else
             let s3 = s2\<lparr>kernel_heap_start := PAGE_2M_ALIGN (kernel_heap_start s2)\<rparr> in
             if kernel_heap_start s3 \<ge> kernel_heap_end s3 then
               printk_color RED BLACK ''Error: Invalid kernel heap range!\<newline>'' [] s3
             else
               (printk_color BLUE BLACK ''=== Page Management Initialization Complete ===\<newline>'' []
               \<circ> printk_color GREEN BLACK ''Kernel heap (virt): 0x%016lx - 0x%016lx\<newline>''
                   [VNum (Phy_To_Virt (kernel_heap_start s3)), VNum (Phy_To_Virt (kernel_heap_end s3))]
               \<circ> printk_color GREEN BLACK ''Kernel heap (phys): 0x%016lx - 0x%016lx\<newline>''
                   [VNum (kernel_heap_start s3), VNum (kernel_heap_end s3)]
               \<circ> printk_color GREEN BLACK ''Kernel heap size: %lu MB\<newline>''
                   [VNum (heap_size div (1024 * 1024))]
               \<circ> printk_color GREEN BLACK ''Total free 2M pages: %lu\<newline>''
                   [VNum (total_free_pages s3)]) s3)"

text \<open>The structures go to the start of that entry; the result is their address, or 0.\<close>

definition place_structs :: "u64 \<Rightarrow> 'a kmem_scheme \<Rightarrow> u64 \<times> 'a kmem_scheme" where
  "place_structs page_count s =
     (case place_pages page_count s of
        None \<Rightarrow> (0, s)
      | Some i \<Rightarrow>
          let pages = Phy_To_Virt (e_address (e820 s i));
              s1 = s\<lparr>ram := memset pages 0 (unat (page_count * sizeof_Page)) (ram s),
                     pages_struct := pages\<rparr>
          in (pages, malloc_debug ''Page structures allocated at 0x%016lx, size: %lu bytes\<newline>''
                       [VNum pages, VNum (page_count * sizeof_Page)] s1))"

definition init_page :: "'a kmem_scheme \<Rightarrow> 'a kmem_scheme" where
  "init_page s =
     (let s0 = printk_color BLUE BLACK ''=== Page Management Initialization Start ===\<newline>'' [] s;
          page_count = count_pages s0;
          (pages, s1) = place_structs page_count s0
      in if pages = 0 then
           printk_color RED BLACK ''Failed to allocate memory for page structures!\<newline>'' [] s1
         else
           let (_, _, s2) = fold (\<lambda>i. add_region pages (e820 s1 i))
                              [0..<unat (e820_length s1)] (0, 0, s1)
           in init_heap_range s2)"

definition alloc_page :: "'a kmem_scheme \<Rightarrow> u64 \<times> 'a kmem_scheme" where
  "alloc_page s =
     (if free_pages_list s = 0 then
        (0, printk_color RED BLACK ''Out of memory! No free pages available.\<newline>'' [] s)
      else
        let page = free_pages_list s;
            s1 = s\<lparr>free_pages_list := page_next (ram s) page\<rparr>;
            s2 = s1\<lparr>ram := set_ref_count page 1 (set_page_next page 0 (ram s1)),
                   total_free_pages := total_free_pages s1 - 1\<rparr>;
            pa = phy_addr (ram s2) page;
            s3 = (if pa AND (PAGE_2M_SIZE - 1) \<noteq> 0 then
                    printk_color YELLOW BLACK ''Warning: Page not 2M aligned: 0x%lx\<newline>''
                      [VNum pa] s2
                  else s2);
            s4 = s3\<lparr>ram := memset (Phy_To_Virt pa) 0 (unat PAGE_2M_SIZE) (ram s3)\<rparr>
        in (page, malloc_debug ''Allocated 2M page at phys 0x%lx, virt 0x%lx\<newline>''
                    [VNum (phy_addr (ram s4) page), VNum (Phy_To_Virt (phy_addr (ram s4) page))] s4))"

text \<open>\<open>ref_count\<close> is unsigned, so the test \<open>ref_count <= 0\<close> is a test for 0.\<close>

definition free_page :: "u64 \<Rightarrow> 'a kmem_scheme \<Rightarrow> 'a kmem_scheme" where
  "free_page page s =
     (if page = 0 then malloc_debug ''free_page: null pointer\<newline>'' [] s
      else
        let s1 = s\<lparr>ram := set_ref_count page (ref_count (ram s) page - 1) (ram s)\<rparr> in
        if ref_count (ram s1) page \<le> 0 then
          let s2 = s1\<lparr>ram := set_page_next page (free_pages_list s1) (ram s1),
                      free_pages_list := page,
                      total_free_pages := total_free_pages s1 + 1\<rparr>
          in malloc_debug ''Freed 2M page at phys 0x%lx\<newline>'' [VNum (phy_addr (ram s2) page)] s2
        else s1)"

text \<open>The linker's symbols \<open>__start_code\<close>, \<open>__end_code\<close>, \<open>__end_data\<close>, \<open>__end_brk\<close> are an argument.\<close>

definition init_memory :: "u64 \<times> u64 \<times> u64 \<times> u64 \<Rightarrow> 'a kmem_scheme \<Rightarrow> 'a kmem_scheme" where
  "init_memory syms s =
     (let (sc, ec, ed, eb) = syms;
          s0 = printk_color BLUE BLACK ''=== Memory Initialization Start ===\<newline>'' [] s;
          s1 = s0\<lparr>start_code := sc, end_code := ec, end_data := ed, end_brk := eb\<rparr>;
          s2 = init_memory_map s1;
          s3 = printk_color BLUE BLACK ''=== Memory Initialization Complete ===\<newline>'' [] s2
      in init_page s3)"

section \<open>What the logging calls keep\<close>

lemma log_keeps_kmem [simp, machine_simps]:
  "free_pages_list (printk f as s) = free_pages_list s"
  "total_free_pages (printk f as s) = total_free_pages s"
  "malloc_head (printk f as s) = malloc_head s"
  "kernel_heap_start (printk f as s) = kernel_heap_start s"
  "kernel_heap_end (printk f as s) = kernel_heap_end s"
  "kmem.more (printk f as s) = kmem.more s"
  "free_pages_list (printk_color fg bg f as s) = free_pages_list s"
  "total_free_pages (printk_color fg bg f as s) = total_free_pages s"
  "malloc_head (printk_color fg bg f as s) = malloc_head s"
  "kernel_heap_start (printk_color fg bg f as s) = kernel_heap_start s"
  "kernel_heap_end (printk_color fg bg f as s) = kernel_heap_end s"
  "kmem.more (printk_color fg bg f as s) = kmem.more s"
  "e820 (printk_color fg bg f as s) = e820 s"
  "e820_length (printk_color fg bg f as s) = e820_length s"
  by (simp_all add: printk_def printk_color_def)

lemma malloc_debug_keeps [simp, machine_simps]:
  "ram (malloc_debug f as s) = ram s"
  "machine.more (malloc_debug f as s) = machine.more s"
  "free_pages_list (malloc_debug f as t) = free_pages_list t"
  "total_free_pages (malloc_debug f as t) = total_free_pages t"
  "malloc_head (malloc_debug f as t) = malloc_head t"
  "kernel_heap_start (malloc_debug f as t) = kernel_heap_start t"
  "kernel_heap_end (malloc_debug f as t) = kernel_heap_end t"
  "kmem.more (malloc_debug f as t) = kmem.more t"
  "e820 (malloc_debug f as t) = e820 t"
  "e820_length (malloc_debug f as t) = e820_length t"
  by (simp_all add: malloc_debug_def)

section \<open>Address arithmetic\<close>

lemma page_2M_values [simp]:
  "PAGE_2M_SIZE = 0x200000" "unat PAGE_2M_SIZE = 0x200000" "PAGE_2M_SHIFT = 21"
  by (simp_all add: PAGE_2M_SIZE_def PAGE_2M_SHIFT_def)

lemma page_2M_mask: "x AND PAGE_2M_MASK = push_bit 21 (drop_bit 21 x)"
proof -
  have M: "PAGE_2M_MASK = NOT (mask 21)" by (simp add: PAGE_2M_MASK_def mask_eq_exp_minus_1)
  show ?thesis unfolding M by (rule bit_word_eqI) (auto simp: bit_simps)
qed

lemma unat_floor_2M: "unat (push_bit 21 (drop_bit 21 x) :: u64) = unat x div 2 ^ 21 * 2 ^ 21"
proof -
  have "unat (drop_bit 21 x) = unat x div 2 ^ 21"
    by (simp add: drop_bit_eq_div unat_div_distrib)
  moreover have "unat x div 2 ^ 21 * 2 ^ 21 < 2 ^ 64"
    using unsigned_less [of x] by (intro le_less_trans [OF div_times_less_eq_dividend]) simp
  ultimately show ?thesis by (simp add: push_bit_eq_mult unat_word_ariths mult.commute)
qed

lemma unat_PAGE_2M_ALIGN:
  assumes "unat a + 2 ^ 21 \<le> 2 ^ 64"
  shows "unat (PAGE_2M_ALIGN a) = (unat a + (2 ^ 21 - 1)) div 2 ^ 21 * 2 ^ 21"
proof -
  have "unat (a + 0x1FFFFF) = unat a + 0x1FFFFF"
    using assms by (intro trans [OF unat_plus]) auto
  then show ?thesis
    unfolding PAGE_2M_ALIGN_def page_2M_mask unat_floor_2M by (simp add: add_diff_eq [symmetric])
qed

lemma page_2M_align_props:
  assumes "unat a + 2 ^ 21 \<le> 2 ^ 64"
  shows "unat a \<le> unat (PAGE_2M_ALIGN a)" "2 ^ 21 dvd unat (PAGE_2M_ALIGN a)"
    "unat (PAGE_2M_ALIGN a) < unat a + 2 ^ 21"
proof -
  let ?q = "(unat a + (2 ^ 21 - 1)) div 2 ^ 21"
  have "?q * 2 ^ 21 + (unat a + (2 ^ 21 - 1)) mod 2 ^ 21 = unat a + (2 ^ 21 - 1)"
    by (rule div_mult_mod_eq)
  moreover have "(unat a + (2 ^ 21 - 1)) mod 2 ^ 21 < 2 ^ 21" by simp
  ultimately show "unat a \<le> unat (PAGE_2M_ALIGN a)" "unat (PAGE_2M_ALIGN a) < unat a + 2 ^ 21"
    using unat_PAGE_2M_ALIGN [OF assms] by linarith+
  show "2 ^ 21 dvd unat (PAGE_2M_ALIGN a)" using unat_PAGE_2M_ALIGN [OF assms] by simp
qed

lemma virt_phy_roundtrip [simp]:
  "Virt_To_Phy (Phy_To_Virt a) = a" "Phy_To_Virt (Virt_To_Phy a) = a"
  by (simp_all add: Virt_To_Phy_def Phy_To_Virt_def)

section \<open>Page structures in memory\<close>

lemma unat_off [simp]:
  assumes "unat (p :: u64) + 24 \<le> 2 ^ 64"
  shows "unat (p + 8) = unat p + 8" "unat (p + 16) = unat p + 16"
  using assms by (auto intro!: trans [OF unat_plus])

lemma page_fields_same [simp]:
  assumes "unat p + 24 \<le> 2 ^ 64"
  shows "phy_addr (set_phy_addr p v m) p = v"
    "phy_addr (set_ref_count p c m) p = phy_addr m p"
    "phy_addr (set_page_next p v m) p = phy_addr m p"
    "ref_count (set_phy_addr p v m) p = ref_count m p"
    "ref_count (set_ref_count p c m) p = c"
    "ref_count (set_page_next p v m) p = ref_count m p"
    "page_next (set_phy_addr p v m) p = page_next m p"
    "page_next (set_ref_count p c m) p = page_next m p"
    "page_next (set_page_next p v m) p = v"
  using assms
  by (auto simp: phy_addr_def ref_count_def page_next_def set_phy_addr_def set_ref_count_def
      set_page_next_def load_store_other load_store_same unsigned_ucast_eq
      intro!: bit_word_eqI simp: bit_simps)

lemma page_field_reads:
  assumes "unat p + 24 \<le> 2 ^ 64" "same_on (bytes_at p 24) m m'"
  shows "phy_addr m p = phy_addr m' p" "ref_count m p = ref_count m' p"
    "page_next m p = page_next m' p"
proof -
  have sub: "same_on (bytes_at p 8) m m'" "same_on (bytes_at (p + 8) 4) m m'"
      "same_on (bytes_at (p + 16) 8) m m'"
    using assms by (auto elim!: same_on_subset)
  show "phy_addr m p = phy_addr m' p" "ref_count m p = ref_count m' p"
    "page_next m p = page_next m' p"
    using load_le_cong [OF _ sub(1)] load_le_cong [OF _ sub(2)] load_le_cong [OF _ sub(3)] assms(1)
    by (simp_all add: phy_addr_def ref_count_def page_next_def)
qed

lemma page_sets_same_on:
  assumes "unat p + 24 \<le> 2 ^ 64" "S \<inter> bytes_at p 24 = {}"
  shows "same_on S (set_phy_addr p v m) m" "same_on S (set_ref_count p c m) m"
    "same_on S (set_page_next p v m) m"
proof -
  have "S \<inter> bytes_at p 8 = {}" "S \<inter> bytes_at (p + 8) 4 = {}" "S \<inter> bytes_at (p + 16) 8 = {}"
    using assms by auto
  then show "same_on S (set_phy_addr p v m) m" "same_on S (set_ref_count p c m) m"
    "same_on S (set_page_next p v m) m"
    using assms(1)
    by (auto simp: set_phy_addr_def set_ref_count_def set_page_next_def intro!: same_on_store_le)
qed

section \<open>The free list abstracted\<close>

text \<open>The structures \<open>ps\<close> are linked from \<open>p\<close> to the null pointer.\<close>

primrec page_list :: "memory \<Rightarrow> u64 list \<Rightarrow> u64 \<Rightarrow> bool" where
  "page_list m [] p \<longleftrightarrow> p = 0"
| "page_list m (x # xs) p \<longleftrightarrow> p = x \<and> x \<noteq> 0 \<and> page_list m xs (page_next m x)"

text \<open>The structures do not overlap.\<close>

definition structs_apart :: "u64 list \<Rightarrow> bool" where
  "structs_apart ps \<longleftrightarrow> distinct ps \<and> (\<forall>x \<in> set ps. unat x + 24 \<le> 2 ^ 64) \<and>
     (\<forall>x \<in> set ps. \<forall>y \<in> set ps. x \<noteq> y \<longrightarrow> bytes_at x 24 \<inter> bytes_at y 24 = {})"

text \<open>The 2M of memory behind a page structure.\<close>

definition frame :: "memory \<Rightarrow> u64 \<Rightarrow> nat set" where
  "frame m x = bytes_at (Phy_To_Virt (phy_addr m x)) 0x200000"

text \<open>Frames hold no page structure; the page layer is sound when this layout, the list and
  the counter agree.\<close>

definition page_layout :: "memory \<Rightarrow> u64 list \<Rightarrow> bool" where
  "page_layout m ps \<longleftrightarrow> structs_apart ps \<and>
     (\<forall>x \<in> set ps. unat (Phy_To_Virt (phy_addr m x)) + 0x200000 \<le> 2 ^ 64 \<and>
        (\<forall>y \<in> set ps. frame m x \<inter> bytes_at y 24 = {}))"

definition pages_inv :: "'a kmem_scheme \<Rightarrow> u64 list \<Rightarrow> bool" where
  "pages_inv s ps \<longleftrightarrow> page_list (ram s) ps (free_pages_list s) \<and>
     total_free_pages s = of_nat (length ps) \<and> page_layout (ram s) ps"

lemma page_list_cong:
  "page_list m ps p \<Longrightarrow> (\<And>x. x \<in> set ps \<Longrightarrow> page_next m' x = page_next m x) \<Longrightarrow> page_list m' ps p"
  by (induction ps arbitrary: p) auto

lemma structs_apartD:
  "structs_apart (x # xs) \<Longrightarrow> unat x + 24 \<le> 2 ^ 64"
  "structs_apart (x # xs) \<Longrightarrow> structs_apart xs"
  "structs_apart (x # xs) \<Longrightarrow> x \<notin> set xs"
  "structs_apart (x # xs) \<Longrightarrow> y \<in> set xs \<Longrightarrow> bytes_at y 24 \<inter> bytes_at x 24 = {}"
  "structs_apart xs \<Longrightarrow> y \<in> set xs \<Longrightarrow> unat y + 24 \<le> 2 ^ 64"
proof -
  assume a: "structs_apart (x # xs)" and y: "y \<in> set xs"
  then have "y \<noteq> x" by (auto simp: structs_apart_def)
  then show "bytes_at y 24 \<inter> bytes_at x 24 = {}"
    using a y unfolding structs_apart_def by (meson list.set_intros)
qed (auto simp: structs_apart_def)

text \<open>The memory after \<open>alloc_page\<close>: the head's link and count, then the zeroed frame.\<close>

lemma alloc_page_head:
  assumes inv: "pages_inv s (x # xs)"
  shows "fst (alloc_page s) = x"
    and "free_pages_list (snd (alloc_page s)) = page_next (ram s) x"
    and "total_free_pages (snd (alloc_page s)) = of_nat (length xs)"
    and "ram (snd (alloc_page s)) =
      filled (Phy_To_Virt (phy_addr (ram s) x)) 0 0x200000
        (set_ref_count x 1 (set_page_next x 0 (ram s)))"
proof -
  have x: "free_pages_list s = x" "x \<noteq> 0" "unat x + 24 \<le> 2 ^ 64"
    using inv structs_apartD(1) by (auto simp: pages_inv_def page_layout_def)
  have b: "unat (Phy_To_Virt (phy_addr (ram s) x)) + 0x200000 \<le> 2 ^ 64"
    using inv by (simp add: pages_inv_def page_layout_def)
  have pa: "phy_addr (set_ref_count x 1 (set_page_next x 0 (ram s))) x = phy_addr (ram s) x"
    using x by simp
  show "fst (alloc_page s) = x" using x by (simp add: alloc_page_def Let_def)
  show "free_pages_list (snd (alloc_page s)) = page_next (ram s) x"
    using x by (simp add: alloc_page_def Let_def)
  show "total_free_pages (snd (alloc_page s)) = of_nat (length xs)"
    using x inv by (simp add: alloc_page_def Let_def pages_inv_def)
  show "ram (snd (alloc_page s)) =
      filled (Phy_To_Virt (phy_addr (ram s) x)) 0 0x200000
        (set_ref_count x 1 (set_page_next x 0 (ram s)))"
    using x pa memset_filled [OF b] by (simp add: alloc_page_def Let_def)
qed

lemma filled_same_on: "S \<inter> bytes_at a n = {} \<Longrightarrow> same_on S (filled a c n m) m"
  by (auto simp: same_on_def filled_def)

text \<open>Taking a page changes only its structure and its frame.\<close>

lemma alloc_page_same_on:
  assumes "pages_inv s (x # xs)" "S \<inter> bytes_at x 24 = {}" "S \<inter> frame (ram s) x = {}"
  shows "same_on S (ram (snd (alloc_page s))) (ram s)"
proof -
  have x: "unat x + 24 \<le> 2 ^ 64"
    using assms(1) structs_apartD(1) by (auto simp: pages_inv_def page_layout_def)
  have "same_on S (set_ref_count x 1 (set_page_next x 0 (ram s))) (ram s)"
    using page_sets_same_on [OF x assms(2)] same_on_trans by blast
  moreover have "same_on S (ram (snd (alloc_page s))) (set_ref_count x 1 (set_page_next x 0 (ram s)))"
    unfolding alloc_page_head(4) [OF assms(1)]
    by (rule filled_same_on) (use assms(3) in \<open>simp add: frame_def\<close>)
  ultimately show ?thesis using same_on_trans by blast
qed

lemma alloc_page_tail:
  assumes inv: "pages_inv s (x # xs)" and y: "y \<in> set xs"
  shows "phy_addr (ram (snd (alloc_page s))) y = phy_addr (ram s) y"
    "ref_count (ram (snd (alloc_page s))) y = ref_count (ram s) y"
    "page_next (ram (snd (alloc_page s))) y = page_next (ram s) y"
proof -
  have ap: "structs_apart (x # xs)" using inv by (simp add: pages_inv_def page_layout_def)
  have "same_on (bytes_at y 24) (ram (snd (alloc_page s))) (ram s)"
  proof (rule alloc_page_same_on [OF inv])
    show "bytes_at y 24 \<inter> bytes_at x 24 = {}" by (rule structs_apartD(4) [OF ap y])
    show "bytes_at y 24 \<inter> frame (ram s) x = {}" using inv y by (auto simp: pages_inv_def page_layout_def)
  qed
  then show "phy_addr (ram (snd (alloc_page s))) y = phy_addr (ram s) y"
    "ref_count (ram (snd (alloc_page s))) y = ref_count (ram s) y"
    "page_next (ram (snd (alloc_page s))) y = page_next (ram s) y"
    using page_field_reads structs_apartD(5) [OF structs_apartD(2) [OF ap] y] by blast+
qed

lemma alloc_page_inv:
  assumes "pages_inv s (x # xs)"
  shows "pages_inv (snd (alloc_page s)) xs"
proof -
  let ?m = "ram (snd (alloc_page s))"
  note same = alloc_page_tail [OF assms]
  have l: "page_list (ram s) xs (page_next (ram s) x)" using assms by (simp add: pages_inv_def)
  have "page_list ?m xs (page_next (ram s) x)"
    by (rule page_list_cong [OF l]) (rule same)
  moreover have "structs_apart xs"
    using assms structs_apartD(2) by (auto simp: pages_inv_def page_layout_def)
  ultimately show ?thesis
    using assms same alloc_page_head [OF assms] by (simp add: pages_inv_def page_layout_def frame_def)
qed

lemma page_layout_cong:
  "page_layout m ps \<Longrightarrow> (\<And>x. x \<in> set ps \<Longrightarrow> phy_addr m' x = phy_addr m x) \<Longrightarrow> page_layout m' ps"
  by (simp add: page_layout_def frame_def)

text \<open>Putting a page back.\<close>

lemma free_page_ref:
  assumes "x \<noteq> 0" "unat x + 24 \<le> 2 ^ 64" "ref_count (ram s) x = 1"
  shows "ram (free_page x s) = set_page_next x (free_pages_list s) (set_ref_count x 0 (ram s))"
    "free_pages_list (free_page x s) = x" "total_free_pages (free_page x s) = total_free_pages s + 1"
  using assms by (simp_all add: free_page_def Let_def)

lemma free_page_inv:
  assumes inv: "pages_inv s ps" and lay: "page_layout (ram s) (x # ps)"
    and x: "x \<noteq> 0" "ref_count (ram s) x = 1"
  shows "pages_inv (free_page x s) (x # ps)"
proof -
  let ?m = "ram (free_page x s)"
  have ap: "structs_apart (x # ps)" using lay by (simp add: page_layout_def)
  note x24 = structs_apartD(1) [OF ap]
  note fr = free_page_ref [OF x(1) x24 x(2)]
  have same: "phy_addr ?m y = phy_addr (ram s) y \<and> page_next ?m y = page_next (ram s) y"
    if y: "y \<in> set ps" for y
  proof -
    note apart = structs_apartD(4) [OF ap y]
    have "same_on (bytes_at y 24) ?m (ram s)"
      unfolding fr(1) using page_sets_same_on [OF x24 apart] same_on_trans by blast
    then show ?thesis
      using page_field_reads structs_apartD(5) [OF structs_apartD(2) [OF ap] y] by blast
  qed
  have "page_list ?m ps (free_pages_list s)"
    using inv same by (auto simp: pages_inv_def intro: page_list_cong)
  moreover have "page_next ?m x = free_pages_list s" "phy_addr ?m x = phy_addr (ram s) x"
    unfolding fr(1) using x24 by simp_all
  moreover have "page_layout ?m (x # ps)"
    using lay by (rule page_layout_cong) (use same calculation in auto)
  ultimately show ?thesis using inv fr x(1) by (simp add: pages_inv_def)
qed

text \<open>A second \<open>free_page\<close> wraps the count and leaves the list alone.\<close>

lemma free_page_again:
  assumes inv: "pages_inv s ps" and x: "x \<in> set ps" "x \<noteq> 0" "ref_count (ram s) x = 0"
  shows "pages_inv (free_page x s) ps" "ref_count (ram (free_page x s)) x = 0xFFFFFFFF"
proof -
  have ap: "structs_apart ps" using inv by (simp add: pages_inv_def page_layout_def)
  note x24 = structs_apartD(5) [OF ap x(1)]
  have fp: "free_page x s = s\<lparr>ram := set_ref_count x (- 1) (ram s)\<rparr>"
    using x x24 by (simp add: free_page_def Let_def)
  have same: "phy_addr (ram (free_page x s)) y = phy_addr (ram s) y
      \<and> page_next (ram (free_page x s)) y = page_next (ram s) y" if y: "y \<in> set ps" for y
  proof (cases "y = x")
    case True
    then show ?thesis using x24 fp by simp
  next
    case False
    then have "bytes_at y 24 \<inter> bytes_at x 24 = {}"
      using ap x(1) y unfolding structs_apart_def by blast
    then show ?thesis
      using page_field_reads [OF structs_apartD(5) [OF ap y]] page_sets_same_on [OF x24] fp by simp
  qed
  show "pages_inv (free_page x s) ps"
    using inv same fp by (auto simp: pages_inv_def intro: page_list_cong page_layout_cong)
  show "ref_count (ram (free_page x s)) x = 0xFFFFFFFF" using fp x24 by simp
qed

section \<open>The pages of the memory map\<close>

definition page_addrs :: "E820 \<Rightarrow> u64 list" where
  "page_addrs e = map (\<lambda>k. region_start e + of_nat k * PAGE_2M_SIZE) [0..<unat (region_pages e)]"

definition usable_pages :: "'a kmem_scheme \<Rightarrow> u64 list" where
  "usable_pages s = concat (map (\<lambda>i. page_addrs (e820 s i)) [0..<unat (e820_length s)])"

text \<open>The entry describes memory below the top of the address space.\<close>

definition sane_entry :: "E820 \<Rightarrow> bool" where
  "sane_entry e \<longleftrightarrow> unat (e_address e) + unat (e_length e) + 2 ^ 21 \<le> 2 ^ 64"

lemma region_bounds:
  assumes "sane_entry e"
  shows "unat (region_end e) \<le> unat (e_address e) + unat (e_length e)" "2 ^ 21 dvd unat (region_end e)"
    "unat (e_address e) \<le> unat (region_start e)" "2 ^ 21 dvd unat (region_start e)"
proof -
  have "unat (e_address e + e_length e) = unat (e_address e) + unat (e_length e)"
    using assms by (intro unat_plus) (simp add: sane_entry_def)
  then have "unat (region_end e) = (unat (e_address e) + unat (e_length e)) div 2 ^ 21 * 2 ^ 21"
    using unat_floor_2M [of "e_address e + e_length e"] by (simp add: region_end_def)
  then show "unat (region_end e) \<le> unat (e_address e) + unat (e_length e)" "2 ^ 21 dvd unat (region_end e)"
    by (simp_all add: div_times_less_eq_dividend)
  show "unat (e_address e) \<le> unat (region_start e)" "2 ^ 21 dvd unat (region_start e)"
    using page_2M_align_props [of "e_address e"] assms by (auto simp: region_start_def sane_entry_def)
qed

lemma unat_region_pages:
  assumes "0 < unat (region_pages e)" "sane_entry e"
  shows "unat (region_start e) + unat (region_pages e) * 2 ^ 21 = unat (region_end e)"
proof -
  have lt: "region_start e < region_end e" and
    rp: "region_pages e = drop_bit 21 (region_end e - region_start e)"
    using assms by (auto simp: region_pages_def split: if_splits)
  have "unat (region_end e - region_start e) = unat (region_end e) - unat (region_start e)"
    using lt by (intro unat_sub) simp
  then have "unat (region_pages e) = (unat (region_end e) - unat (region_start e)) div 2 ^ 21"
    by (simp add: rp drop_bit_eq_div unat_div_distrib)
  moreover have "2 ^ 21 dvd unat (region_end e) - unat (region_start e)"
    using region_bounds [OF assms(2)] by (intro dvd_diff_nat)
  ultimately show ?thesis using lt by (simp add: word_less_nat_alt)
qed

lemma page_addrs_in_region:
  assumes "sane_entry e" "j \<in> set (page_addrs e)"
  shows "e_type e = 1" "2 ^ 21 dvd unat j" "unat (e_address e) \<le> unat j"
    "unat j + 2 ^ 21 \<le> unat (e_address e) + unat (e_length e)"
proof -
  obtain k where k: "k < unat (region_pages e)" and j: "j = region_start e + of_nat k * 0x200000"
    using assms(2) by (auto simp: page_addrs_def)
  have pos: "0 < unat (region_pages e)" using k by simp
  have top: "unat (region_start e) + unat (region_pages e) * 2 ^ 21 = unat (region_end e)"
    by (rule unat_region_pages [OF pos assms(1)])
  have km: "k * 2 ^ 21 + 2 ^ 21 \<le> unat (region_pages e) * 2 ^ 21"
    using k mult_le_mono1 [of "Suc k" _ "2 ^ 21"] by simp
  have endlt: "unat (region_end e) < 2 ^ 64" using unsigned_less [of "region_end e"] by simp
  have "unat (of_nat k * 0x200000 :: u64) = k * 2 ^ 21"
    using km top endlt by (simp add: unat_word_ariths unat_of_nat mod_mult_left_eq)
  then have uj: "unat j = unat (region_start e) + k * 2 ^ 21"
    unfolding j using km top endlt by (subst unat_plus) auto
  show "e_type e = 1" using pos by (simp add: region_pages_def split: if_splits)
  show "2 ^ 21 dvd unat j" using uj region_bounds(4) [OF assms(1)] by (simp add: dvd_add)
  show "unat (e_address e) \<le> unat j" using uj region_bounds(3) [OF assms(1)] by simp
  show "unat j + 2 ^ 21 \<le> unat (e_address e) + unat (e_length e)"
    using uj km top region_bounds(1) [OF assms(1)] by simp
qed

section \<open>Building the list\<close>

definition paddr :: "u64 \<Rightarrow> nat \<Rightarrow> u64" where
  "paddr pages k = pages + of_nat k * sizeof_Page"

definition built :: "u64 \<Rightarrow> u64 list \<Rightarrow> u64 \<times> u64 \<times> 'a kmem_scheme \<Rightarrow> bool" where
  "built pages js = (\<lambda>(page_index, current, s).
     page_index = of_nat (length js) \<and>
     (js \<noteq> [] \<longrightarrow> current = paddr pages (length js - 1)) \<and>
     page_list (ram s) (map (paddr pages) [0..<length js]) (free_pages_list s) \<and>
     (\<forall>i < length js. phy_addr (ram s) (paddr pages i) = js ! i \<and>
        ref_count (ram s) (paddr pages i) = 0) \<and>
     total_free_pages s = of_nat (length js))"

lemma unat_paddr:
  assumes "unat pages + 24 * n \<le> 2 ^ 64" "k < n"
  shows "unat (paddr pages k) = unat pages + 24 * k"
proof -
  have "24 * k < 2 ^ 64" using assms by linarith
  then have "unat (of_nat k * 24 :: u64) = 24 * k"
    by (simp add: unat_word_ariths unat_of_nat mod_mult_left_eq mult.commute)
  then show ?thesis
    unfolding paddr_def sizeof_Page_def using assms by (subst unat_plus) auto
qed

lemma paddr_apart:
  assumes "unat pages + 24 * n \<le> 2 ^ 64" "i < n" "k < n" "i \<noteq> k"
  shows "bytes_at (paddr pages i) 24 \<inter> bytes_at (paddr pages k) 24 = {}"
proof -
  have "i < k \<or> k < i" using assms(4) by linarith
  then show ?thesis using unat_paddr [OF assms(1)] assms(2,3) by auto
qed

lemma page_list_extend:
  "page_list m (xs @ [y]) p \<Longrightarrow> (\<And>x. x \<in> set xs \<Longrightarrow> page_next m' x = page_next m x) \<Longrightarrow>
    page_next m' y = z \<Longrightarrow> z \<noteq> 0 \<Longrightarrow> page_next m' z = 0 \<Longrightarrow> page_list m' (xs @ [y, z]) p"
  by (induction xs arbitrary: p) auto

text \<open>The structure that is being filled in, and the ones before it.\<close>

lemma fill_struct:
  fixes j q :: u64 and m :: memory
  assumes "unat q + 24 \<le> 2 ^ 64"
  defines "m1 \<equiv> set_page_next q 0 (set_ref_count q 0 (set_phy_addr q j m))"
  shows "phy_addr m1 q = j" "ref_count m1 q = 0" "page_next m1 q = 0"
    "S \<inter> bytes_at q 24 = {} \<Longrightarrow> same_on S m1 m"
  using assms page_sets_same_on [OF assms(1)] by (simp_all, meson same_on_trans)

lemma struct_reads:
  assumes "unat p + 24 \<le> 2 ^ 64" "same_on (bytes_at p 24) m m'"
  shows "phy_addr m p = phy_addr m' p \<and> ref_count m p = ref_count m' p \<and> page_next m p = page_next m' p"
  using page_field_reads [OF assms] by simp

lemma link_struct:
  assumes c: "unat c + 24 \<le> 2 ^ 64" and p: "unat p + 24 \<le> 2 ^ 64"
    and "p \<noteq> c \<Longrightarrow> bytes_at p 24 \<inter> bytes_at c 24 = {}"
  shows "phy_addr (set_page_next c q m) p = phy_addr m p"
    "ref_count (set_page_next c q m) p = ref_count m p"
    "page_next (set_page_next c q m) p = (if p = c then q else page_next m p)"
  using assms struct_reads [OF p page_sets_same_on(3) [OF c]] by (cases "p = c"; simp)+

lemma add_page_built_Nil:
  assumes "built pages [] st" "unat pages + 24 \<le> 2 ^ 64" "pages \<noteq> 0"
  shows "built pages [j] (add_page pages j st)"
  using assms by (cases st) (simp add: built_def add_page_def Let_def paddr_def)

lemma add_page_built:
  assumes st: "built pages js st" and b: "unat pages + 24 * Suc (length js) \<le> 2 ^ 64"
    and p0: "pages \<noteq> 0"
  shows "built pages (js @ [j]) (add_page pages j st)"
proof (cases js rule: rev_cases)
  case Nil
  then show ?thesis using add_page_built_Nil [of pages st j] assms by simp
next
  case (snoc ks k)
  obtain idx cur s where st': "st = (idx, cur, s)" by (cases st)
  define n where "n = length ks"
  define a where "a = paddr pages"
  define m1 where "m1 = set_page_next (a (Suc n)) 0 (set_ref_count (a (Suc n)) 0
    (set_phy_addr (a (Suc n)) j (ram s)))"
  define m2 where "m2 = set_page_next (a n) (a (Suc n)) m1"
  have len: "length js = Suc n" by (simp add: snoc n_def)
  have bound: "unat (a i) + 24 \<le> 2 ^ 64" if "i \<le> Suc n" for i
    using unat_paddr [OF b, of i] that b len by (simp add: a_def)
  have nz: "a i \<noteq> 0" if "i \<le> Suc n" for i
    using unat_paddr [OF b, of i] that p0 len by (intro notI) (simp add: a_def unat_eq_zero)
  have apart: "bytes_at (a i) 24 \<inter> bytes_at (a l) 24 = {}" if "i \<le> Suc n" "l \<le> Suc n" "i \<noteq> l" for i l
    unfolding a_def by (rule paddr_apart [OF b]) (use that len in auto)
  have inj: "a i = a l \<longleftrightarrow> i = l" if "i \<le> Suc n" "l \<le> Suc n" for i l
    using apart [OF that] bound [OF that(1)] by (cases "i = l") auto
  have pl: "page_list (ram s) (map a [0..<Suc n]) (free_pages_list s)"
    using st len by (simp only: st' built_def a_def) simp
  then have fl: "free_pages_list s \<noteq> 0" by (simp add: upt_rec nz del: upt_Suc)
  have ap: "add_page pages j st = (idx + 1, a (Suc n),
      s\<lparr>ram := m2, total_free_pages := total_free_pages s + 1\<rparr>)"
    using st fl len snoc by (simp add: st' add_page_def Let_def built_def m2_def m1_def a_def paddr_def)
  have m1: "phy_addr m1 (a i) = (if i = Suc n then j else phy_addr (ram s) (a i))
      \<and> ref_count m1 (a i) = (if i = Suc n then 0 else ref_count (ram s) (a i))
      \<and> page_next m1 (a i) = (if i = Suc n then 0 else page_next (ram s) (a i))" if "i \<le> Suc n" for i
    using fill_struct [OF bound [OF le_refl]] struct_reads [OF bound [OF that]] apart [OF that le_refl]
    unfolding m1_def by (cases "i = Suc n") auto
  have m2: "phy_addr m2 (a i) = phy_addr m1 (a i)" "ref_count m2 (a i) = ref_count m1 (a i)"
      "page_next m2 (a i) = (if i = n then a (Suc n) else page_next m1 (a i))" if i: "i \<le> Suc n" for i
    unfolding m2_def using link_struct [of "a n" "a i"] bound i apart [of i n] inj [of i n] by auto
  have "page_list m2 (map a [0..<n] @ [a n, a (Suc n)]) (free_pages_list s)"
    by (rule page_list_extend [where m = "ram s"]) (use pl m1 m2 nz in auto)
  moreover have "\<forall>i < Suc (Suc n). phy_addr m2 (a i) = (js @ [j]) ! i \<and> ref_count m2 (a i) = 0"
    using m1 m2 st len by (auto simp: st' built_def a_def nth_append less_Suc_eq)
  ultimately show ?thesis
    unfolding ap using st len by (simp add: st' built_def a_def)
qed

lemma add_region_built:
  assumes "built pages js st" "unat pages + 24 * (length js + n) \<le> 2 ^ 64" "pages \<noteq> 0"
  shows "built pages (js @ map f [0..<n]) (fold (\<lambda>k. add_page pages (f k)) [0..<n] st)"
  using assms(2)
proof (induction n)
  case 0
  then show ?case using assms by simp
next
  case (Suc n)
  then show ?case
    using add_page_built [of pages "js @ map f [0..<n]" _ "f n"] assms(3) by simp
qed

lemma add_regions_built:
  assumes "built pages js st" "pages \<noteq> 0"
    and "unat pages + 24 * (length js + length (concat (map (\<lambda>i. page_addrs (E i)) is))) \<le> 2 ^ 64"
  shows "built pages (js @ concat (map (\<lambda>i. page_addrs (E i)) is))
    (fold (\<lambda>i. add_region pages (E i)) is st)"
  using assms
proof (induction "is" arbitrary: js st)
  case (Cons i "is")
  have "built pages (js @ page_addrs (E i)) (add_region pages (E i) st)"
    unfolding add_region_def page_addrs_def
    by (rule add_region_built) (use Cons.prems in \<open>simp_all add: page_addrs_def\<close>)
  then show ?case using Cons.IH [of "js @ page_addrs (E i)"] Cons.prems by simp
qed simp

lemma init_heap_range_keeps [simp]:
  "ram (init_heap_range s) = ram s" "free_pages_list (init_heap_range s) = free_pages_list s"
  "total_free_pages (init_heap_range s) = total_free_pages s"
  by (simp_all add: init_heap_range_def Let_def)

lemma unat_count:
  "length (concat (map (\<lambda>i. page_addrs (E i)) is)) < 2 ^ 64 \<Longrightarrow>
   fold (\<lambda>i n. n + region_pages (E i)) is 0 = of_nat (length (concat (map (\<lambda>i. page_addrs (E i)) is)))"
proof -
  have "fold (\<lambda>i n. n + region_pages (E i)) is a =
      a + of_nat (length (concat (map (\<lambda>i. page_addrs (E i)) is)))" for a
    by (induction "is" arbitrary: a) (auto simp: page_addrs_def)
  then show ?thesis by simp
qed

text \<open>The state \<open>init_page\<close> starts from, and where it puts the structures.\<close>

definition init_page_pre :: "'a kmem_scheme \<Rightarrow> u64 \<Rightarrow> bool" where
  "init_page_pre s p \<longleftrightarrow> free_pages_list s = 0 \<and> total_free_pages s = 0 \<and> p \<noteq> 0 \<and>
     (\<exists>i. place_pages (count_pages s) s = Some i \<and> p = Phy_To_Virt (e_address (e820 s i))) \<and>
     unat p + 24 * length (usable_pages s) \<le> 2 ^ 64"

lemma place_structs_pre:
  assumes "init_page_pre s p" "s0 = printk_color fg bg f as s"
  shows "fst (place_structs (count_pages s0) s0) = p"
    "free_pages_list (snd (place_structs (count_pages s0) s0)) = 0"
    "total_free_pages (snd (place_structs (count_pages s0) s0)) = 0"
    "e820 (snd (place_structs (count_pages s0) s0)) = e820 s"
    "e820_length (snd (place_structs (count_pages s0) s0)) = e820_length s"
proof -
  have "count_pages s0 = count_pages s" "place_pages c s0 = place_pages c s" for c
    by (simp_all add: assms count_pages_def place_pages_def)
  then show "fst (place_structs (count_pages s0) s0) = p"
    "free_pages_list (snd (place_structs (count_pages s0) s0)) = 0"
    "total_free_pages (snd (place_structs (count_pages s0) s0)) = 0"
    "e820 (snd (place_structs (count_pages s0) s0)) = e820 s"
    "e820_length (snd (place_structs (count_pages s0) s0)) = e820_length s"
    using assms by (auto simp: place_structs_def init_page_pre_def Let_def)
qed

lemma init_page_built:
  assumes pre: "init_page_pre s p"
  defines "n \<equiv> length (usable_pages s)"
  shows "page_list (ram (init_page s)) (map (paddr p) [0..<n]) (free_pages_list (init_page s))"
    and "total_free_pages (init_page s) = of_nat n"
    and "i < n \<Longrightarrow> phy_addr (ram (init_page s)) (paddr p i) = usable_pages s ! i
                \<and> ref_count (ram (init_page s)) (paddr p i) = 0"
proof -
  define s0 where "s0 = printk_color BLUE BLACK ''=== Page Management Initialization Start ===\<newline>'' [] s"
  define s1 where "s1 = snd (place_structs (count_pages s0) s0)"
  define st where "st = fold (\<lambda>i. add_region p (e820 s i)) [0..<unat (e820_length s)] (0, 0, s1)"
  note pl = place_structs_pre [OF pre s0_def, folded s1_def]
  have ip: "init_page s = init_heap_range (snd (snd st))"
    using pl pre by (simp add: init_page_def Let_def s0_def [symmetric] case_prod_unfold
        s1_def [symmetric] st_def init_page_pre_def)
  have "built p [] (0, 0, s1)" using pl by (simp add: built_def)
  then have "built p ([] @ usable_pages s) st"
    unfolding st_def usable_pages_def
    by (rule add_regions_built) (use pre in \<open>simp_all add: init_page_pre_def usable_pages_def\<close>)
  then show "page_list (ram (init_page s)) (map (paddr p) [0..<n]) (free_pages_list (init_page s))"
    and "total_free_pages (init_page s) = of_nat n"
    and "i < n \<Longrightarrow> phy_addr (ram (init_page s)) (paddr p i) = usable_pages s ! i
                \<and> ref_count (ram (init_page s)) (paddr p i) = 0"
    for i
    unfolding ip n_def by (cases st, simp add: built_def)+
qed

section \<open>Properties\<close>

text \<open>After \<open>alloc_page\<close> the page list is the tail of the old one, the counter agrees, and
  \<open>free_page\<close> of the page handed out restores the list: the page layer neither loses nor
  duplicates a page.\<close>

theorem alloc_free_page_roundtrip:
  assumes inv: "pages_inv s (x # xs)"
  shows "fst (alloc_page s) = x \<and> pages_inv (snd (alloc_page s)) xs \<and>
    pages_inv (free_page x (snd (alloc_page s))) (x # xs)"
proof -
  let ?t = "snd (alloc_page s)" and ?m = "set_ref_count x 1 (set_page_next x 0 (ram s))"
  have lay: "page_layout (ram s) (x # xs)" and x0: "x \<noteq> 0" using inv by (simp_all add: pages_inv_def)
  have x: "unat x + 24 \<le> 2 ^ 64" and d: "bytes_at x 24 \<inter> frame (ram s) x = {}"
    using lay structs_apartD(1) by (auto simp: page_layout_def)
  have "same_on (bytes_at x 24) (ram ?t) ?m"
    unfolding alloc_page_head(4) [OF inv] using d by (intro filled_same_on) (simp add: frame_def)
  then have h: "phy_addr (ram ?t) x = phy_addr (ram s) x" "ref_count (ram ?t) x = 1"
    using page_field_reads [OF x] x by simp_all
  have "page_layout (ram ?t) (x # xs)"
    by (rule page_layout_cong [OF lay]) (use h(1) alloc_page_tail(1) [OF inv] in auto)
  then show ?thesis
    using alloc_page_head(1) [OF inv] alloc_page_inv [OF inv] free_page_inv [OF alloc_page_inv [OF inv] _ x0 h(2)]
    by simp
qed

definition one_page :: kmem where
  "one_page = \<lparr>klog = [], ram = set_phy_addr 0xffff800000000000 0x200000 (\<lambda>_. 0),
     e820 = (\<lambda>_. \<lparr>e_address = 0, e_length = 0, e_type = 0\<rparr>), e820_length = 0,
     start_code = 0, end_code = 0, end_data = 0, end_brk = 0, pages_struct = 0xffff800000000000,
     free_pages_list = 0xffff800000000000, total_free_pages = 1,
     kernel_heap_start = 0x200000, kernel_heap_end = 0x400000,
     malloc_head = 0, malloc_total_allocated = 0, malloc_total_freed = 0\<rparr>"

lemma one_page_inv: "pages_inv one_page [0xffff800000000000]"
proof -
  have "load_le 8 (\<lambda>_. 0) (0xffff800000000000 + 16) = 0" by (simp add: eval_nat_numeral)
  then have "page_next (ram one_page) 0xffff800000000000 = 0"
    by (simp add: one_page_def) (simp add: page_next_def)
  moreover have "phy_addr (ram one_page) 0xffff800000000000 = 0x200000" by (simp add: one_page_def)
  ultimately show ?thesis
    by (simp add: pages_inv_def page_layout_def structs_apart_def frame_def Phy_To_Virt_def PAGE_OFFSET_def)
       (simp add: one_page_def)
qed

theorem alloc_free_page_roundtrip_witness:
  "fst (alloc_page one_page) = 0xffff800000000000 \<and> pages_inv (snd (alloc_page one_page)) [] \<and>
   pages_inv (free_page 0xffff800000000000 (snd (alloc_page one_page))) [0xffff800000000000]"
  using alloc_free_page_roundtrip [OF one_page_inv] .

text \<open>A second \<open>free_page\<close> of a page that is already in the free list leaves the list and
  the counter as they are (its reference count wraps to the largest value instead of reaching
  zero again).\<close>

theorem double_free_page_harmless:
  assumes "pages_inv s ps" "x \<in> set ps" "ref_count (ram s) x = 0"
  shows "pages_inv (free_page x s) ps \<and> ref_count (ram (free_page x s)) x = 0xFFFFFFFF"
proof -
  have "x \<noteq> 0" if "page_list m ps p" for m p
    using that assms(2) by (induction ps arbitrary: p) auto
  then have "x \<noteq> 0" using assms(1) by (auto simp: pages_inv_def)
  then show ?thesis using free_page_again [OF assms(1,2) _ assms(3)] by blast
qed

theorem double_free_page_harmless_witness:
  "pages_inv (free_page 0xffff800000000000 one_page) [0xffff800000000000]"
proof -
  have "load_le 4 (\<lambda>_. 0) (0xffff800000000000 + 8) = 0" by (simp add: eval_nat_numeral)
  then have "ref_count (ram one_page) 0xffff800000000000 = 0"
    by (simp add: one_page_def) (simp add: ref_count_def)
  then show ?thesis using double_free_page_harmless [OF one_page_inv] by simp
qed


definition small_map :: kmem where
  "small_map = one_page\<lparr>ram := (\<lambda>_. 0), e820 := (\<lambda>i.
      if i = 0 then \<lparr>e_address = 0, e_length = 0x9F000, e_type = 1\<rparr>
      else \<lparr>e_address = 0x100000, e_length = 0x500000, e_type = 1\<rparr>), e820_length := 2,
    free_pages_list := 0, total_free_pages := 0\<rparr>"

lemma small_map_facts:
  "usable_pages small_map = [0x200000, 0x400000]" "place_pages 2 small_map = Some 0"
  "count_pages small_map = 2" "max_usable_end small_map = 0x600000"
proof -
  have r: "region_start \<lparr>e_address = 0x100000, e_length = 0x500000, e_type = 1\<rparr> = 0x200000"
    "region_pages \<lparr>e_address = 0x100000, e_length = 0x500000, e_type = 1\<rparr> = 2"
    "region_pages \<lparr>e_address = 0, e_length = 0x9F000, e_type = 1\<rparr> = 0"
    by code_simp+
  have l: "[0..<2] = [0, Suc 0]" by (simp add: upt_rec)
  show "usable_pages small_map = [0x200000, 0x400000]"
    by (simp add: usable_pages_def page_addrs_def small_map_def r l)
  show "place_pages 2 small_map = Some 0"
    by (simp add: place_pages_def small_map_def scan.simps sizeof_Page_def)
  show "count_pages small_map = 2" by (simp add: count_pages_def small_map_def r l)
  show "max_usable_end small_map = 0x600000" by (simp add: max_usable_end_def small_map_def l Let_def)
qed

lemma small_map_pre: "init_page_pre small_map 0xffff800000000000"
  unfolding init_page_pre_def small_map_facts
  by (simp add: small_map_facts) (simp add: small_map_def Phy_To_Virt_def PAGE_OFFSET_def)


end
