(* ===== verification/Messages.thy ===== *)
theory Messages
  imports Console Paging
begin

text \<open>
  The log on the screen: which calls of \<open>printk\<close> are defined, and what showing a log keeps.

  \<open>printk\<close> reads its arguments by the directives of the format, so a call is defined only when the
  arguments have the kinds the format asks for. The values do not matter: \<open>kinds_decide\<close> is this
  type discipline, and \<open>msg_ok\<close> the resulting check of one logged call. The messages of
  \<open>init_memory\<close> pass it, and a log that passes it can be shown on any console in order.
\<close>

section \<open>Kinds of arguments\<close>

definition is_str :: "varg \<Rightarrow> bool" where
  "is_str a = (case a of VNum w \<Rightarrow> False | VStr x \<Rightarrow> True)"

definition same_kinds :: "fmt_state \<Rightarrow> fmt_state \<Rightarrow> bool" where
  "same_kinds st t \<longleftrightarrow> map is_str (args st) = map is_str (args t)"

text \<open>Two scans of the same format go the same way.\<close>

abbreviation same_way :: "(fmt_state \<Rightarrow> fmt_state \<Rightarrow> bool) \<Rightarrow> ('r \<times> fmt_state) option \<Rightarrow> ('q \<times> fmt_state) option \<Rightarrow> bool" where
  "same_way R \<equiv> rel_option (\<lambda>(x, st) (y, t). R st t)"

lemma rel_option_bindI:
  "rel_option R x y \<Longrightarrow> (\<And>a b. R a b \<Longrightarrow> rel_option S (f a) (g b)) \<Longrightarrow> rel_option S (Option.bind x f) (Option.bind y g)"
  by (cases x; cases y) auto

lemma kinds_Cons: "map is_str (a # as) = map is_str bs \<longleftrightarrow> (\<exists>b bs'. bs = b # bs' \<and> is_str a = is_str b \<and> map is_str as = map is_str bs')"
  by (cases bs) auto

lemma arg_num_kinds: "same_kinds st t \<Longrightarrow> same_way same_kinds (arg_num st) (arg_num t)"
  by (cases "args st"; cases "args t") (auto simp: same_kinds_def arg_num_def is_str_def split: varg.splits)

lemma arg_str_kinds: "same_kinds st t \<Longrightarrow> same_way same_kinds (arg_str st) (arg_str t)"
  by (cases "args st"; cases "args t") (auto simp: same_kinds_def arg_str_def is_str_def split: varg.splits)

lemma arg_int_kinds: "same_kinds st t \<Longrightarrow> same_way same_kinds (arg_int st) (arg_int t)"
  unfolding arg_int_def option.rel_map
  by (rule option.rel_mono_strong [OF arg_num_kinds]) auto

lemma arg_unsigned_kinds: "same_kinds st t \<Longrightarrow> same_way same_kinds (arg_unsigned q st) (arg_unsigned q' t)"
  unfolding arg_unsigned_def option.rel_map
  by (rule option.rel_mono_strong [OF arg_num_kinds]) auto

lemma emit_kinds [simp]: "same_kinds (emit cs st) t \<longleftrightarrow> same_kinds st t" "same_kinds st (emit cs t) \<longleftrightarrow> same_kinds st t"
  by (simp_all add: same_kinds_def emit_def)

lemma number_defined: "2 \<le> base \<Longrightarrow> base \<le> 36 \<Longrightarrow> \<exists>cs. number w base sz precision type = Some cs"
  unfolding number_def Let_def case_prod_beta by simp

lemma conv_char_kinds: "same_kinds st t \<Longrightarrow> rel_option same_kinds (conv_char fl fw st) (conv_char fl' fw' t)"
  unfolding conv_char_def Let_def case_prod_beta
  by (rule rel_option_bindI [OF arg_num_kinds]) (simp_all add: case_prod_beta)

lemma conv_str_kinds: "same_kinds st t \<Longrightarrow> rel_option same_kinds (conv_str fl fw p st) (conv_str fl' fw' p' t)"
  unfolding conv_str_def Let_def case_prod_beta
  by (rule rel_option_bindI [OF arg_str_kinds]) (simp_all add: case_prod_beta)

lemma conv_number_kinds:
  assumes "same_kinds st t" "2 \<le> base" "base \<le> 36"
  shows "rel_option same_kinds (conv_number q base fl fw p st) (conv_number q' base fl' fw' p' t)"
  unfolding conv_number_def case_prod_beta
proof (rule rel_option_bindI [OF arg_unsigned_kinds [OF assms(1)]])
  fix a b :: "u64 \<times> fmt_state" assume ab: "(case a of (x, st) \<Rightarrow> \<lambda>(y, t). same_kinds st t) b"
  obtain cs ds where "number (fst a) base fw p fl = Some cs" "number (fst b) base fw' p' fl' = Some ds"
    using number_defined [OF assms(2,3)] by blast
  then show "rel_option same_kinds (do { cs \<leftarrow> number (fst a) base fw p fl; Some (emit cs (snd a)) })
      (do { cs \<leftarrow> number (fst b) base fw' p' fl'; Some (emit cs (snd b)) })"
    using ab by (simp add: case_prod_beta)
qed

lemma conv_pointer_kinds: "same_kinds st t \<Longrightarrow> rel_option same_kinds (conv_pointer fl fw p st) (conv_pointer fl' fw' p' t)"
  unfolding conv_pointer_def case_prod_beta
proof (rule rel_option_bindI [OF arg_num_kinds], assumption)
  fix a b :: "u64 \<times> fmt_state" assume ab: "(case a of (x, st) \<Rightarrow> \<lambda>(y, t). same_kinds st t) b"
  have n: "\<exists>cs. number w 16 f p x = Some cs" for w f p x by (rule number_defined) simp_all
  obtain cs ds where "number (fst a) 16 (fst (if fw = -1 then (16, fl OR ZEROPAD) else (fw, fl))) p
        (snd (if fw = -1 then (16, fl OR ZEROPAD) else (fw, fl)) OR SMALL) = Some cs"
      "number (fst b) 16 (fst (if fw' = -1 then (16, fl' OR ZEROPAD) else (fw', fl'))) p'
        (snd (if fw' = -1 then (16, fl' OR ZEROPAD) else (fw', fl')) OR SMALL) = Some ds"
    using n by blast
  then show "rel_option same_kinds
      (let pa = if fw = -1 then (16, fl OR ZEROPAD) else (fw, fl)
       in do { cs \<leftarrow> number (fst a) 16 (fst pa) p (snd pa OR SMALL); Some (emit cs (snd a)) })
      (let pa = if fw' = -1 then (16, fl' OR ZEROPAD) else (fw', fl')
       in do { cs \<leftarrow> number (fst b) 16 (fst pa) p' (snd pa OR SMALL); Some (emit cs (snd b)) })"
    using ab by (simp add: Let_def case_prod_beta)
qed

lemma conv_count_kinds: "same_kinds st t \<Longrightarrow> rel_option same_kinds (conv_count q st) (conv_count q' t)"
  unfolding conv_count_def case_prod_beta
  by (rule rel_option_bindI [OF arg_num_kinds]) (simp_all add: case_prod_beta same_kinds_def)

section \<open>Directives\<close>

text \<open>Both scans also leave the same rest of the format.\<close>

abbreviation same_rest :: "string \<times> fmt_state \<Rightarrow> string \<times> fmt_state \<Rightarrow> bool" where
  "same_rest \<equiv> \<lambda>(r, st) (r', t). r = r' \<and> same_kinds st t"

lemma conversion_kinds:
  assumes "same_kinds st t"
  shows "rel_option same_rest (conversion fl fw p q fmt st) (conversion fl' fw' p' q' fmt t)"
proof (cases fmt)
  case Nil
  then show ?thesis using assms by (simp add: conversion_def)
next
  case (Cons c cs)
  have wrap: "rel_option same_kinds x y \<Longrightarrow> rel_option same_rest (map_option (Pair cs) x) (map_option (Pair cs) y)" for x y
    by (simp add: option.rel_map)
  show ?thesis
    unfolding Cons conversion_def list.case
    by (rule wrap)
      (simp add: assms conv_char_kinds conv_str_kinds conv_number_kinds conv_pointer_kinds conv_count_kinds)
qed

lemma fmt_width_kinds:
  assumes "same_kinds st t"
  shows "rel_option (\<lambda>(w, fl, r, st) (w', fl', r', t). r = r' \<and> same_kinds st t) (fmt_width fmt fl st) (fmt_width fmt fl' t)"
proof (cases fmt)
  case (Cons c cs)
  have "rel_option (\<lambda>(w, fl, r, st) (w', fl', r', t). r = r' \<and> same_kinds st t)
      (map_option (\<lambda>(w, st'). if w < 0 then (- w, fl OR LEFT, cs, st') else (w, fl, cs, st')) (arg_int st))
      (map_option (\<lambda>(w, st'). if w < 0 then (- w, fl' OR LEFT, cs, st') else (w, fl', cs, st')) (arg_int t))"
    using arg_int_kinds [OF assms] unfolding option.rel_map by (rule option.rel_mono_strong) (auto split: if_splits)
  then show ?thesis using assms by (simp add: fmt_width_def Cons case_prod_beta Let_def)
qed (use assms in \<open>simp add: fmt_width_def\<close>)


lemma fmt_precision_kinds:
  assumes "same_kinds st t"
  shows "rel_option (\<lambda>(p, r, st) (p', r', t). r = r' \<and> same_kinds st t) (fmt_precision fmt st) (fmt_precision fmt t)"
proof (cases "\<exists>cs. fmt = CHR ''.'' # cs")
  case True
  then obtain cs where fmt: "fmt = CHR ''.'' # cs" by blast
  let ?R = "\<lambda>(p, r, st) (p', r', t). r = r' \<and> same_kinds st t"
  have clip: "rel_option ?R x y \<Longrightarrow> rel_option ?R (map_option (\<lambda>(p, r). (if p < 0 then 0 else p, r)) x)
      (map_option (\<lambda>(p, r). (if p < 0 then 0 else p, r)) y)" for x y :: "(int \<times> string \<times> fmt_state) option"
    unfolding option.rel_map by (erule option.rel_mono_strong) auto
  have star: "rel_option ?R (map_option (\<lambda>(p, st'). (p, cs', st')) (arg_int st)) (map_option (\<lambda>(p, st'). (p, cs', st')) (arg_int t))" for cs'
    using arg_int_kinds [OF assms] unfolding option.rel_map by (rule option.rel_mono_strong) auto
  show ?thesis
    unfolding fmt_precision_def fmt
    by (simp, rule clip) (use assms star in \<open>auto split: list.splits prod.splits simp: Let_def\<close>)
next
  case False
  then have "fmt_precision fmt x = Some (-1, fmt, x)" for x
    unfolding fmt_precision_def by (auto split: list.splits char.splits bool.splits)
  then show ?thesis using assms by simp
qed

lemma directive_kinds:
  assumes "same_kinds st t"
  shows "rel_option same_rest (directive fmt st) (directive fmt t)"
proof -
  obtain fl f1 where fl: "fmt_flags fmt 0 = (fl, f1)" by fastforce
  show ?thesis
    unfolding directive_def fl Let_def prod.case
  proof (rule rel_option_bindI [OF fmt_width_kinds [OF assms]], clarify)
    fix w fl1 f2 st1 w' fl1' t1
    assume s1: "same_kinds st1 t1"
    show "rel_option same_rest
      (do { (precision, fmt3, st2) \<leftarrow> fmt_precision f2 st1; case fmt_qualifier fmt3 of (q, fmt4) \<Rightarrow> conversion fl1 w precision q fmt4 st2 })
      (do { (precision, fmt3, st2) \<leftarrow> fmt_precision f2 t1; case fmt_qualifier fmt3 of (q, fmt4) \<Rightarrow> conversion fl1' w' precision q fmt4 st2 })"
      by (rule rel_option_bindI [OF fmt_precision_kinds [OF s1]]) (auto simp: conversion_kinds split: prod.splits)
  qed
qed

lemma vprintk_loop_kinds: "same_kinds st t \<Longrightarrow> rel_option same_kinds (vprintk_loop fmt st) (vprintk_loop fmt t)"
proof (induction fmt st arbitrary: t rule: vprintk_loop.induct)
  case (2 c cs st)
  show ?case
  proof (cases "c = CHR ''%''")
    case True
    from directive_kinds [OF "2.prems", of cs] show ?thesis
    proof (cases rule: option.rel_cases)
      case (Some x y)
      obtain r st' t' where "x = (r, st')" "y = (r, t')" "same_kinds st' t'" using Some(3) by (cases x; cases y) auto
      then show ?thesis using Some(1,2) True "2.IH"(2) [of "(r, st')" r st' t'] by simp
    qed (use True in simp)
  qed (use 2 in simp)
qed simp

lemma kinds_decide: "map is_str as = map is_str bs \<Longrightarrow> vprintk fmt as = None \<longleftrightarrow> vprintk fmt bs = None"
proof -
  assume "map is_str as = map is_str bs"
  then have "same_kinds \<lparr>out = [], args = as, stores = []\<rparr> \<lparr>out = [], args = bs, stores = []\<rparr>" by (simp add: same_kinds_def)
  from vprintk_loop_kinds [OF this, of fmt] show ?thesis by (auto simp: vprintk_def rel_option_iff split: option.splits)
qed

section \<open>Well-kinded logs\<close>

text \<open>An argument of the same kind; with it, the check of a logged call is a computation.\<close>

definition sample :: "varg \<Rightarrow> varg" where
  "sample a = (case a of VNum w \<Rightarrow> VNum 0 | VStr x \<Rightarrow> VStr None)"

lemma is_str_sample [simp]: "is_str (sample a) = is_str a"
  by (simp add: is_str_def sample_def split: varg.splits)

definition call_ok :: "string \<Rightarrow> varg list \<Rightarrow> bool" where
  "call_ok fmt as \<longleftrightarrow> vprintk fmt (map sample as) \<noteq> None"

fun msg_ok :: "kmsg \<Rightarrow> bool" where
  "msg_ok (Printk fmt as) = call_ok fmt as"
| "msg_ok (PrintkColor fg bg fmt as) = call_ok fmt as"
| "msg_ok (PrintStr str) = True"

lemma call_ok_defined: "call_ok fmt as \<longleftrightarrow> (\<exists>st. vprintk fmt as = Some st)"
proof -
  have "map is_str (map sample as) = map is_str as" by simp
  from kinds_decide [OF this, of fmt] show ?thesis unfolding call_ok_def by simp
qed

lemma call_ok_plain: "CHR ''%'' \<notin> set fmt \<Longrightarrow> call_ok fmt []"
  by (simp add: call_ok_def vprintk_def vprintk_plain)

definition log_ok :: "'a machine_scheme \<Rightarrow> bool" where
  "log_ok s \<longleftrightarrow> list_all msg_ok (klog s)"

lemma log_ok_print [simp]:
  "log_ok (printk fmt as s) \<longleftrightarrow> log_ok s \<and> call_ok fmt as"
  "log_ok (printk_color fg bg fmt as s) \<longleftrightarrow> log_ok s \<and> call_ok fmt as"
  "log_ok (log_str str s) \<longleftrightarrow> log_ok s"
  by (simp_all add: log_ok_def printk_def printk_color_def log_str_def)

text \<open>The formats of \<open>memory.c\<close> that take arguments.\<close>

lemma memory_calls [simp]:
  "call_ok (''Address:0x%016lx'' @ [CHR 0x09] @ ''Length:0x%016lx'' @ [CHR 0x09] @ ''Type:0x%x\<newline>'') [VNum a, VNum b, VNum c]"
  "call_ok ''OS Can Used Total RAM: 0x%016lx = %lu MB\<newline>'' [VNum a, VNum b]"
  "call_ok ''OS Can Used Total 2M PAGEs: 0x%08lx = %lu\<newline>'' [VNum a, VNum b]"
  "call_ok ''malloc: Page structures allocated at 0x%016lx, size: %lu bytes\<newline>'' [VNum a, VNum b]"
  "call_ok ''Total free 2M pages: %lu\<newline>'' [VNum a]" "call_ok ''Kernel heap size: %lu MB\<newline>'' [VNum a]"
  "call_ok ''Kernel heap (phys): 0x%016lx - 0x%016lx\<newline>'' [VNum a, VNum b]"
  "call_ok ''Kernel heap (virt): 0x%016lx - 0x%016lx\<newline>'' [VNum a, VNum b]"
  unfolding call_ok_def sample_def list.map varg.case by code_simp+

lemma log_ok_update [simp]:
  "log_ok (s\<lparr>ram := m\<rparr>) = log_ok s"
  by (simp add: log_ok_def)

lemma log_ok_kmem [simp]:
  "log_ok (s\<lparr>e820 := x1\<rparr>) = log_ok s" "log_ok (s\<lparr>e820_length := x2\<rparr>) = log_ok s"
  "log_ok (s\<lparr>start_code := x3\<rparr>) = log_ok s" "log_ok (s\<lparr>end_code := x4\<rparr>) = log_ok s"
  "log_ok (s\<lparr>end_data := x5\<rparr>) = log_ok s" "log_ok (s\<lparr>end_brk := x6\<rparr>) = log_ok s"
  "log_ok (s\<lparr>pages_struct := x7\<rparr>) = log_ok s" "log_ok (s\<lparr>free_pages_list := x8\<rparr>) = log_ok s"
  "log_ok (s\<lparr>total_free_pages := x9\<rparr>) = log_ok s" "log_ok (s\<lparr>kernel_heap_start := x10\<rparr>) = log_ok s"
  "log_ok (s\<lparr>kernel_heap_end := x11\<rparr>) = log_ok s"
  by (simp_all add: log_ok_def)

lemma map_loop_log: "log_ok s \<Longrightarrow> log_ok (snd (init_memory_map_loop n i p tot s))"
  by (induction n i p tot s rule: init_memory_map_loop.induct)
    (simp_all add: Let_def memory_calls(1) [simplified])

lemma init_memory_map_log: "log_ok s \<Longrightarrow> log_ok (init_memory_map s)"
  using map_loop_log [of "s\<lparr>e820_length := 0\<rparr>" 32 0 E820_TABLE 0]
  by (simp add: init_memory_map_def Let_def case_prod_beta)

lemma add_region_log: "log_ok (snd (snd x)) \<Longrightarrow> log_ok (snd (snd (add_region pages e x)))"
  unfolding add_region_def
  by (rule fold_invariant [of _ "\<lambda>x. log_ok (snd (snd x))"]) (auto simp: add_page_def Let_def)

lemma place_structs_log: "log_ok s \<Longrightarrow> log_ok (snd (place_structs n s))"
  by (auto simp: place_structs_def malloc_debug_def Let_def split: option.splits)

lemma init_heap_range_log: "log_ok s \<Longrightarrow> log_ok (init_heap_range s)"
  by (simp add: init_heap_range_def Let_def call_ok_plain)

lemma init_page_log: "log_ok s \<Longrightarrow> log_ok (init_page s)"
proof -
  assume s: "log_ok s"
  define s0 where "s0 = printk_color BLUE BLACK ''=== Page Management Initialization Start ===\<newline>'' [] s"
  obtain pages s1 where p: "place_structs (count_pages s0) s0 = (pages, s1)" by fastforce
  have s1: "log_ok s1" using place_structs_log [of s0 "count_pages s0", unfolded p] s by (simp add: s0_def call_ok_plain)
  define x where "x = fold (\<lambda>i. add_region pages (e820 s1 i)) [0..<unat (e820_length s1)] (0, 0, s1)"
  have "log_ok (snd (snd x))"
    unfolding x_def by (rule fold_invariant [of _ "\<lambda>x. log_ok (snd (snd x))"]) (simp_all add: s1 add_region_log)
  then show ?thesis
    using s1 unfolding init_page_def Let_def s0_def [symmetric] p prod.case x_def [symmetric]
    by (simp add: case_prod_beta init_heap_range_log call_ok_plain)
qed

lemma init_memory_log: "log_ok s \<Longrightarrow> log_ok (init_memory syms s)"
  by (simp add: init_memory_def Let_def case_prod_beta init_page_log init_memory_map_log call_ok_plain)

text \<open>A well-kinded log can be shown; the console stays in order and what the client keeps beside it
  is untouched.\<close>

lemma show_msg_defined: "msg_ok m \<Longrightarrow> \<exists>c'. show_msg m c = Some c' \<and> con.keeps c c'"
  by (cases m) (auto simp: call_ok_defined con_printk_def con_printk_color_def print_str_def con_keeps_print_str)

lemma display_defined: "list_all msg_ok ms \<Longrightarrow> \<exists>c'. display ms c = Some c' \<and> con.keeps c c'"
proof (induction ms arbitrary: c)
  case (Cons m ms)
  obtain c1 where c1: "show_msg m c = Some c1" "con.keeps c c1" using show_msg_defined [of m c] Cons.prems by auto
  then show ?case using Cons.IH [of c1] Cons.prems con.keeps_trans [OF c1(2)] by auto
qed simp

section \<open>Properties\<close>



end
