(* ===== verification/Shell.thy ===== *)
theory Shell
  imports Console Lib
begin

text \<open>
  The command shell of \<open>src/src/kernel/shell.c\<close>: a line editor with a command history, and the
  commands \<open>echo\<close>, \<open>help\<close> and \<open>clear\<close>.

  \<open>shell\<close> extends the console by the static variables of the file. Character arrays are byte
  arrays that the string routines of \<open>lib.h\<close> work on; a \<open>char *\<close> into \<open>cmd_buffer\<close> is an
  offset. \<open>None\<close> stands for a string routine that runs past a missing terminator. The lemmas: every
  input returns and keeps the invariant, the editing keys implement an abstract line editor, and
  \<open>parse_arguments\<close> splits a line into its words.
\<close>

section \<open>State\<close>

definition MAX_CMD_LEN :: int where "MAX_CMD_LEN = 128"
definition MAX_ARGS :: nat where "MAX_ARGS = 16"
definition MAX_CMD_HISTORY :: int where "MAX_CMD_HISTORY = 50"
definition PROMPT :: string where "PROMPT = ''> ''"

abbreviation (input) KEY_UP :: char where "KEY_UP \<equiv> CHR 0x01"
abbreviation (input) KEY_DOWN :: char where "KEY_DOWN \<equiv> CHR 0x02"
abbreviation (input) KEY_LEFT :: char where "KEY_LEFT \<equiv> CHR 0x03"
abbreviation (input) KEY_RIGHT :: char where "KEY_RIGHT \<equiv> CHR 0x04"
abbreviation (input) KEY_HOME :: char where "KEY_HOME \<equiv> CHR 0x05"
abbreviation (input) KEY_END :: char where "KEY_END \<equiv> CHR 0x06"
abbreviation (input) KEY_DEL :: char where "KEY_DEL \<equiv> CHR 0x07"

record shell = console +
  cmd_history :: "cptr array"
  cmd_history_count :: int
  history_current :: int
  history_saved_current :: int
  cmd_buffer :: cptr
  cmd_pos :: int
  cursor_pos :: int
  shell_active :: bool
  saved_cmd :: cptr
  saved_cmd_pos :: int

text \<open>The command table; a function pointer is the function's name.\<close>

datatype cmd_func = cmd_echo_f | cmd_help_f | cmd_clear_f

definition commands :: "(string \<times> string \<times> cmd_func) list" where
  "commands = [(''echo'', ''Print arguments'', cmd_echo_f), (''help'', ''Show help'', cmd_help_f),
     (''clear'', ''Clear screen'', cmd_clear_f)]"

text \<open>A string literal in memory, and the characters of a terminated array.\<close>

definition lit :: "string \<Rightarrow> cptr" where
  "lit str = (\<lambda>i. if i < length str then of_char (str ! i) else 0)"

definition chars_at :: "cptr \<Rightarrow> string option" where
  "chars_at p = map_option (\<lambda>n. map (\<lambda>i. char_of (unat (p i))) [0..<n]) (strlen p)"

definition at :: "cptr \<Rightarrow> nat \<Rightarrow> cptr" where
  "at p off = (\<lambda>i. p (off + i))"

definition sprintk :: "string \<Rightarrow> varg list \<Rightarrow> 'a console_scheme \<Rightarrow> 'a console_scheme option" where
  "sprintk fmt as s = map_option snd (con_printk fmt as s)"

text \<open>\<open>printk(fmt, p)\<close> for one string argument.\<close>

definition sprintk_str :: "string \<Rightarrow> cptr \<Rightarrow> 'a console_scheme \<Rightarrow> 'a console_scheme option" where
  "sprintk_str fmt p s = do { x \<leftarrow> chars_at p; sprintk fmt [VStr (Some x)] s }"

section \<open>Commands\<close>

fun echo_loop :: "cptr \<Rightarrow> nat list \<Rightarrow> 'a console_scheme \<Rightarrow> 'a console_scheme option" where
  "echo_loop buf [] s = Some s"
| "echo_loop buf (a # as) s = do {
     s1 \<leftarrow> sprintk_str ''%s'' (at buf a) s;
     s2 \<leftarrow> (if as \<noteq> [] then sprintk '' '' [] s1 else Some s1);
     echo_loop buf as s2
   }"

definition cmd_echo :: "nat list \<Rightarrow> 'a shell_scheme \<Rightarrow> 'a shell_scheme option" where
  "cmd_echo argv s = do { s1 \<leftarrow> echo_loop (cmd_buffer s) (tl argv) s; sprintk ''\<newline>'' [] s1 }"

fun help_loop :: "(string \<times> string \<times> cmd_func) list \<Rightarrow> 'a console_scheme \<Rightarrow> 'a console_scheme option" where
  "help_loop [] s = Some s"
| "help_loop ((name, description, func) # cmds) s = do {
     s1 \<leftarrow> sprintk ''  %-10s - %s\<newline>'' [VStr (Some name), VStr (Some description)] s;
     help_loop cmds s1
   }"

definition cmd_help :: "'a shell_scheme \<Rightarrow> 'a shell_scheme option" where
  "cmd_help s = do { s1 \<leftarrow> sprintk ''Available commands:\<newline>'' [] s; help_loop commands s1 }"

definition cmd_clear :: "'a shell_scheme \<Rightarrow> 'a shell_scheme option" where
  "cmd_clear s = Some (clear_screen s)"

fun run_command :: "cmd_func \<Rightarrow> nat list \<Rightarrow> 'a shell_scheme \<Rightarrow> 'a shell_scheme option" where
  "run_command cmd_echo_f argv s = cmd_echo argv s"
| "run_command cmd_help_f argv s = cmd_help s"
| "run_command cmd_clear_f argv s = cmd_clear s"

section \<open>Command history\<close>

fun shift_history :: "nat list \<Rightarrow> cptr array \<Rightarrow> cptr array option" where
  "shift_history [] h = Some h"
| "shift_history (i # is) h = do { x \<leftarrow> str_copy (h i) (h (i + 1)); shift_history is (h(i := x)) }"

definition history_add :: "cptr \<Rightarrow> 'a shell_scheme \<Rightarrow> 'a shell_scheme option" where
  "history_add cmd s =
     (if cmd 0 = 0 then Some s
      else do {
        same \<leftarrow> (if cmd_history_count s > 0
                 then map_option (\<lambda>r. r = 0) (strcmp (cmd_history s (nat (cmd_history_count s - 1))) cmd)
                 else Some False);
        if same then Some s
        else do {
          s1 \<leftarrow> (if cmd_history_count s \<ge> MAX_CMD_HISTORY then do {
                   h \<leftarrow> shift_history [0..<nat (MAX_CMD_HISTORY - 1)] (cmd_history s);
                   Some (s\<lparr>cmd_history := h, cmd_history_count := MAX_CMD_HISTORY - 1\<rparr>)
                 } else Some s);
          let n = nat (cmd_history_count s1);
          x \<leftarrow> str_copy (cmd_history s1 n) cmd;
          Some (s1\<lparr>cmd_history := (cmd_history s1)(n := x), cmd_history_count := cmd_history_count s1 + 1\<rparr>)
        }
      })"

definition times :: "int \<Rightarrow> ('s \<Rightarrow> 's) \<Rightarrow> 's \<Rightarrow> 's" where
  "times n f s = (f ^^ nat n) s"

definition next_index :: "int \<Rightarrow> 'a shell_scheme \<Rightarrow> int" where
  "next_index direction s =
     (let new_index =
        (if direction = 1
         then (if history_current s < cmd_history_count s - 1 then history_current s + 1 else history_current s)
         else (if history_current s > -1 then history_current s - 1 else history_current s));
          new_index = (if new_index < -1 then -1 else new_index)
      in if new_index \<ge> cmd_history_count s then cmd_history_count s - 1 else new_index)"

text \<open>Replacing the line on the screen and in the buffer.\<close>

definition show_line :: "cptr \<Rightarrow> 'a shell_scheme \<Rightarrow> 'a shell_scheme option" where
  "show_line show_cmd s = do {
     n \<leftarrow> strlen show_cmd;
     let new_len = int n;
     let old_len = cmd_pos s;
     let s1 = times old_len move_cursor_left s;
     x \<leftarrow> str_copy (cmd_buffer s1) show_cmd;
     let s2 = s1\<lparr>cmd_buffer := x, cmd_pos := new_len, cursor_pos := new_len\<rparr>;
     s3 \<leftarrow> sprintk_str ''%s'' (cmd_buffer s2) s2;
     Some (if new_len < old_len
           then times (old_len - new_len) move_cursor_left (times (old_len - new_len) (print_char (CHR '' '')) s3)
           else s3)
   }"

definition history_show :: "int \<Rightarrow> 'a shell_scheme \<Rightarrow> 'a shell_scheme option" where
  "history_show direction s =
     (if cmd_history_count s = 0 then Some s
      else do {
        s1 \<leftarrow> (if history_current s = -1 \<and> direction = 1 then do {
                 x \<leftarrow> str_copy (saved_cmd s) (cmd_buffer s);
                 Some (s\<lparr>saved_cmd := x, saved_cmd_pos := cmd_pos s\<rparr>)
               } else Some s);
        let s2 = s1\<lparr>history_current := next_index direction s1\<rparr>;
        if history_current s2 \<ge> 0 \<and> history_current s2 < cmd_history_count s2
        then show_line (cmd_history s2 (nat (history_current s2))) s2
        else if history_current s2 = -1 then show_line (saved_cmd s2) s2
        else Some s2
      })"

section \<open>Editing\<close>

definition move_cursor_to :: "int \<Rightarrow> 'a shell_scheme \<Rightarrow> 'a shell_scheme" where
  "move_cursor_to new_pos s =
     (let new_pos = (if new_pos < 0 then 0 else new_pos);
          new_pos = (if new_pos > cmd_pos s then cmd_pos s else new_pos);
          steps = new_pos - cursor_pos s;
          s1 = (if steps > 0 then times steps move_cursor_right s
                else if steps < 0 then times (- steps) move_cursor_left s else s)
      in s1\<lparr>cursor_pos := new_pos\<rparr>)"

definition redraw_from_cursor :: "'a shell_scheme \<Rightarrow> 'a shell_scheme option" where
  "redraw_from_cursor s =
     (let chars_to_redraw = cmd_pos s - cursor_pos s
      in do {
        s1 \<leftarrow> (if cursor_pos s < cmd_pos s
               then sprintk_str ''%s'' (at (cmd_buffer s) (nat (cursor_pos s))) s else Some s);
        let old_length = cmd_pos s + 1 - cursor_pos s;
        let s2 = (if chars_to_redraw < old_length
                  then times (old_length - chars_to_redraw) (print_char (CHR '' '')) s1 else s1);
        Some (times (chars_to_redraw + (old_length - chars_to_redraw)) move_cursor_left s2)
      })"

text \<open>The loops that close and open a gap in the buffer.\<close>

definition close_gap :: "nat \<Rightarrow> nat \<Rightarrow> cptr \<Rightarrow> cptr" where
  "close_gap lo hi = fold (\<lambda>i b. b(i := b (i + 1))) [lo..<hi]"

definition open_gap :: "nat \<Rightarrow> nat \<Rightarrow> cptr \<Rightarrow> cptr" where
  "open_gap lo hi = fold (\<lambda>i b. b(i := b (i - 1))) (rev [Suc lo..<Suc hi])"

section \<open>Executing a line\<close>

partial_function (option) parse_from :: "cptr \<Rightarrow> nat \<Rightarrow> nat list \<Rightarrow> bool \<Rightarrow> (cptr \<times> nat list) option" where
  "parse_from buf i argv in_arg =
     (if buf i \<noteq> 0 \<and> length argv < MAX_ARGS - 1 then
        (if buf i = 0x20 \<or> buf i = 0x09 then
           (if in_arg then parse_from (buf(i := 0)) (i + 1) argv False else parse_from buf (i + 1) argv in_arg)
         else if \<not> in_arg then parse_from buf (i + 1) (argv @ [i]) True
         else parse_from buf (i + 1) argv in_arg)
      else Some (buf, argv))"

definition parse_arguments :: "cptr \<Rightarrow> (cptr \<times> nat list) option" where
  "parse_arguments cmdline = parse_from cmdline 0 [] False"

fun find_command :: "cptr \<Rightarrow> (string \<times> string \<times> cmd_func) list \<Rightarrow> cmd_func option option" where
  "find_command arg0 [] = Some None"
| "find_command arg0 ((name, description, func) # cmds) = do {
     r \<leftarrow> strcmp arg0 (lit name);
     if r = 0 then Some (Some func) else find_command arg0 cmds
   }"

definition execute_command :: "'a shell_scheme \<Rightarrow> 'a shell_scheme option" where
  "execute_command s =
     (if cmd_pos s = 0 then Some s
      else do {
        let s1 = s\<lparr>cmd_buffer := (cmd_buffer s)(nat (cmd_pos s) := 0)\<rparr>;
        s2 \<leftarrow> history_add (cmd_buffer s1) s1;
        (buf, argv) \<leftarrow> parse_arguments (cmd_buffer s2);
        let s3 = s2\<lparr>cmd_buffer := buf\<rparr>;
        if argv = [] then Some s3
        else do {
          found \<leftarrow> find_command (at buf (hd argv)) commands;
          s4 \<leftarrow> (case found of
                   Some func \<Rightarrow> run_command func argv s3
                 | None \<Rightarrow> do {
                     t \<leftarrow> sprintk_str ''Unknown command: '%s'\<newline>'' (at buf (hd argv)) s3;
                     sprintk ''Type 'help' for available commands\<newline>'' [] t
                   });
          sprintk PROMPT [] s4
        }
      })"

definition delete_at_cursor :: "'a shell_scheme \<Rightarrow> 'a shell_scheme option" where
  "delete_at_cursor s =
     (if cursor_pos s < cmd_pos s then
        let n = cmd_pos s - 1;
            buf = close_gap (nat (cursor_pos s)) (nat n) (cmd_buffer s)
        in redraw_from_cursor (s\<lparr>cmd_pos := n, cmd_buffer := buf(nat n := 0)\<rparr>)
      else Some s)"

definition process_key :: "char \<Rightarrow> 'a shell_scheme \<Rightarrow> 'a shell_scheme option" where
  "process_key c s =
     (if c = KEY_LEFT then
        Some (if cursor_pos s > 0 then move_cursor_left (s\<lparr>cursor_pos := cursor_pos s - 1\<rparr>) else s)
      else if c = KEY_RIGHT then
        Some (if cursor_pos s < cmd_pos s then move_cursor_right (s\<lparr>cursor_pos := cursor_pos s + 1\<rparr>) else s)
      else if c = KEY_UP then (if cmd_history_count s > 0 then history_show 1 s else Some s)
      else if c = KEY_DOWN then (if cmd_history_count s > 0 then history_show (-1) s else Some s)
      else if c = KEY_HOME then Some (move_cursor_to 0 s)
      else if c = KEY_END then Some (move_cursor_to (cmd_pos s) s)
      else delete_at_cursor s)"

definition process_newline :: "'a shell_scheme \<Rightarrow> 'a shell_scheme option" where
  "process_newline s =
     (if cmd_pos s > 0 then do {
        s1 \<leftarrow> sprintk ''\<newline>'' [] (s\<lparr>cmd_buffer := (cmd_buffer s)(nat (cmd_pos s) := 0)\<rparr>);
        s2 \<leftarrow> execute_command s1;
        Some (s2\<lparr>cmd_pos := 0, cursor_pos := 0\<rparr>)
      }
      else do { s1 \<leftarrow> sprintk ''\<newline>'' [] s; sprintk PROMPT [] s1 })"

definition process_backspace :: "'a shell_scheme \<Rightarrow> 'a shell_scheme option" where
  "process_backspace s =
     (if cursor_pos s > 0 then
        let p = cursor_pos s - 1; n = cmd_pos s - 1;
            buf = (close_gap (nat p) (nat n) (cmd_buffer s))(nat n := 0)
        in redraw_from_cursor (move_cursor_left (s\<lparr>cursor_pos := p, cmd_pos := n, cmd_buffer := buf\<rparr>))
      else Some s)"

definition process_char :: "char \<Rightarrow> 'a shell_scheme \<Rightarrow> 'a shell_scheme option" where
  "process_char c s =
     (if cmd_pos s < MAX_CMD_LEN - 1 \<and> 32 \<le> (of_char c :: nat) \<and> (of_char c :: nat) \<le> 126 then
        let p = cursor_pos s;
            buf = (if p < cmd_pos s then open_gap (nat p) (nat (cmd_pos s)) (cmd_buffer s) else cmd_buffer s);
            n = cmd_pos s + 1;
            s1 = print_char c (s\<lparr>cmd_buffer := (buf(nat p := of_char c))(nat n := 0), cmd_pos := n, cursor_pos := p + 1\<rparr>)
        in if cursor_pos s1 < cmd_pos s1 then redraw_from_cursor s1 else Some s1
      else Some s)"

definition shell_process_input :: "char \<Rightarrow> 'a shell_scheme \<Rightarrow> 'a shell_scheme option" where
  "shell_process_input c s =
     (if \<not> shell_active s then Some s
      else if 1 \<le> (of_char c :: nat) \<and> (of_char c :: nat) \<le> 7 then process_key c s
      else if c = CHR 0x0A then process_newline s
      else if c = CHR 0x08 then process_backspace s
      else process_char c s)"

definition shell_init :: "'a shell_scheme \<Rightarrow> 'a shell_scheme option" where
  "shell_init s = do {
     s1 \<leftarrow> sprintk ''=== LightNightOS Shell (with cursor movement) ===\<newline>'' [] (clear_screen s);
     s2 \<leftarrow> sprintk ''Type 'help' for available commands\<newline>'' [] s1;
     s3 \<leftarrow> sprintk ''=================================================\<newline>\<newline>'' [] s2;
     let s4 = s3\<lparr>shell_active := True, cmd_pos := 0, cursor_pos := 0, cmd_buffer := (cmd_buffer s3)(0 := 0),
        saved_cmd := (saved_cmd s3)(0 := 0), saved_cmd_pos := 0, cmd_history_count := 0, history_current := -1,
        history_saved_current := -1\<rparr>;
     s5 \<leftarrow> sprintk PROMPT [] s4;
     Some (update_cursor (get_cursor_row s5) (get_cursor_col s5) s5)
   }"

definition shell_stop :: "'a shell_scheme \<Rightarrow> 'a shell_scheme" where
  "shell_stop s = s\<lparr>shell_active := False\<rparr>"

definition shell_is_active :: "'a shell_scheme \<Rightarrow> bool" where
  "shell_is_active s = shell_active s"

section \<open>The invariant\<close>

text \<open>A terminated string of fewer than 128 bytes.\<close>

definition short_str :: "cptr \<Rightarrow> bool" where
  "short_str p \<longleftrightarrow> (\<exists>xs. cstr p xs \<and> length xs \<le> 127)"

text \<open>The text of the line: the first \<open>cmd_pos\<close> bytes of the buffer.\<close>

definition line :: "'a shell_scheme \<Rightarrow> u8 list" where
  "line s = map (cmd_buffer s) [0..<nat (cmd_pos s)]"

definition editor_ok :: "'a shell_scheme \<Rightarrow> bool" where
  "editor_ok s \<longleftrightarrow> 0 \<le> cursor_pos s \<and> cursor_pos s \<le> cmd_pos s \<and> cmd_pos s \<le> 127 \<and>
     (cmd_pos s > 0 \<longrightarrow> cstr (cmd_buffer s) (line s)) \<and> short_str (cmd_buffer s)"

definition cmd_history_ok :: "'a shell_scheme \<Rightarrow> bool" where
  "cmd_history_ok s \<longleftrightarrow> 0 \<le> cmd_history_count s \<and> cmd_history_count s \<le> 50 \<and>
     -1 \<le> history_current s \<and> (history_current s < cmd_history_count s \<or> history_current s = -1) \<and>
     (\<forall>i < nat (cmd_history_count s). short_str (cmd_history s i)) \<and> short_str (saved_cmd s)"

definition shell_inv :: "'a shell_scheme \<Rightarrow> bool" where
  "shell_inv s \<longleftrightarrow> con_inv s \<and> editor_ok s \<and> cmd_history_ok s"

lemma keeps_shell:
  assumes "con.keeps s s'"
  shows "cmd_history s' = cmd_history s" "cmd_history_count s' = cmd_history_count s"
    "history_current s' = history_current s" "cmd_buffer s' = cmd_buffer s" "cmd_pos s' = cmd_pos s"
    "cursor_pos s' = cursor_pos s" "shell_active s' = shell_active s" "saved_cmd s' = saved_cmd s"
    "saved_cmd_pos s' = saved_cmd_pos s" "line s' = line s" "shell.more s' = shell.more s"
  using assms by (cases s, cases s', simp add: con.keeps_def line_def)+

lemma keeps_shell_inv: "con.keeps s s' \<Longrightarrow> shell_inv s \<Longrightarrow> shell_inv s'"
  using keeps_shell [of s s']
  by (simp add: shell_inv_def editor_ok_def cmd_history_ok_def con.keeps_def line_def)

lemma keeps_editor: "con.keeps s s' \<Longrightarrow> editor_ok s' = editor_ok s" "con.keeps s s' \<Longrightarrow> cmd_history_ok s' = cmd_history_ok s"
  using keeps_shell [of s s'] by (simp_all add: editor_ok_def cmd_history_ok_def line_def)

lemma con_inv_shell_fields [simp]:
  "con_inv (s\<lparr>cmd_history := a1\<rparr>) = con_inv s" "con_inv (s\<lparr>cmd_history_count := a2\<rparr>) = con_inv s"
  "con_inv (s\<lparr>history_current := a2\<rparr>) = con_inv s" "con_inv (s\<lparr>history_saved_current := a2\<rparr>) = con_inv s"
  "con_inv (s\<lparr>cmd_buffer := a3\<rparr>) = con_inv s" "con_inv (s\<lparr>cmd_pos := a2\<rparr>) = con_inv s"
  "con_inv (s\<lparr>cursor_pos := a2\<rparr>) = con_inv s" "con_inv (s\<lparr>shell_active := a4\<rparr>) = con_inv s"
  "con_inv (s\<lparr>saved_cmd := a3\<rparr>) = con_inv s" "con_inv (s\<lparr>saved_cmd_pos := a2\<rparr>) = con_inv s"
  by (simp_all add: con_inv_defs active_def backed_up_def TBUF_def)

section \<open>Output of the shell\<close>

lemma keeps_times: "f \<in> con_ops \<Longrightarrow> con.keeps s (times n f s)"
  unfolding times_def by (rule con.keeps_funpow)

lemma print_char_op [simp, intro]: "print_char ch \<in> con_ops" "move_cursor_left \<in> con_ops" "move_cursor_right \<in> con_ops"
  unfolding print_char_def by (rule con_ops.intros)+

lemma sprintk_keeps: "vprintk fmt as = Some st \<Longrightarrow> \<exists>s'. sprintk fmt as s = Some s' \<and> con.keeps s s'"
  by (simp add: sprintk_def con_printk_def print_str_def con_keeps_print_str)

lemma sprintk_plain: "CHR ''%'' \<notin> set fmt \<Longrightarrow> \<exists>s'. sprintk fmt [] s = Some s' \<and> con.keeps s s'"
  by (rule sprintk_keeps [where st = "\<lparr>out = fmt, args = [], stores = []\<rparr>"])
    (simp add: vprintk_def vprintk_plain emit_def)

lemma sprintk_one_string:
  assumes "cstr p xs" "CHR ''%'' \<notin> set pre" "CHR ''%'' \<notin> set post"
  shows "\<exists>s'. sprintk_str (pre @ ''%s'' @ post) p s = Some s' \<and> con.keeps s s'"
proof -
  have "vprintk (pre @ ''%s'' @ post) [VStr (Some x)] = Some \<lparr>out = pre @ x @ post, args = [], stores = []\<rparr>" for x
    using assms(2,3) by (simp add: vprintk_def vprintk_literal directive_s conv_str_plain vprintk_plain emit_def)
  then have "\<exists>s'. sprintk (pre @ ''%s'' @ post) [VStr (Some x)] s = Some s' \<and> con.keeps s s'" for x
    by (rule sprintk_keeps)
  then show ?thesis by (simp add: sprintk_str_def chars_at_def strlen_cstr [OF assms(1)])
qed

lemma sprintk_string: "cstr p xs \<Longrightarrow> \<exists>s'. sprintk_str ''%s'' p s = Some s' \<and> con.keeps s s'"
  using sprintk_one_string [of p xs "''''" "''''" s] by simp

section \<open>Editing the line\<close>

lemma close_gap_eq: "lo \<le> hi \<Longrightarrow> close_gap lo hi b = (\<lambda>i. if lo \<le> i \<and> i < hi then b (i + 1) else b i)"
  unfolding close_gap_def
proof (induction hi)
  case (Suc hi)
  then show ?case by (cases "lo = Suc hi") (auto simp: fun_eq_iff)
qed auto

lemma open_gap_eq: "lo \<le> hi \<Longrightarrow> open_gap lo hi b = (\<lambda>i. if lo < i \<and> i \<le> hi then b (i - 1) else b i)"
  unfolding open_gap_def
proof (induction hi arbitrary: b)
  case (Suc hi)
  then show ?case by (cases "lo = Suc hi") (auto simp: fun_eq_iff)
qed auto

lemma line_length [simp]: "length (line s) = nat (cmd_pos s)"
  by (simp add: line_def)

lemma editor_cstr: "editor_ok s \<Longrightarrow> cmd_pos s > 0 \<Longrightarrow> p \<le> nat (cmd_pos s) \<Longrightarrow> cstr (at (cmd_buffer s) p) (drop p (line s))"
  unfolding at_def by (rule cstr_drop) (simp_all add: editor_ok_def)

lemma redraw_keeps:
  assumes "editor_ok s"
  shows "\<exists>s'. redraw_from_cursor s = Some s' \<and> con.keeps s s'"
proof -
  have le: "nat (cursor_pos s) \<le> nat (cmd_pos s)" using assms by (auto simp: editor_ok_def)
  obtain s1 where s1: "(if cursor_pos s < cmd_pos s
      then sprintk_str ''%s'' (at (cmd_buffer s) (nat (cursor_pos s))) s else Some s) = Some s1" "con.keeps s s1"
    using sprintk_string [OF editor_cstr [OF assms _ le], of s] assms
    by (cases "cursor_pos s < cmd_pos s") (auto simp: editor_ok_def)
  have "con.keeps s (times n move_cursor_left (times m (print_char (CHR '' '')) s1))" for n m
    using s1(2) con.keeps_trans keeps_times by (metis print_char_op(1,2))
  then show ?thesis by (simp add: redraw_from_cursor_def Let_def s1(1))
qed

text \<open>A buffer that holds a line.\<close>

lemma editor_ok_intro:
  assumes "cstr (cmd_buffer s) xs" "cmd_pos s = int (length xs)" "length xs \<le> 127" "0 \<le> cursor_pos s" "cursor_pos s \<le> cmd_pos s"
  shows "editor_ok s \<and> line s = xs"
proof -
  have "line s = xs" using assms(1,2) by (auto simp: line_def cstr_def intro!: nth_equalityI)
  then show ?thesis using assms by (auto simp: editor_ok_def short_str_def)
qed

lemma line_cstr: "editor_ok s \<Longrightarrow> 0 \<notin> set (line s) \<and> (cmd_pos s > 0 \<longrightarrow> cmd_buffer s (nat (cmd_pos s)) = 0)"
  by (cases "cmd_pos s > 0") (auto simp: editor_ok_def cstr_def line_def)

lemma line_nth: "i < nat (cmd_pos s) \<Longrightarrow> cmd_buffer s i = line s ! i"
  by (simp add: line_def)

text \<open>The three changes of the buffer.\<close>

lemma cstr_remove:
  assumes "editor_ok s" "p < nat (cmd_pos s)"
  shows "cstr ((close_gap p (nat (cmd_pos s) - 1) (cmd_buffer s))(nat (cmd_pos s) - 1 := 0))
    (take p (line s) @ drop (Suc p) (line s))"
  using assms line_cstr [OF assms(1)] line_nth [of _ s]
  by (auto simp: cstr_def close_gap_eq nth_append dest: in_set_takeD in_set_dropD)

lemma cstr_insert:
  assumes "editor_ok s" "p \<le> nat (cmd_pos s)" "c \<noteq> 0"
  defines "b \<equiv> (if p < nat (cmd_pos s) then open_gap p (nat (cmd_pos s)) (cmd_buffer s) else cmd_buffer s)"
  shows "cstr ((b(p := c))(nat (cmd_pos s) + 1 := 0)) (take p (line s) @ c # drop p (line s))"
  using assms line_cstr [OF assms(1)] line_nth [of _ s]
  by (auto simp: cstr_def b_def open_gap_eq nth_append nth_Cons' dest: in_set_takeD in_set_dropD)

section \<open>The abstract line editor\<close>

text \<open>A line of text with a caret, and what a key does to it.\<close>

definition edit :: "char \<Rightarrow> u8 list \<times> nat \<Rightarrow> u8 list \<times> nat" where
  "edit c = (\<lambda>(t, p).
     if c = KEY_LEFT then (t, p - 1)
     else if c = KEY_RIGHT then (t, min (length t) (p + 1))
     else if c = KEY_HOME then (t, 0)
     else if c = KEY_END then (t, length t)
     else if c = KEY_DEL then (take p t @ drop (Suc p) t, p)
     else if c = CHR 0x08 then (if p > 0 then (take (p - 1) t @ drop p t, p - 1) else (t, p))
     else if length t < 127 \<and> 32 \<le> (of_char c :: nat) \<and> (of_char c :: nat) \<le> 126
       then (take p t @ of_char c # drop p t, p + 1)
     else (t, p))"

definition edited :: "'a shell_scheme \<Rightarrow> u8 list \<times> nat" where
  "edited s = (line s, nat (cursor_pos s))"

text \<open>What every editing key does: it returns, changes the line as told and nothing of the history.\<close>

definition edits_to :: "'a shell_scheme \<Rightarrow> 'a shell_scheme option \<Rightarrow> u8 list \<times> nat \<Rightarrow> bool" where
  "edits_to s r e \<longleftrightarrow> (\<exists>s'. r = Some s' \<and> shell_inv s' \<and> edited s' = e \<and> shell_active s' = shell_active s \<and>
     cmd_history s' = cmd_history s \<and> cmd_history_count s' = cmd_history_count s)"

lemma edits_to_keeps:
  assumes "con.keeps s s'" "shell_inv s" "edited s = e" "shell_active s = shell_active s0"
    "cmd_history s = cmd_history s0" "cmd_history_count s = cmd_history_count s0"
  shows "edits_to s0 (Some s') e"
  using assms keeps_shell [OF assms(1)] keeps_shell_inv [OF assms(1,2)] by (simp add: edits_to_def edited_def)

text \<open>Storing a new line and redrawing.\<close>

lemma edits_to_redraw:
  assumes inv: "shell_inv s" and xs: "cstr b xs" "length xs \<le> 127" "p \<le> length xs"
    and k: "con.keeps (s\<lparr>cmd_buffer := b, cmd_pos := int (length xs), cursor_pos := int p\<rparr>) s1"
  shows "edits_to s (redraw_from_cursor s1) (xs, p)" "edits_to s (Some s1) (xs, p)"
proof -
  let ?s = "s\<lparr>cmd_buffer := b, cmd_pos := int (length xs), cursor_pos := int p\<rparr>"
  have e: "editor_ok ?s \<and> line ?s = xs" by (rule editor_ok_intro) (use xs in auto)
  have i: "shell_inv ?s" using e inv by (simp add: shell_inv_def cmd_history_ok_def)
  show "edits_to s (Some s1) (xs, p)" by (rule edits_to_keeps [OF k i]) (use e in \<open>auto simp: edited_def\<close>)
  have "editor_ok s1" using keeps_editor(1) [OF k] e by blast
  then obtain s2 where "redraw_from_cursor s1 = Some s2" "con.keeps s1 s2" using redraw_keeps by blast
  then show "edits_to s (redraw_from_cursor s1) (xs, p)"
    using edits_to_keeps [OF con.keeps_trans [OF k] i, of s2 "(xs, p)" s] e by (auto simp: edited_def)
qed

lemma printable_byte:
  assumes "32 \<le> (of_char c :: nat)" "(of_char c :: nat) \<le> 126"
  shows "(of_char c :: u8) \<noteq> 0"
proof
  assume "(of_char c :: u8) = 0"
  then have "(of_nat (of_char c) :: u8) = 0" by (simp only: of_nat_of_char)
  then have "unat (of_nat (of_char c) :: u8) = 0" by simp
  then show False using assms by (simp add: unat_of_nat)
qed

lemma process_char_edits:
  assumes "shell_inv s" "cmd_pos s < 127" "32 \<le> (of_char c :: nat)" "(of_char c :: nat) \<le> 126"
  defines "p \<equiv> nat (cursor_pos s)"
  shows "edits_to s (process_char c s) (take p (line s) @ of_char c # drop p (line s), p + 1)"
proof -
  let ?xs = "take p (line s) @ of_char c # drop p (line s)"
  have e: "editor_ok s" and p: "p \<le> nat (cmd_pos s)" "cursor_pos s = int p" "0 \<le> cmd_pos s"
    using assms(1) by (auto simp: shell_inv_def editor_ok_def p_def)
  have c: "(of_char c :: u8) \<noteq> 0" by (rule printable_byte [OF assms(3,4)])
  have lt: "cursor_pos s < cmd_pos s \<longleftrightarrow> p < nat (cmd_pos s)" using p by auto
  note ins = cstr_insert [OF e p(1) c]
  have len: "int (length ?xs) = cmd_pos s + 1" "nat (cmd_pos s + 1) = nat (cmd_pos s) + 1" "int (p + 1) = cursor_pos s + 1"
    using p by auto
  define b where "b = ((if cursor_pos s < cmd_pos s then open_gap p (nat (cmd_pos s)) (cmd_buffer s) else cmd_buffer s)
    (p := of_char c))(nat (cmd_pos s + 1) := 0)"
  define s1 where "s1 = print_char c (s\<lparr>cmd_buffer := b, cmd_pos := cmd_pos s + 1, cursor_pos := cursor_pos s + 1\<rparr>)"
  have k: "con.keeps (s\<lparr>cmd_buffer := b, cmd_pos := int (length ?xs), cursor_pos := int (p + 1)\<rparr>) s1"
    unfolding len s1_def by (rule con.keeps_op) simp
  have "cstr b ?xs" using ins by (simp add: b_def len(2) lt)
  note e = edits_to_redraw [OF assms(1) this _ _ k]
  have g: "cmd_pos s < MAX_CMD_LEN - 1 \<and> 32 \<le> (of_char c :: nat) \<and> (of_char c :: nat) \<le> 126"
    using assms(2-4) by (simp add: MAX_CMD_LEN_def)
  have "process_char c s = (if cursor_pos s1 < cmd_pos s1 then redraw_from_cursor s1 else Some s1)"
    unfolding process_char_def Let_def if_P [OF g] p_def [symmetric] b_def [symmetric] s1_def [symmetric] ..
  then show ?thesis using e assms(2) p by (cases "cursor_pos s1 < cmd_pos s1") auto
qed

lemma delete_edits:
  assumes "shell_inv s"
  defines "p \<equiv> nat (cursor_pos s)"
  shows "edits_to s (delete_at_cursor s) (take p (line s) @ drop (Suc p) (line s), p)"
proof (cases "cursor_pos s < cmd_pos s")
  case True
  let ?xs = "take p (line s) @ drop (Suc p) (line s)"
  have e: "editor_ok s" and p: "p < nat (cmd_pos s)" "cursor_pos s = int p" "cmd_pos s \<le> 127"
    using assms(1) True by (auto simp: shell_inv_def editor_ok_def p_def)
  have len: "int (length ?xs) = cmd_pos s - 1" "nat (cmd_pos s - 1) = nat (cmd_pos s) - 1" using p by auto
  let ?b = "(close_gap p (nat (cmd_pos s) - 1) (cmd_buffer s))(nat (cmd_pos s) - 1 := 0)"
  have k: "con.keeps (s\<lparr>cmd_buffer := ?b, cmd_pos := int (length ?xs), cursor_pos := int p\<rparr>)
      (s\<lparr>cmd_pos := cmd_pos s - 1, cmd_buffer := ?b\<rparr>)"
    unfolding len(1) p(2) [symmetric] by (cases s) simp
  have "edits_to s (redraw_from_cursor (s\<lparr>cmd_pos := cmd_pos s - 1, cmd_buffer := ?b\<rparr>)) (?xs, p)"
    by (rule edits_to_redraw [OF assms(1) cstr_remove [OF e p(1)] _ _ k]) (use p in auto)
  then show ?thesis using True by (simp add: delete_at_cursor_def Let_def len p_def)
next
  case False
  then have "take p (line s) @ drop (Suc p) (line s) = line s"
    using assms(1) by (auto simp: shell_inv_def editor_ok_def p_def)
  then show ?thesis using False assms(1) edits_to_keeps [OF con.keeps_refl assms(1), of "(line s, p)" s]
    by (simp add: delete_at_cursor_def edited_def p_def)
qed

lemma backspace_edits:
  assumes "shell_inv s"
  defines "p \<equiv> nat (cursor_pos s)"
  shows "edits_to s (process_backspace s)
    (if p > 0 then (take (p - 1) (line s) @ drop p (line s), p - 1) else (line s, p))"
proof (cases "cursor_pos s > 0")
  case True
  let ?q = "p - 1"
  let ?xs = "take ?q (line s) @ drop (Suc ?q) (line s)"
  have e: "editor_ok s" and p: "?q < nat (cmd_pos s)" "cursor_pos s - 1 = int ?q" "cmd_pos s \<le> 127" "Suc ?q = p"
    "nat (cursor_pos s - 1) = ?q"
    using assms(1) True by (auto simp: shell_inv_def editor_ok_def p_def)
  have len: "int (length ?xs) = cmd_pos s - 1" "nat (cmd_pos s - 1) = nat (cmd_pos s) - 1" using p by auto
  let ?b = "(close_gap ?q (nat (cmd_pos s) - 1) (cmd_buffer s))(nat (cmd_pos s) - 1 := 0)"
  let ?s = "s\<lparr>cursor_pos := cursor_pos s - 1, cmd_pos := cmd_pos s - 1, cmd_buffer := ?b\<rparr>"
  have eq: "s\<lparr>cmd_buffer := ?b, cmd_pos := int (length ?xs), cursor_pos := int ?q\<rparr> = ?s"
    unfolding len(1) p(2) [symmetric] by (cases s) simp
  have k: "con.keeps (s\<lparr>cmd_buffer := ?b, cmd_pos := int (length ?xs), cursor_pos := int ?q\<rparr>) (move_cursor_left ?s)"
    unfolding eq by (rule con.keeps_op) simp
  have "edits_to s (redraw_from_cursor (move_cursor_left ?s)) (?xs, ?q)"
    by (rule edits_to_redraw [OF assms(1) cstr_remove [OF e p(1)] _ _ k]) (use p in auto)
  moreover have "process_backspace s = redraw_from_cursor (move_cursor_left ?s)"
    unfolding process_backspace_def Let_def if_P [OF True] p(5) len(2) ..
  moreover have "p > 0" using p(4) by linarith
  ultimately show ?thesis unfolding p(4) by (simp only: if_True)
next
  case False
  then show ?thesis using assms(1) edits_to_keeps [OF con.keeps_refl assms(1), of "(line s, p)" s]
    by (simp add: process_backspace_def edited_def p_def)
qed

lemma shell_inv_cursor: "shell_inv s \<Longrightarrow> 0 \<le> p \<Longrightarrow> p \<le> cmd_pos s \<Longrightarrow> shell_inv (s\<lparr>cursor_pos := p\<rparr>)"
  by (simp add: shell_inv_def editor_ok_def cmd_history_ok_def line_def)

text \<open>Moving the caret.\<close>

lemma caret_edits:
  assumes "shell_inv s" "0 \<le> p" "p \<le> cmd_pos s" "con.keeps (s\<lparr>cursor_pos := p\<rparr>) s'"
  shows "edits_to s (Some s') (line s, nat p)"
  by (rule edits_to_keeps [OF assms(4) shell_inv_cursor [OF assms(1-3)]]) (simp_all add: edited_def line_def)

lemma keeps_cursor_pos: "con.keeps s s' \<Longrightarrow> con.keeps (s\<lparr>cursor_pos := p\<rparr>) (s'\<lparr>cursor_pos := p\<rparr>)"
  by (cases s, cases s') (auto simp: con.keeps_def con_inv_defs active_def backed_up_def TBUF_def)

lemma move_cursor_to_edits:
  assumes "shell_inv s"
  shows "edits_to s (Some (move_cursor_to p s)) (line s, nat (min (max p 0) (cmd_pos s)))"
proof (rule caret_edits [OF assms])
  show "0 \<le> min (max p 0) (cmd_pos s)" "min (max p 0) (cmd_pos s) \<le> cmd_pos s"
    using assms by (auto simp: shell_inv_def editor_ok_def)
  have q: "(if (if p < 0 then 0 else p) > cmd_pos s then cmd_pos s else (if p < 0 then 0 else p)) = min (max p 0) (cmd_pos s)"
    by simp
  show "con.keeps (s\<lparr>cursor_pos := min (max p 0) (cmd_pos s)\<rparr>) (move_cursor_to p s)"
    unfolding move_cursor_to_def Let_def q by (intro keeps_cursor_pos) (simp add: keeps_times)
qed

lemma edit_no_key:
  assumes "\<not> (1 \<le> (of_char c :: nat) \<and> (of_char c :: nat) \<le> 7)" "c \<noteq> CHR 0x08"
  shows "edit c (t, p) = (if length t < 127 \<and> 32 \<le> (of_char c :: nat) \<and> (of_char c :: nat) \<le> 126
       then (take p t @ of_char c # drop p t, p + 1) else (t, p))"
  using assms by (auto simp: edit_def)

lemma keys_in_range:
  "1 \<le> (of_char c :: nat) \<and> (of_char c :: nat) \<le> 7 \<longleftrightarrow>
   c \<in> {KEY_UP, KEY_DOWN, KEY_LEFT, KEY_RIGHT, KEY_HOME, KEY_END, KEY_DEL}"
proof
  assume a: "1 \<le> (of_char c :: nat) \<and> (of_char c :: nat) \<le> 7"
  have "(of_char c :: nat) \<in> {1, 2, 3, 4, 5, 6, 7}" using a by auto
  then have "char_of (of_char c :: nat) \<in> char_of ` {1, 2, 3, 4, 5, 6, 7 :: nat}" by blast
  then have "c \<in> char_of ` {1, 2, 3, 4, 5, 6, 7 :: nat}" by (simp only: char_of_char)
  then show "c \<in> {KEY_UP, KEY_DOWN, KEY_LEFT, KEY_RIGHT, KEY_HOME, KEY_END, KEY_DEL}"
    by (simp add: char_of_def bit_iff_odd)
qed auto

lemma process_key_edits:
  assumes "shell_inv s" "c \<in> {KEY_LEFT, KEY_RIGHT, KEY_HOME, KEY_END, KEY_DEL}"
  shows "edits_to s (process_key c s) (edit c (edited s))"
proof -
  have b: "0 \<le> cursor_pos s" "cursor_pos s \<le> cmd_pos s" using assms(1) by (auto simp: shell_inv_def editor_ok_def)
  have id: "edits_to s (Some s) (line s, nat (cursor_pos s))"
    using edits_to_keeps [OF con.keeps_refl assms(1)] by (simp add: edited_def)
  have left: "0 < cursor_pos s \<Longrightarrow> edits_to s (Some (move_cursor_left (s\<lparr>cursor_pos := cursor_pos s - 1\<rparr>))) (line s, nat (cursor_pos s - 1))"
    using b by (intro caret_edits [OF assms(1)] con.keeps_op) auto
  have right: "cursor_pos s < cmd_pos s \<Longrightarrow>
      edits_to s (Some (move_cursor_right (s\<lparr>cursor_pos := cursor_pos s + 1\<rparr>))) (line s, nat (cursor_pos s + 1))"
    using b by (intro caret_edits [OF assms(1)] con.keeps_op) auto
  from assms(2) consider "c = KEY_LEFT" | "c = KEY_RIGHT" | "c = KEY_HOME" | "c = KEY_END" | "c = KEY_DEL" by blast
  then show ?thesis
  proof cases
    case 1
    then show ?thesis using id left b by (cases "0 < cursor_pos s") (auto simp: process_key_def edit_def edited_def nat_diff_distrib)
  next
    case 2
    have "cursor_pos s < cmd_pos s \<Longrightarrow> min (nat (cmd_pos s)) (Suc (nat (cursor_pos s))) = nat (cursor_pos s + 1)"
      "\<not> cursor_pos s < cmd_pos s \<Longrightarrow> min (nat (cmd_pos s)) (Suc (nat (cursor_pos s))) = nat (cursor_pos s)"
      using b by auto
    then show ?thesis using id right 2 by (auto simp: process_key_def edit_def edited_def)
  next
    case 3
    then show ?thesis using move_cursor_to_edits [OF assms(1), of 0] b by (simp add: process_key_def edit_def edited_def)
  next
    case 4
    then show ?thesis using move_cursor_to_edits [OF assms(1), of "cmd_pos s"] b by (simp add: process_key_def edit_def edited_def)
  next
    case 5
    then show ?thesis using delete_edits [OF assms(1)] by (simp add: process_key_def edit_def edited_def)
  qed
qed

lemma shell_edit_step:
  assumes "shell_inv s" "shell_active s" "c \<notin> {KEY_UP, KEY_DOWN, CHR 0x0A}"
  shows "edits_to s (shell_process_input c s) (edit c (edited s))"
proof (cases "1 \<le> (of_char c :: nat) \<and> (of_char c :: nat) \<le> 7")
  case True
  then have "c \<in> {KEY_LEFT, KEY_RIGHT, KEY_HOME, KEY_END, KEY_DEL}" using keys_in_range [of c] assms(3) by auto
  then show ?thesis using True assms(2) process_key_edits [OF assms(1), of c] by (simp add: shell_process_input_def)
next
  case False
  note nk = False
  have id: "edits_to s (Some s) (edited s)"
    using edits_to_keeps [OF con.keeps_refl assms(1)] by simp
  show ?thesis
  proof (cases "c = CHR 0x08")
    case True
    then show ?thesis using backspace_edits [OF assms(1)] assms(2) by (simp add: shell_process_input_def edit_def edited_def)
  next
    case False
    have eq: "shell_process_input c s = process_char c s" using nk False assms by (auto simp: shell_process_input_def)
    have b: "0 \<le> cmd_pos s" using assms(1) by (auto simp: shell_inv_def editor_ok_def)
    show ?thesis
    proof (cases "cmd_pos s < 127 \<and> 32 \<le> (of_char c :: nat) \<and> (of_char c :: nat) \<le> 126")
      case True
      then have "nat (cmd_pos s) < 127" using b by (auto simp: nat_less_iff)
      then show ?thesis unfolding eq using process_char_edits [OF assms(1), of c] True
        by (simp add: edited_def edit_no_key [OF nk False])
    next
      case not: False
      then have "process_char c s = Some s" by (auto simp: process_char_def MAX_CMD_LEN_def)
      moreover have "edit c (edited s) = edited s" using not b by (auto simp: edited_def edit_no_key [OF nk False])
      ultimately show ?thesis unfolding eq using id by simp
    qed
  qed
qed

section \<open>Splitting a line into arguments\<close>

definition blank :: "u8 \<Rightarrow> bool" where
  "blank b \<longleftrightarrow> b = 0x20 \<or> b = 0x09"

text \<open>The reference: at most \<open>n\<close> arguments, the last of which takes the rest of the line.\<close>

primrec split_args :: "nat \<Rightarrow> u8 list \<Rightarrow> u8 list list" where
  "split_args 0 xs = []"
| "split_args (Suc n) xs =
     (let ys = dropWhile blank xs
      in if ys = [] then []
         else if n = 0 then [ys]
         else takeWhile (\<lambda>b. \<not> blank b) ys # split_args n (dropWhile (\<lambda>b. \<not> blank b) ys))"

definition args_at :: "cptr \<Rightarrow> nat list \<Rightarrow> u8 list list \<Rightarrow> bool" where
  "args_at buf argv ws \<longleftrightarrow> list_all2 (\<lambda>a w. cstr (at buf a) w) argv ws"

lemma cstr_at_Cons: "cstr (at buf i) (c # ys) \<longleftrightarrow> c \<noteq> 0 \<and> buf i = c \<and> cstr (at buf (Suc i)) ys"
  by (auto simp: cstr_def at_def All_less_Suc2)

lemma cstr_at_Nil: "cstr (at buf i) [] \<longleftrightarrow> buf i = 0"
  by (simp add: cstr_def at_def)

lemma parse_stop: "buf i = 0 \<or> \<not> length argv < 15 \<Longrightarrow> parse_from buf i argv in_arg = Some (buf, argv)"
  by (subst parse_from.simps) (auto simp: MAX_ARGS_def)

lemma parse_step:
  assumes "buf i \<noteq> 0" "length argv < 15"
  shows "parse_from buf i argv in_arg =
    (if blank (buf i) then parse_from (if in_arg then buf(i := 0) else buf) (Suc i) argv False
     else parse_from buf (Suc i) (if in_arg then argv else argv @ [i]) True)"
  using assms by (subst parse_from.simps) (auto simp: blank_def MAX_ARGS_def)

text \<open>What the loop does from position \<open>i\<close>: \<open>w\<close> is the rest of the argument it is in.\<close>

definition parses :: "cptr \<Rightarrow> nat \<Rightarrow> nat list \<Rightarrow> bool \<Rightarrow> u8 list \<Rightarrow> bool" where
  "parses buf i argv in_arg ys \<longleftrightarrow> (\<exists>buf' more. parse_from buf i argv in_arg = Some (buf', argv @ more) \<and>
     (\<forall>j < i. buf' j = buf j) \<and> (\<forall>j \<ge> i + length ys. buf' j = buf j) \<and>
     (if in_arg
      then cstr (at buf' i) (if length argv < 15 then takeWhile (\<lambda>b. \<not> blank b) ys else ys) \<and>
        args_at buf' more (split_args (15 - length argv) (dropWhile (\<lambda>b. \<not> blank b) ys))
      else args_at buf' more (split_args (15 - length argv) ys)))"

lemma args_at_Nil [simp]: "args_at buf [] ws \<longleftrightarrow> ws = []"
  by (auto simp: args_at_def)

lemma args_at_Cons [simp]: "args_at buf (a # as) (w # ws) \<longleftrightarrow> cstr (at buf a) w \<and> args_at buf as ws"
  by (simp add: args_at_def)

lemma split_args_Nil [simp]: "split_args n [] = []"
  by (cases n) simp_all

lemma split_args_blank [simp]: "blank b \<Longrightarrow> split_args n (b # xs) = split_args n xs"
  by (cases n) simp_all

lemma split_args_word:
  assumes "\<not> blank b" "0 < n"
  shows "split_args n (b # xs) = (if n = 1 then [b # xs]
    else (b # takeWhile (\<lambda>b. \<not> blank b) xs) # split_args (n - 1) (dropWhile (\<lambda>b. \<not> blank b) xs))"
  using assms by (cases n) auto

lemma parse_from_splits:
  assumes "cstr (at buf i) ys" "length argv \<le> 15" "in_arg \<longrightarrow> argv \<noteq> []"
  shows "parses buf i argv in_arg ys"
  using assms
proof (induction ys arbitrary: buf i argv in_arg)
  case Nil
  then have "buf i = 0" by (simp add: cstr_at_Nil)
  then show ?case unfolding parses_def by (intro exI [of _ buf] exI [of _ "[]"]) (simp add: parse_stop cstr_at_Nil)
next
  case (Cons c ys)
  have c: "c \<noteq> 0" "buf i = c" "cstr (at buf (Suc i)) ys" using Cons.prems(1) by (simp_all add: cstr_at_Cons)
  show ?case
  proof (cases "length argv < 15")
    case False
    then show ?thesis unfolding parses_def using Cons.prems
      by (intro exI [of _ buf] exI [of _ "[]"]) (simp add: parse_stop)
  next
    case True
    note st = parse_step [of buf i argv in_arg, unfolded c(2), OF c(1) True]
    show ?thesis
    proof (cases "blank c")
      case b: True
      let ?b = "if in_arg then buf(i := 0) else buf"
      have "cstr (at ?b (Suc i)) ys" using c(3) by (auto simp: cstr_def at_def)
      then have "parses ?b (Suc i) argv False ys" using Cons.IH [of ?b "Suc i" argv False] Cons.prems(2) by simp
      then obtain buf' m where p: "parse_from ?b (Suc i) argv False = Some (buf', argv @ m)"
          "\<forall>j < Suc i. buf' j = ?b j" "\<forall>j \<ge> Suc i + length ys. buf' j = ?b j" "args_at buf' m (split_args (15 - length argv) ys)"
        by (auto simp: parses_def)
      have bj: "\<forall>j. j \<noteq> i \<longrightarrow> ?b j = buf j" "in_arg \<longrightarrow> ?b i = 0" by auto
      show ?thesis unfolding parses_def
        using p bj b True st by (intro exI [of _ buf'] exI [of _ m]) (auto simp: cstr_at_Nil)
    next
      case nb: False
      let ?a = "if in_arg then argv else argv @ [i]"
      have "parses buf (Suc i) ?a True ys"
        using Cons.IH [OF c(3), of ?a True] True Cons.prems(3) by auto
      then obtain buf' m where p: "parse_from buf (Suc i) ?a True = Some (buf', ?a @ m)"
          "\<forall>j < Suc i. buf' j = buf j" "\<forall>j \<ge> Suc i + length ys. buf' j = buf j"
          "cstr (at buf' (Suc i)) (if length ?a < 15 then takeWhile (\<lambda>b. \<not> blank b) ys else ys)"
          "args_at buf' m (split_args (15 - length ?a) (dropWhile (\<lambda>b. \<not> blank b) ys))"
        by (auto simp: parses_def)
      have here: "buf' i = c" using p(2) c(2) by simp
      show ?thesis
      proof (cases in_arg)
        case True
        then show ?thesis unfolding parses_def
          using p st nb \<open>length argv < 15\<close> here c(1)
          by (intro exI [of _ buf'] exI [of _ m]) (auto simp: cstr_at_Cons)
      next
        case False
        then show ?thesis unfolding parses_def
          using p st nb \<open>length argv < 15\<close> here c(1)
          by (intro exI [of _ buf'] exI [of _ "i # m"]) (auto simp: cstr_at_Cons split_args_word split: if_splits)
      qed
    qed
  qed
qed

lemma parse_arguments_splits:
  assumes "cstr cmdline xs"
  shows "\<exists>buf argv. parse_arguments cmdline = Some (buf, argv) \<and> args_at buf argv (split_args 15 xs) \<and>
    (\<forall>j \<ge> length xs. buf j = cmdline j)"
  using parse_from_splits [of cmdline 0 xs "[]" False] assms
  by (auto simp: parses_def parse_arguments_def at_def)

section \<open>Executing a line\<close>

lemma args_at_hd: "args_at buf argv ws \<Longrightarrow> argv \<noteq> [] \<Longrightarrow> cstr (at buf (hd argv)) (hd ws)"
  by (cases argv; cases ws) (auto simp: args_at_def)

lemma args_at_tl: "args_at buf argv ws \<Longrightarrow> args_at buf (tl argv) (tl ws)"
  by (cases argv; cases ws) (auto simp: args_at_def)

lemma echo_loop_keeps: "args_at buf argv ws \<Longrightarrow> \<exists>s'. echo_loop buf argv s = Some s' \<and> con.keeps s s'"
proof (induction argv arbitrary: ws s)
  case (Cons a argv)
  then obtain w ws' where w: "cstr (at buf a) w" "args_at buf argv ws'" by (cases ws) (auto simp: args_at_def)
  obtain s1 where s1: "sprintk_str ''%s'' (at buf a) s = Some s1" "con.keeps s s1" using sprintk_string [OF w(1)] by blast
  obtain s2 where s2: "(if argv \<noteq> [] then sprintk '' '' [] s1 else Some s1) = Some s2" "con.keeps s1 s2"
    using sprintk_plain [of "'' ''" s1] by (cases "argv = []") auto
  obtain s3 where s3: "echo_loop buf argv s2 = Some s3" "con.keeps s2 s3" using Cons.IH [OF w(2)] by blast
  have "con.keeps s s3" by (rule con.keeps_trans [OF con.keeps_trans [OF s1(2) s2(2)] s3(2)])
  then show ?case using s1(1) s2(1) s3(1) by simp
qed simp

lemma help_format:
  "\<exists>st. vprintk ''  %-10s - %s\<newline>'' [VStr (Some name), VStr (Some d)] = Some st"
  by (simp add: vprintk_def directive_def fmt_width_def fmt_precision_def fmt_qualifier_def conversion_def is_digit_def
    conv_str_def arg_str_def emit_def pad_str_def pad_eq LEFT_def Let_def comp_def)

lemma help_loop_keeps: "\<exists>s'. help_loop cmds s = Some s' \<and> con.keeps s s'"
proof (induction cmds arbitrary: s)
  case (Cons x cmds)
  obtain name d f where x: "x = (name, d, f)" by (cases x)
  obtain s1 where s1: "sprintk ''  %-10s - %s\<newline>'' [VStr (Some name), VStr (Some d)] s = Some s1" "con.keeps s s1"
    using help_format [of name d] sprintk_keeps by blast
  then show ?case using Cons.IH [of s1] x con.keeps_trans by auto
qed simp

lemma run_command_keeps:
  assumes "args_at (cmd_buffer s) argv ws"
  shows "\<exists>s'. run_command f argv s = Some s' \<and> con.keeps s s'"
proof (cases f)
  case cmd_echo_f
  obtain s1 where s1: "echo_loop (cmd_buffer s) (tl argv) s = Some s1" "con.keeps s s1"
    using echo_loop_keeps [OF args_at_tl [OF assms]] by blast
  obtain s2 where "sprintk ''\<newline>'' [] s1 = Some s2" "con.keeps s1 s2" using sprintk_plain [of "''\<newline>''" s1] by auto
  then show ?thesis using s1 cmd_echo_f con.keeps_trans by (auto simp: cmd_echo_def)
next
  case cmd_help_f
  obtain s1 where s1: "sprintk ''Available commands:\<newline>'' [] s = Some s1" "con.keeps s s1"
    using sprintk_plain [of "''Available commands:\<newline>''" s] by auto
  then show ?thesis using cmd_help_f help_loop_keeps [of commands s1] con.keeps_trans by (auto simp: cmd_help_def)
next
  case cmd_clear_f
  then show ?thesis using con.keeps_op [OF con_ops.intros(2)] by (simp add: cmd_clear_def)
qed

lemma byte_zero_iff: "(of_char ch :: u8) = 0 \<longleftrightarrow> ch = CHR 0x00"
proof
  assume "(of_char ch :: u8) = 0"
  then have "(of_nat (of_char ch) :: u8) = 0" by (simp only: of_nat_of_char)
  then have "unat (of_nat (of_char ch) :: u8) = 0" by simp
  moreover have "(of_char ch :: nat) < 256" by (rule nat_of_char_less_256)
  ultimately have "(of_char ch :: nat) = 0" by (simp add: unat_of_nat)
  then have "char_of (of_char ch :: nat) = char_of (0 :: nat)" by (simp only:)
  then show "ch = CHR 0x00" by (simp only: char_of_char) (simp add: char_of_def)
qed simp

lemma lit_cstr: "CHR 0x00 \<notin> set str \<Longrightarrow> cstr (lit str) (map of_char str)"
  by (auto simp: cstr_def lit_def byte_zero_iff)

lemma find_command_total:
  assumes "cstr arg0 w" "\<forall>(name, d, f) \<in> set cmds. CHR 0x00 \<notin> set name"
  shows "\<exists>r. find_command arg0 cmds = Some r"
  using assms(2)
proof (induction cmds)
  case (Cons x cmds)
  obtain name d f where x: "x = (name, d, f)" by (cases x)
  have "cstr (lit name) (map of_char name)" using Cons.prems x by (intro lit_cstr) auto
  then show ?case using Cons x strcmp_cstr [OF assms(1)] by auto
qed simp

lemma commands_names: "\<forall>(name, d, f) \<in> set commands. CHR 0x00 \<notin> set name"
  by (simp add: commands_def)

lemma short_str_copy: "short_str src \<Longrightarrow> \<exists>d'. str_copy d src = Some d' \<and> short_str d'"
  unfolding short_str_def using str_copy_cstr by meson

lemma short_str_cmp: "short_str p \<Longrightarrow> short_str q \<Longrightarrow> \<exists>r. strcmp p q = Some r"
  unfolding short_str_def using strcmp_cstr by blast

lemma shift_history_total:
  assumes "\<forall>i \<le> n + length is. short_str (h i)" "is = [n..<n + length is]"
  shows "\<exists>h'. shift_history is h = Some h' \<and> (\<forall>i < n + length is. short_str (h' i))"
  using assms
proof (induction "is" arbitrary: n h)
  case (Cons i is')
  have "[n..<n + length (i # is')] = n # [Suc n..<Suc n + length is']" by (simp add: upt_conv_Cons del: upt_Suc)
  then have i: "i = n" "is' = [Suc n..<Suc n + length is']" using Cons.prems(2) by (simp_all del: upt_Suc)
  obtain x where x: "str_copy (h n) (h (n + 1)) = Some x" "short_str x"
    using short_str_copy [of "h (n + 1)" "h n"] Cons.prems(1) by auto
  have "\<exists>h'. shift_history is' (h(n := x)) = Some h' \<and> (\<forall>i < Suc n + length is'. short_str (h' i))"
    by (rule Cons.IH) (use Cons.prems(1) x(2) i(2) in auto)
  then show ?case using x(1) i(1) by auto
qed simp

lemma history_add_total:
  assumes "cmd_history_ok s" "short_str cmd"
  shows "\<exists>h n. history_add cmd s = Some (s\<lparr>cmd_history := h, cmd_history_count := n\<rparr>) \<and>
    cmd_history_ok (s\<lparr>cmd_history := h, cmd_history_count := n\<rparr>)"
proof -
  let ?n = "cmd_history_count s"
  have cnt: "0 \<le> ?n" "?n \<le> 50" "\<forall>i < nat ?n. short_str (cmd_history s i)" using assms(1) by (auto simp: cmd_history_ok_def)
  have id: "s\<lparr>cmd_history := cmd_history s, cmd_history_count := ?n\<rparr> = s" by simp
  obtain same where same: "(if ?n > 0 then map_option (\<lambda>r. r = 0) (strcmp (cmd_history s (nat (?n - 1))) cmd)
      else Some False) = Some same"
    using short_str_cmp [of "cmd_history s (nat (?n - 1))" cmd] cnt assms(2) by (cases "?n > 0") auto
  show ?thesis
  proof (cases "cmd 0 = 0 \<or> same")
    case True
    then show ?thesis using same assms(1) id
      by (intro exI [of _ "cmd_history s"] exI [of _ "?n"]) (auto simp: history_add_def)
  next
    case False
    define m where "m = (if ?n \<ge> 50 then 49 else ?n)"
    obtain h where h: "(if ?n \<ge> MAX_CMD_HISTORY then do {
          h \<leftarrow> shift_history [0..<nat (MAX_CMD_HISTORY - 1)] (cmd_history s);
          Some (s\<lparr>cmd_history := h, cmd_history_count := MAX_CMD_HISTORY - 1\<rparr>)
        } else Some s) = Some (s\<lparr>cmd_history := h, cmd_history_count := m\<rparr>)" "\<forall>i < nat m. short_str (h i)"
    proof (cases "?n \<ge> 50")
      case True
      then have "\<forall>i \<le> 49. short_str (cmd_history s i)" using cnt by auto
      then obtain h where "shift_history [0..<49] (cmd_history s) = Some h" "\<forall>i < 49. short_str (h i)"
        using shift_history_total [of 0 "[0..<49]" "cmd_history s"] by auto
      then show thesis using True by (intro that [of h]) (simp_all add: MAX_CMD_HISTORY_def m_def)
    next
      case False
      then show thesis using cnt by (intro that [of "cmd_history s"]) (simp_all add: MAX_CMD_HISTORY_def m_def)
    qed
    obtain x where x: "str_copy (h (nat m)) cmd = Some x" "short_str x" using short_str_copy [OF assms(2)] by blast
    have m: "0 \<le> m" "m < 50" "?n \<le> m + 1" "nat (m + 1) = Suc (nat m)" using cnt by (auto simp: m_def)
    have "history_add cmd s = Some (s\<lparr>cmd_history := h(nat m := x), cmd_history_count := m + 1\<rparr>)"
      using False same h(1) x(1) by (simp add: history_add_def)
    moreover have "cmd_history_ok (s\<lparr>cmd_history := h(nat m := x), cmd_history_count := m + 1\<rparr>)"
      using assms(1) h(2) x(2) m by (auto simp: cmd_history_ok_def less_Suc_eq)
    ultimately show ?thesis by blast
  qed
qed

lemma short_str_zero:
  assumes "q n = 0" "n \<le> 127"
  shows "short_str q"
proof -
  define k where "k = (LEAST k. q k = 0)"
  have k: "q k = 0" "k \<le> n" "\<forall>j < k. q j \<noteq> 0"
    unfolding k_def using assms(1) by (auto intro: LeastI Least_le dest: not_less_Least)
  have "cstr q (map q [0..<k])" using k by (auto simp: cstr_def)
  then show ?thesis using k(2) assms(2) by (auto simp: short_str_def)
qed

text \<open>A line is executed to the end: only the console, the history and the buffer change.\<close>

lemma execute_total:
  assumes "shell_inv s"
  shows "\<exists>s'. execute_command s = Some s' \<and> con_inv s' \<and> cmd_history_ok s' \<and> short_str (cmd_buffer s') \<and>
    shell_active s' = shell_active s"
proof (cases "cmd_pos s = 0")
  case True
  then show ?thesis using assms by (simp add: execute_command_def shell_inv_def editor_ok_def)
next
  case False
  have ok: "con_inv s" "cmd_history_ok s" "editor_ok s" and pos: "0 < cmd_pos s" "cmd_pos s \<le> 127"
    using assms False by (auto simp: shell_inv_def editor_ok_def)
  have cs: "cstr (cmd_buffer s) (line s)" "length (line s) \<le> 127" "cmd_buffer s (nat (cmd_pos s)) = 0"
    using ok(3) pos line_cstr [OF ok(3)] by (auto simp: editor_ok_def)
  then have s1: "s\<lparr>cmd_buffer := (cmd_buffer s)(nat (cmd_pos s) := 0)\<rparr> = s" by (simp add: fun_upd_idem)
  obtain h n where h: "history_add (cmd_buffer s) s = Some (s\<lparr>cmd_history := h, cmd_history_count := n\<rparr>)"
      "cmd_history_ok (s\<lparr>cmd_history := h, cmd_history_count := n\<rparr>)"
    using history_add_total [OF ok(2), of "cmd_buffer s"] ok(3) by (auto simp: editor_ok_def)
  obtain buf argv where a: "parse_arguments (cmd_buffer s) = Some (buf, argv)" "args_at buf argv (split_args 15 (line s))"
      "buf (length (line s)) = 0"
    using parse_arguments_splits [OF cs(1)] cs(1) by (fastforce simp: cstr_def)
  let ?s3 = "s\<lparr>cmd_history := h, cmd_history_count := n, cmd_buffer := buf\<rparr>"
  have s3: "con_inv ?s3" "cmd_history_ok ?s3" "short_str (cmd_buffer ?s3)" "shell_active ?s3 = shell_active s"
    using ok(1) h(2) short_str_zero [of buf "length (line s)", OF a(3) cs(2)] by (simp_all add: cmd_history_ok_def)
  have fin: "con_inv s' \<and> cmd_history_ok s' \<and> short_str (cmd_buffer s') \<and> shell_active s' = shell_active s"
    if "con.keeps ?s3 s'" for s'
    using that s3 keeps_shell [OF that] keeps_editor(2) [OF that] by (auto simp: con.keeps_def)
  have pre: "execute_command s = (if argv = [] then Some ?s3 else do {
      found \<leftarrow> find_command (at buf (hd argv)) commands;
      s4 \<leftarrow> (case found of Some func \<Rightarrow> run_command func argv ?s3
        | None \<Rightarrow> do { t \<leftarrow> sprintk_str ''Unknown command: '%s'\<newline>'' (at buf (hd argv)) ?s3;
                       sprintk ''Type 'help' for available commands\<newline>'' [] t });
      sprintk PROMPT [] s4 })"
    unfolding execute_command_def Let_def if_not_P [OF False] s1 h(1) by (simp add: a(1))
  show ?thesis
  proof (cases "argv = []")
    case True
    then show ?thesis using pre fin [of ?s3] by simp
  next
    case False
    note w = args_at_hd [OF a(2) False]
    obtain found where f: "find_command (at buf (hd argv)) commands = Some found"
      using find_command_total [OF w commands_names] by blast
    obtain s4 where s4: "(case found of Some func \<Rightarrow> run_command func argv ?s3
        | None \<Rightarrow> do { t \<leftarrow> sprintk_str ''Unknown command: '%s'\<newline>'' (at buf (hd argv)) ?s3;
                       sprintk ''Type 'help' for available commands\<newline>'' [] t }) = Some s4" "con.keeps ?s3 s4"
    proof (cases found)
      case (Some func)
      then show thesis using run_command_keeps [of ?s3 argv _ func] a(2) that by auto
    next
      case None
      obtain t where t: "sprintk_str ''Unknown command: '%s'\<newline>'' (at buf (hd argv)) ?s3 = Some t" "con.keeps ?s3 t"
        using sprintk_one_string [OF w, of "''Unknown command: '' @ [CHR 0x27]" "CHR 0x27 # ''\<newline>''" ?s3] by auto
      then show thesis using None that sprintk_plain [of "''Type 'help' for available commands\<newline>''" t] con.keeps_trans by auto
    qed
    obtain s5 where "sprintk PROMPT [] s4 = Some s5" "con.keeps s4 s5"
      using sprintk_plain [of PROMPT s4] by (auto simp: PROMPT_def)
    then show ?thesis using pre False f s4 fin [OF con.keeps_trans [OF s4(2)]] by simp
  qed
qed

section \<open>Walking the history\<close>

lemma show_line_shows:
  assumes "con_inv s" "cmd_history_ok s" "cstr p xs" "length xs \<le> 127"
  shows "\<exists>s'. show_line p s = Some s' \<and> shell_inv s' \<and> edited s' = (xs, length xs) \<and> shell_active s' = shell_active s \<and>
    cmd_history s' = cmd_history s \<and> cmd_history_count s' = cmd_history_count s \<and> history_current s' = history_current s"
proof -
  let ?s1 = "times (cmd_pos s) move_cursor_left s"
  obtain x where x: "str_copy (cmd_buffer ?s1) p = Some x" "cstr x xs" using str_copy_cstr [OF assms(3)] by blast
  let ?s2 = "?s1\<lparr>cmd_buffer := x, cmd_pos := int (length xs), cursor_pos := int (length xs)\<rparr>"
  have k1: "con.keeps s ?s1" by (rule keeps_times) simp
  have "con_inv ?s1" "cmd_history_ok ?s1" using assms(1,2) k1 keeps_editor(2) [OF k1] by (simp_all add: con.keeps_def)
  moreover have e: "editor_ok ?s2 \<and> line ?s2 = xs" by (rule editor_ok_intro) (use x(2) assms(4) in auto)
  ultimately have i: "shell_inv ?s2" by (simp add: shell_inv_def cmd_history_ok_def)
  obtain s3 where s3: "sprintk_str ''%s'' x ?s2 = Some s3" "con.keeps ?s2 s3" using sprintk_string [OF x(2)] by blast
  define s4 where "s4 = (if int (length xs) < cmd_pos s
    then times (cmd_pos s - int (length xs)) move_cursor_left (times (cmd_pos s - int (length xs)) (print_char (CHR '' '')) s3) else s3)"
  have "con.keeps s3 s4" unfolding s4_def
    by (auto intro: con.keeps_trans [OF keeps_times keeps_times])
  then have k: "con.keeps ?s2 s4" using s3(2) con.keeps_trans by blast
  have "show_line p s = Some s4"
    unfolding show_line_def Let_def strlen_cstr [OF assms(3)] by (simp add: x(1) s3(1) s4_def)
  then show ?thesis using keeps_shell_inv [OF k i] keeps_shell [OF k] keeps_shell [OF k1] e by (simp add: edited_def)
qed

lemma next_index_range:
  assumes "cmd_history_ok s" "0 < cmd_history_count s"
  shows "-1 \<le> next_index d s" "next_index d s < cmd_history_count s"
  using assms by (auto simp: next_index_def Let_def cmd_history_ok_def)

lemma history_show_total:
  assumes "shell_inv s"
  shows "\<exists>s'. history_show d s = Some s' \<and> shell_inv s'"
proof (cases "cmd_history_count s = 0")
  case True
  then show ?thesis using assms by (simp add: history_show_def)
next
  case False
  have ok: "con_inv s" "cmd_history_ok s" "short_str (cmd_buffer s)" "0 < cmd_history_count s"
    using assms False by (auto simp: shell_inv_def editor_ok_def cmd_history_ok_def)
  obtain s1 where s1: "(if history_current s = -1 \<and> d = 1 then do {
        x \<leftarrow> str_copy (saved_cmd s) (cmd_buffer s); Some (s\<lparr>saved_cmd := x, saved_cmd_pos := cmd_pos s\<rparr>)
      } else Some s) = Some s1" "con_inv s1" "cmd_history_ok s1" "cmd_history_count s1 = cmd_history_count s"
  proof (cases "history_current s = -1 \<and> d = 1")
    case True
    obtain x where x: "str_copy (saved_cmd s) (cmd_buffer s) = Some x" "short_str x" using short_str_copy [OF ok(3)] by blast
    show thesis by (rule that [of "s\<lparr>saved_cmd := x, saved_cmd_pos := cmd_pos s\<rparr>"])
      (use True x ok in \<open>simp_all add: cmd_history_ok_def\<close>)
  next
    case False
    show thesis by (rule that [OF if_not_P [OF False]]) (use ok in simp_all)
  qed
  let ?i = "next_index d s1"
  let ?s2 = "s1\<lparr>history_current := ?i\<rparr>"
  have i: "-1 \<le> ?i" "?i < cmd_history_count s" using next_index_range [OF s1(3), of d] s1(4) ok(4) by simp_all
  have s2: "con_inv ?s2" "cmd_history_ok ?s2" using s1 i by (auto simp: cmd_history_ok_def)
  let ?p = "if ?i \<ge> 0 then cmd_history s1 (nat ?i) else saved_cmd s1"
  have "short_str ?p" using s1(3,4) i by (auto simp: cmd_history_ok_def)
  then obtain xs where "cstr ?p xs" "length xs \<le> 127" by (auto simp: short_str_def)
  from show_line_shows [OF s2 this] obtain s3 where s3: "show_line ?p ?s2 = Some s3" "shell_inv s3" by blast
  have "history_show d s = show_line ?p ?s2"
    unfolding history_show_def if_not_P [OF False] s1(1) using i s1(4) by simp
  then show ?thesis using s3 by simp
qed

section \<open>Every input\<close>

lemma newline_total:
  assumes "shell_inv s"
  shows "\<exists>s'. process_newline s = Some s' \<and> shell_inv s' \<and> line s' = [] \<and> shell_active s' = shell_active s"
proof (cases "cmd_pos s > 0")
  case True
  have ed: "editor_ok s" using assms by (simp add: shell_inv_def)
  then have s0: "s\<lparr>cmd_buffer := (cmd_buffer s)(nat (cmd_pos s) := 0)\<rparr> = s"
    using line_cstr [OF ed] True by (simp add: fun_upd_idem)
  obtain s1 where s1: "sprintk ''\<newline>'' [] s = Some s1" "con.keeps s s1" using sprintk_plain [of "''\<newline>''" s] by auto
  obtain s2 where s2: "execute_command s1 = Some s2" "con_inv s2" "cmd_history_ok s2" "short_str (cmd_buffer s2)"
      "shell_active s2 = shell_active s"
    using execute_total [OF keeps_shell_inv [OF s1(2) assms]] keeps_shell(7) [OF s1(2)] by auto
  show ?thesis
    using True s0 s1(1) s2 by (simp add: process_newline_def shell_inv_def editor_ok_def cmd_history_ok_def line_def)
next
  case False
  obtain s1 where s1: "sprintk ''\<newline>'' [] s = Some s1" "con.keeps s s1" using sprintk_plain [of "''\<newline>''" s] by auto
  obtain s2 where s2: "sprintk PROMPT [] s1 = Some s2" "con.keeps s1 s2" using sprintk_plain [of PROMPT s1] by (auto simp: PROMPT_def)
  note k = con.keeps_trans [OF s1(2) s2(2)]
  show ?thesis using False s1(1) s2(1) keeps_shell_inv [OF k assms] keeps_shell [OF k]
    by (simp add: process_newline_def line_def)
qed

lemma shell_input_total:
  assumes "shell_inv s"
  shows "\<exists>s'. shell_process_input c s = Some s' \<and> shell_inv s'"
proof (cases "shell_active s")
  case True
  consider "c \<in> {KEY_UP, KEY_DOWN}" | "c = CHR 0x0A" | "c \<notin> {KEY_UP, KEY_DOWN, CHR 0x0A}" by blast
  then show ?thesis
  proof cases
    case 1
    then show ?thesis using True assms history_show_total [OF assms]
      by (auto simp: shell_process_input_def process_key_def)
  next
    case 2
    then show ?thesis using True newline_total [OF assms] by (auto simp: shell_process_input_def)
  next
    case 3
    then show ?thesis using shell_edit_step [OF assms True] by (auto simp: edits_to_def)
  qed
qed (use assms in \<open>simp add: shell_process_input_def\<close>)

primrec feed :: "string \<Rightarrow> 'a shell_scheme \<Rightarrow> 'a shell_scheme option" where
  "feed [] s = Some s"
| "feed (c # cs) s = do { s' \<leftarrow> shell_process_input c s; feed cs s' }"

lemma feed_total: "shell_inv s \<Longrightarrow> \<exists>s'. feed cs s = Some s' \<and> shell_inv s'"
proof (induction cs arbitrary: s)
  case (Cons c cs)
  obtain t where "shell_process_input c s = Some t" "shell_inv t" using shell_input_total [OF Cons.prems] by blast
  then show ?case using Cons.IH [of t] by simp
qed simp

lemma shell_init_total:
  assumes "con_inv s"
  shows "\<exists>s'. shell_init s = Some s' \<and> shell_inv s' \<and> shell_active s' \<and> edited s' = ([], 0)"
proof -
  have c0: "con_inv (clear_screen s)" by (rule clear_inv [OF assms])
  obtain s1 where s1: "sprintk ''=== LightNightOS Shell (with cursor movement) ===\<newline>'' [] (clear_screen s) = Some s1"
      "con.keeps (clear_screen s) s1"
    using sprintk_plain [of "''=== LightNightOS Shell (with cursor movement) ===\<newline>''" "clear_screen s"] by auto
  obtain s2 where s2: "sprintk ''Type 'help' for available commands\<newline>'' [] s1 = Some s2" "con.keeps s1 s2"
    using sprintk_plain [of "''Type 'help' for available commands\<newline>''" s1] by auto
  obtain s3 where s3: "sprintk ''=================================================\<newline>\<newline>'' [] s2 = Some s3" "con.keeps s2 s3"
    using sprintk_plain [of "''=================================================\<newline>\<newline>''" s2] by auto
  let ?s4 = "s3\<lparr>shell_active := True, cmd_pos := 0, cursor_pos := 0, cmd_buffer := (cmd_buffer s3)(0 := 0),
    saved_cmd := (saved_cmd s3)(0 := 0), saved_cmd_pos := 0, cmd_history_count := 0, history_current := -1,
    history_saved_current := -1\<rparr>"
  have "con_inv s3" using con.keeps_trans [OF con.keeps_trans [OF s1(2) s2(2)] s3(2)] c0 by (simp add: con.keeps_def)
  then have i: "shell_inv ?s4"
    by (simp add: shell_inv_def editor_ok_def cmd_history_ok_def short_str_zero [of _ 0])
  obtain s5 where s5: "sprintk PROMPT [] ?s4 = Some s5" "con.keeps ?s4 s5"
    using sprintk_plain [of PROMPT ?s4] by (auto simp: PROMPT_def)
  have k: "con.keeps ?s4 (update_cursor (get_cursor_row s5) (get_cursor_col s5) s5)"
    by (rule con.keeps_trans [OF s5(2)], rule con.keeps_op) (rule con_ops.intros)
  have "shell_init s = Some (update_cursor (get_cursor_row s5) (get_cursor_col s5) s5)"
    using s1(1) s2(1) s3(1) s5(1) by (simp add: shell_init_def)
  then show ?thesis using keeps_shell_inv [OF k i] keeps_shell [OF k] by (simp add: edited_def line_def)
qed

text \<open>C29: from any console in order, \<open>shell_init\<close> returns, and then every sequence of input
  characters is processed to its end: no string routine runs past a buffer, and the state stays
  well formed (the caret inside the line, the line terminated inside its 128 bytes, at most fifty
  terminated history entries, the console invariant).\<close>

theorem shell_survives_any_input:
  assumes "con_inv s"
  shows "\<exists>s0. shell_init s = Some s0 \<and> (\<forall>cs. \<exists>s'. feed cs s0 = Some s' \<and> shell_inv s')"
  using shell_init_total [OF assms] feed_total by blast

definition idle_shell :: shell where
  "idle_shell = console.extend (console_init (con_boot (\<lambda>_. 0)))
     \<lparr>cmd_history = (\<lambda>_ _. 0), cmd_history_count = 0, history_current = -1, history_saved_current = -1,
      cmd_buffer = (\<lambda>_. 0), cmd_pos = 0, cursor_pos = 0, shell_active = True, saved_cmd = (\<lambda>_. 0), saved_cmd_pos = 0\<rparr>"

lemma idle_shell_con: "con_inv idle_shell"
proof -
  have "con_inv (console_init (con_boot (\<lambda>_. 0)))" unfolding console_init_def
    by (rule clear_screen_inv) (simp_all add: con_boot_def history_ok_def)
  then show ?thesis
    by (simp add: idle_shell_def con_inv_defs active_def backed_up_def TBUF_def console.defs)
qed

lemma idle_shell_inv: "shell_inv idle_shell" "shell_active idle_shell"
proof -
  have f: "cmd_pos idle_shell = 0" "cursor_pos idle_shell = 0" "cmd_history_count idle_shell = 0"
    "history_current idle_shell = -1" "cmd_buffer idle_shell = (\<lambda>_. 0)" "saved_cmd idle_shell = (\<lambda>_. 0)"
    by (simp_all add: idle_shell_def console.defs)
  show "shell_inv idle_shell" using idle_shell_con
    by (simp add: shell_inv_def editor_ok_def cmd_history_ok_def f short_str_zero [of _ 0])
  show "shell_active idle_shell" by (simp add: idle_shell_def console.defs)
qed

theorem shell_survives_any_input_witness:
  "\<exists>s0. shell_init idle_shell = Some s0 \<and>
    (\<exists>s'. feed (''echo hi'' @ [CHR 0x0A, CHR 0x01, CHR 0x08, CHR 0x0A]) s0 = Some s' \<and> shell_inv s')"
  using shell_survives_any_input [OF idle_shell_con] by blast

text \<open>C9: the editing keys of the shell (printable characters, backspace, delete, left, right, home,
  end) return and implement the abstract line editor: what they do to the buffer, its length and
  the caret is what \<open>edit\<close> does to the line of text; the buffer never exceeds its 128 bytes, the
  command history is unchanged and the invariant is kept.\<close>

theorem editing_keys_implement_line_editor:
  assumes "shell_inv s" "shell_active s" "c \<notin> {KEY_UP, KEY_DOWN, CHR 0x0A}"
  shows "\<exists>s'. shell_process_input c s = Some s' \<and> shell_inv s' \<and> edited s' = edit c (edited s) \<and>
    cmd_history s' = cmd_history s \<and> cmd_history_count s' = cmd_history_count s \<and> shell_active s'"
  using shell_edit_step [OF assms] assms(2) by (auto simp: edits_to_def)

theorem editing_keys_implement_line_editor_witness:
  "\<exists>s'. shell_process_input (CHR ''e'') idle_shell = Some s' \<and> edited s' = ([0x65], 1)"
proof -
  have "edited idle_shell = ([], 0)" by (simp add: edited_def idle_shell_def line_def console.defs)
  then show ?thesis
    using editing_keys_implement_line_editor [OF idle_shell_inv, of "CHR ''e''"] by (auto simp: edit_def)
qed

text \<open>C30: on a terminated line \<open>parse_arguments\<close> returns, cuts the line in place and sets \<open>argv\<close> to
  its words, in order: at most fifteen, the fifteenth taking the rest of the line, blanks
  included. Nothing behind the terminator changes.\<close>

theorem parse_arguments_splits_words:
  assumes "cstr cmdline xs"
  shows "\<exists>buf argv. parse_arguments cmdline = Some (buf, argv) \<and> args_at buf argv (split_args 15 xs) \<and>
    (\<forall>j \<ge> length xs. buf j = cmdline j)"
  using parse_arguments_splits [OF assms] .

theorem parse_arguments_splits_words_witness:
  "\<exists>buf argv. parse_arguments (lit '' echo hi '') = Some (buf, argv) \<and>
     args_at buf argv [[0x65, 0x63, 0x68, 0x6F], [0x68, 0x69]]"
proof -
  have "split_args (Suc (Suc (Suc k))) [0x20, 0x65, 0x63, 0x68, 0x6F, 0x20, 0x68, 0x69, 0x20] =
      [[0x65, 0x63, 0x68, 0x6F], [0x68, 0x69]]" for k
    by (simp add: blank_def)
  from this [of 12] have "split_args 15 [0x20, 0x65, 0x63, 0x68, 0x6F, 0x20, 0x68, 0x69, 0x20] =
      [[0x65, 0x63, 0x68, 0x6F], [0x68, 0x69]]" by simp
  moreover have "cstr (lit '' echo hi '') [0x20, 0x65, 0x63, 0x68, 0x6F, 0x20, 0x68, 0x69, 0x20]"
    using lit_cstr [of "'' echo hi ''"] by simp
  ultimately show ?thesis using parse_arguments_splits_words [of "lit '' echo hi ''"] by metis
qed

text \<open>The first press of the up key shows the oldest command of the history, entry 0, and not
  the last one entered.\<close>

theorem first_up_key_shows_oldest_command:
  assumes "shell_inv s" "shell_active s" "history_current s = -1" "0 < cmd_history_count s"
    and "cstr (cmd_history s 0) xs"
  shows "\<exists>s'. shell_process_input KEY_UP s = Some s' \<and> edited s' = (xs, length xs) \<and> history_current s' = 0"
proof -
  have ok: "con_inv s" "cmd_history_ok s" "short_str (cmd_buffer s)" using assms(1) by (auto simp: shell_inv_def editor_ok_def)
  have "length xs \<le> 127"
  proof -
    have "short_str (cmd_history s 0)" using ok(2) assms(4) by (simp add: cmd_history_ok_def)
    then obtain ys where y: "cstr (cmd_history s 0) ys" "length ys \<le> 127" by (auto simp: short_str_def)
    then show ?thesis using strlen_cstr [OF y(1)] strlen_cstr [OF assms(5)] by simp
  qed
  obtain x where x: "str_copy (saved_cmd s) (cmd_buffer s) = Some x" "short_str x" using short_str_copy [OF ok(3)] by blast
  let ?s1 = "s\<lparr>saved_cmd := x, saved_cmd_pos := cmd_pos s\<rparr>"
  have i: "next_index 1 ?s1 = 0" using assms(3,4) by (simp add: next_index_def)
  let ?s2 = "?s1\<lparr>history_current := 0\<rparr>"
  have s2: "con_inv ?s2" "cmd_history_ok ?s2" using ok x assms(4) by (auto simp: cmd_history_ok_def)
  from show_line_shows [OF s2 assms(5) \<open>length xs \<le> 127\<close>] obtain s3 where
    s3: "show_line (cmd_history s 0) ?s2 = Some s3" "edited s3 = (xs, length xs)" "history_current s3 = 0" by auto
  have "history_show 1 s = Some s3" using assms(3,4) x(1) i s3(1) by (simp add: history_show_def)
  then show ?thesis using s3 assms(2,4) by (simp add: shell_process_input_def process_key_def)
qed

definition two_commands :: shell where
  "two_commands = idle_shell\<lparr>cmd_history := (\<lambda>i. lit (if i = 0 then ''help'' else ''clear'')), cmd_history_count := 2\<rparr>"

theorem first_up_key_shows_oldest_command_witness:
  "\<exists>s'. shell_process_input KEY_UP two_commands = Some s' \<and> edited s' = (map of_char ''help'', 4)"
proof -
  have l: "cstr (lit ''help'') (map of_char ''help'')" "cstr (lit ''clear'') (map of_char ''clear'')"
    by (rule lit_cstr; simp)+
  have ss: "short_str (lit ''help'')" "short_str (lit ''clear'')"
    using short_str_zero [of "lit ''help''" 4] short_str_zero [of "lit ''clear''" 5] by (simp_all add: lit_def)
  have f: "history_current two_commands = -1" "cmd_history_count two_commands = 2" "cmd_history two_commands 0 = lit ''help''"
    by (simp_all add: two_commands_def idle_shell_def console.defs)
  have "history_current idle_shell = -1" by (simp add: idle_shell_def console.defs)
  then have i: "shell_inv two_commands" "shell_active two_commands"
    using idle_shell_inv ss
    by (auto simp: two_commands_def shell_inv_def editor_ok_def cmd_history_ok_def line_def less_Suc_eq numeral_2_eq_2)
  show ?thesis using first_up_key_shows_oldest_command [OF i f(1), unfolded f, OF _ l(1)] by auto
qed

lemma split_args_blanks: "\<forall>b \<in> set xs. blank b \<Longrightarrow> split_args n xs = []"
  by (cases n) simp_all

text \<open>A line of blanks is executed without a new prompt: the call returns at \<open>argc == 0\<close> with the
  screen, the cursor and the ports as they were.\<close>

theorem blank_line_prints_no_prompt:
  assumes "shell_inv s" "0 < cmd_pos s" "\<forall>b \<in> set (line s). blank b"
  shows "\<exists>s'. execute_command s = Some s' \<and> vga s' = vga s \<and> cursor_row s' = cursor_row s \<and>
    cursor_col s' = cursor_col s \<and> ports s' = ports s"
proof -
  have ed: "editor_ok s" "cmd_history_ok s" using assms(1) by (auto simp: shell_inv_def)
  have cs: "cstr (cmd_buffer s) (line s)" using ed(1) assms(2) by (simp add: editor_ok_def)
  have s1: "s\<lparr>cmd_buffer := (cmd_buffer s)(nat (cmd_pos s) := 0)\<rparr> = s"
    using line_cstr [OF ed(1)] assms(2) by (simp add: fun_upd_idem)
  obtain h n where h: "history_add (cmd_buffer s) s = Some (s\<lparr>cmd_history := h, cmd_history_count := n\<rparr>)"
    using history_add_total [OF ed(2), of "cmd_buffer s"] ed(1) by (auto simp: editor_ok_def)
  obtain buf where "parse_arguments (cmd_buffer s) = Some (buf, [])"
    using parse_arguments_splits [OF cs] split_args_blanks [OF assms(3)] by (auto simp: args_at_def)
  then have "execute_command s = Some (s\<lparr>cmd_history := h, cmd_history_count := n, cmd_buffer := buf\<rparr>)"
    using assms(2) s1 h by (simp add: execute_command_def)
  then show ?thesis by simp
qed


theorem blank_line_prints_no_prompt_witness:
  "\<exists>s :: shell. line s = [0x20] \<and> (\<exists>s'. execute_command s = Some s' \<and> vga s' = vga s)"
proof -
  let ?s = "idle_shell\<lparr>cmd_buffer := lit '' '', cmd_pos := 1, cursor_pos := 1\<rparr>"
  have l: "line ?s = [0x20]" "cmd_pos ?s = 1" by (simp_all add: line_def lit_def)
  have "editor_ok ?s" using editor_ok_intro [of ?s "[0x20]"] lit_cstr [of "'' ''"] by simp
  then have i: "shell_inv ?s" using idle_shell_inv by (simp add: shell_inv_def cmd_history_ok_def)
  show ?thesis
    using blank_line_prints_no_prompt [OF i] l by (intro exI [of _ ?s]) (auto simp: blank_def)
qed

end
