(* ===== verification/Heap.thy ===== *)
theory Heap
  imports Paging "HOL-Library.Monad_Syntax"
begin

text \<open>
  The kernel heap of \<open>src/src/kernel/memory.c\<close>: \<open>malloc\<close>, \<open>free\<close> and the list of
  \<open>struct malloc_header\<close> they walk.

  The headers live in memory, 24 bytes in front of each payload. The two list walks have no
  bound in the code, so they are partial functions: a corrupt, cyclic list makes the call
  return \<open>None\<close>. \<open>seg\<close> abstracts the list to a list of \<open>(size, free)\<close> blocks that tile the
  heap; \<open>place\<close>, \<open>release\<close> and \<open>coalesce\<close> are the operations on that list, and the lemmas show
  that \<open>malloc\<close> and \<open>free\<close> implement them, always return, and never hand out memory twice.

  The locale \<open>allocator\<close> is the contract the other parts of the kernel use; it is interpreted
  on \<open>malloc\<close> and \<open>free\<close> at the end.
\<close>

section \<open>Headers\<close>

text \<open>\<open>size\<close> at 0, \<open>next\<close> at 8, \<open>is_free\<close> (4 bytes) at 16; \<open>sizeof\<close> is 24.\<close>

definition sizeof_header :: u64 where "sizeof_header = 24"

definition hdr_size :: "memory \<Rightarrow> u64 \<Rightarrow> u64" where
  "hdr_size m h = load_le 8 m h"
definition hdr_next :: "memory \<Rightarrow> u64 \<Rightarrow> u64" where
  "hdr_next m h = load_le 8 m (h + 8)"
definition hdr_is_free :: "memory \<Rightarrow> u64 \<Rightarrow> u32" where
  "hdr_is_free m h = ucast (load_le 4 m (h + 16))"

definition set_hdr_size :: "u64 \<Rightarrow> u64 \<Rightarrow> memory \<Rightarrow> memory" where
  "set_hdr_size h v m = store_le 8 m h v"
definition set_hdr_next :: "u64 \<Rightarrow> u64 \<Rightarrow> memory \<Rightarrow> memory" where
  "set_hdr_next h v m = store_le 8 m (h + 8) v"
definition set_hdr_is_free :: "u64 \<Rightarrow> u32 \<Rightarrow> memory \<Rightarrow> memory" where
  "set_hdr_is_free h v m = store_le 4 m (h + 16) (ucast v)"

text \<open>The three assignments that fill in a header.\<close>

definition put_header :: "u64 \<Rightarrow> u64 \<Rightarrow> u64 \<Rightarrow> u32 \<Rightarrow> memory \<Rightarrow> memory" where
  "put_header h sz nx fr m = set_hdr_is_free h fr (set_hdr_next h nx (set_hdr_size h sz m))"

section \<open>malloc\<close>

text \<open>\<open>while (current)\<close>: the first free block of at least \<open>total_size\<close> bytes, or 0, and \<open>prev\<close>.\<close>

partial_function (option) malloc_find :: "memory \<Rightarrow> u64 \<Rightarrow> u64 \<Rightarrow> u64 \<Rightarrow> (u64 \<times> u64) option" where
  "malloc_find m total_size current prev =
     (if current = 0 then Some (0, prev)
      else if hdr_is_free m current \<noteq> 0 \<and> hdr_size m current \<ge> total_size then Some (current, prev)
      else malloc_find m total_size (hdr_next m current) current)"

text \<open>The block that opens an empty heap.\<close>

definition malloc_first :: "'a kmem_scheme \<Rightarrow> bool \<times> 'a kmem_scheme" where
  "malloc_first s =
     (if malloc_head s \<noteq> 0 then (True, s)
      else
        let (page, s1) = alloc_page s in
        if page = 0 then
          (False, printk_color RED BLACK ''malloc: Failed to allocate first page\<newline>'' [] s1)
        else
          let h = Phy_To_Virt (phy_addr (ram s1) page);
              s2 = s1\<lparr>malloc_head := h, ram := put_header h (PAGE_2M_SIZE - sizeof_header) 0 1 (ram s1)\<rparr>
          in (True, malloc_debug ''Initialized heap with first page at %p\<newline>'' [VNum h] s2))"

text \<open>The body of the walk for the block that fits.\<close>

definition malloc_take :: "u64 \<Rightarrow> u64 \<Rightarrow> 'a kmem_scheme \<Rightarrow> u64 \<times> 'a kmem_scheme" where
  "malloc_take sz current s =
     (let total_size = sz + sizeof_header;
          s1 = (if hdr_size (ram s) current > total_size + sizeof_header + 8 then
                  let new_block = current + total_size;
                      m1 = put_header new_block (hdr_size (ram s) current - total_size)
                             (hdr_next (ram s) current) 1 (ram s);
                      m2 = set_hdr_next current new_block (set_hdr_size current sz m1)
                  in malloc_debug ''Split block: %lu bytes, remaining: %lu bytes\<newline>''
                       [VNum sz, VNum (hdr_size m2 new_block)] (s\<lparr>ram := m2\<rparr>)
                else s);
          s2 = s1\<lparr>ram := set_hdr_is_free current 0 (ram s1),
                 malloc_total_allocated := malloc_total_allocated s1 + sz\<rparr>;
          result = current + sizeof_header
      in (result, malloc_debug ''Allocated %lu bytes at %p\<newline>'' [VNum sz, VNum result] s2))"

text \<open>No block fits: a new page is appended behind \<open>prev\<close>.\<close>

definition malloc_grow :: "u64 \<Rightarrow> u64 \<Rightarrow> 'a kmem_scheme \<Rightarrow> u64 \<times> 'a kmem_scheme" where
  "malloc_grow sz prev s =
     (let (page, s1) = alloc_page s in
      if page = 0 then (0, printk_color RED BLACK ''malloc: Out of pages!\<newline>'' [] s1)
      else
        let total_size = sz + sizeof_header;
            new_block = Phy_To_Virt (phy_addr (ram s1) page);
            m1 = put_header new_block (PAGE_2M_SIZE - sizeof_header) 0 0 (ram s1);
            m2 = (if prev \<noteq> 0 then set_hdr_next prev new_block m1 else m1);
            s2 = s1\<lparr>ram := m2\<rparr>;
            s3 = (if hdr_size m2 new_block > total_size + sizeof_header + 8 then
                    let split_block = new_block + total_size;
                        m3 = put_header split_block (hdr_size m2 new_block - total_size) 0 1 m2;
                        m4 = set_hdr_next new_block split_block (set_hdr_size new_block sz m3)
                    in malloc_debug ''Split new page: %lu bytes, remaining: %lu bytes\<newline>''
                         [VNum sz, VNum (hdr_size m4 split_block)] (s2\<lparr>ram := m4\<rparr>)
                  else s2);
            s4 = s3\<lparr>malloc_total_allocated := malloc_total_allocated s3 + sz\<rparr>;
            result = new_block + sizeof_header
        in (result, malloc_debug ''Allocated %lu bytes at %p (new page)\<newline>''
                      [VNum sz, VNum result] s4))"

definition max_allowed :: u64 where
  "max_allowed = PAGE_2M_SIZE - sizeof_header - 128"

definition malloc :: "u64 \<Rightarrow> 'a kmem_scheme \<Rightarrow> (u64 \<times> 'a kmem_scheme) option" where
  "malloc size0 s =
     (if size0 = 0 then Some (0, malloc_debug ''zero size request\<newline>'' [] s)
      else if size0 > max_allowed then
        Some (0, printk_color RED BLACK ''malloc: Request too large: %lu bytes (max: %lu)\<newline>''
                   [VNum size0, VNum max_allowed] s)
      else
        let size = (size0 + 7) AND NOT 7;
            (ok, s1) = malloc_first s
        in if \<not> ok then Some (0, s1)
           else do {
             (found, prev) \<leftarrow> malloc_find (ram s1) (size + sizeof_header) (malloc_head s1) 0;
             Some (if found \<noteq> 0 then malloc_take size found s1 else malloc_grow size prev s1)
           })"

section \<open>free\<close>

text \<open>\<open>while (current && current->next)\<close>\<close>

partial_function (option) free_merge :: "u64 \<Rightarrow> 'a kmem_scheme \<Rightarrow> 'a kmem_scheme option" where
  "free_merge current s =
     (if current = 0 \<or> hdr_next (ram s) current = 0 then Some s
      else
        let nxt = hdr_next (ram s) current in
        if hdr_is_free (ram s) current \<noteq> 0 \<and> hdr_is_free (ram s) nxt \<noteq> 0 then
          let merged_size = hdr_size (ram s) current + sizeof_header + hdr_size (ram s) nxt;
              s1 = malloc_debug ''Merging blocks: %lu + %lu = %lu bytes\<newline>''
                     [VNum (hdr_size (ram s) current), VNum (hdr_size (ram s) nxt), VNum merged_size] s;
              m1 = set_hdr_size current merged_size (ram s1);
              m2 = set_hdr_next current (hdr_next m1 (hdr_next m1 current)) m1
          in free_merge current (s1\<lparr>ram := m2\<rparr>)
        else free_merge nxt s)"

text \<open>The five lines \<open>free\<close> prints before its checks, and the four of a rejected pointer.\<close>

definition free_report :: "u64 \<Rightarrow> 'a kmem_scheme \<Rightarrow> 'a kmem_scheme" where
  "free_report ptr s =
     (malloc_debug ''Kernel heap phys: 0x%016lx - 0x%016lx\<newline>''
        [VNum (kernel_heap_start s), VNum (kernel_heap_end s)]
     \<circ> malloc_debug ''Pointer addr: 0x%016lx\<newline>'' [VNum ptr]
     \<circ> malloc_debug ''Heap virt range: 0x%016lx - 0x%016lx\<newline>''
        [VNum (Phy_To_Virt (kernel_heap_start s)), VNum (Phy_To_Virt (kernel_heap_end s))]
     \<circ> malloc_debug ''Checking pointer %p\<newline>'' [VNum ptr]) s"

definition free_reject :: "u64 \<Rightarrow> 'a kmem_scheme \<Rightarrow> 'a kmem_scheme" where
  "free_reject ptr s =
     (let lo = Phy_To_Virt (kernel_heap_start s); hi = Phy_To_Virt (kernel_heap_end s) in
      (printk_color RED BLACK ''  Diff to start: %ld\<newline>'' [VNum (ptr - lo)]
      \<circ> printk_color RED BLACK ''  Heap virt: 0x%016lx - 0x%016lx\<newline>'' [VNum lo, VNum hi]
      \<circ> printk_color RED BLACK ''  Pointer: 0x%016lx\<newline>'' [VNum ptr]
      \<circ> printk_color RED BLACK ''free: Invalid pointer %p\<newline>'' [VNum ptr]) s)"

definition free :: "u64 \<Rightarrow> 'a kmem_scheme \<Rightarrow> 'a kmem_scheme option" where
  "free ptr s =
     (if ptr = 0 then Some (malloc_debug ''null pointer\<newline>'' [] s)
      else
        let s1 = free_report ptr s;
            header = ptr - sizeof_header
        in if ptr < Phy_To_Virt (kernel_heap_start s) \<or> ptr \<ge> Phy_To_Virt (kernel_heap_end s)
           then Some (free_reject ptr s1)
           else if hdr_size (ram s1) header > PAGE_2M_SIZE
           then Some (printk_color RED BLACK ''free: Invalid header at %p\<newline>'' [VNum header] s1)
           else
             let s2 = s1\<lparr>ram := set_hdr_is_free header 1 (ram s1),
                         malloc_total_freed := malloc_total_freed s1 + hdr_size (ram s1) header\<rparr>
             in do {
               s3 \<leftarrow> free_merge (malloc_head s2) s2;
               let s4 = malloc_debug ''Freed memory at %p, size: %lu bytes\<newline>''
                          [VNum ptr, VNum (hdr_size (ram s3) header)] s3;
               Some (malloc_debug ''Stats: allocated=%lu, freed=%lu\<newline>''
                       [VNum (malloc_total_allocated s4), VNum (malloc_total_freed s4)] s4)
             })"

section \<open>memory_test\<close>

text \<open>The bytes of the string at a pointer, as \<open>%s\<close> prints them.\<close>

definition string_at :: "memory \<Rightarrow> u64 \<Rightarrow> string option" where
  "string_at m p = map_option (\<lambda>n. map (\<lambda>i. char_of (unat (m (p + of_nat i)))) [0..<n])
     (strlen (\<lambda>i. m (p + of_nat i)))"

definition test_patterns :: "u64 \<Rightarrow> u64 \<Rightarrow> u64 \<Rightarrow> 'a kmem_scheme \<Rightarrow> 'a kmem_scheme" where
  "test_patterns ptr1 ptr2 ptr3 s =
     (let s1 = printk_color CYAN BLACK ''Test 1: Multiple allocations:\<newline>'' [] s;
          s2 = printk_color CYAN BLACK ''  malloc(512)  = %p\<newline>'' [VNum ptr1] s1;
          s3 = printk_color CYAN BLACK ''  malloc(1024) = %p\<newline>'' [VNum ptr2] s2;
          s4 = printk_color CYAN BLACK ''  malloc(2048) = %p\<newline>'' [VNum ptr3] s3;
          s5 = s4\<lparr>ram := memset ptr1 0xBB 512 (ram s4)\<rparr>;
          s6 = s5\<lparr>ram := memset ptr2 0xCC 1024 (ram s5)\<rparr>;
          s7 = s6\<lparr>ram := memset ptr3 0xDD 2048 (ram s6)\<rparr>
      in printk_color CYAN BLACK ''  Memory filled with different patterns\<newline>'' [] s7)"

definition test_megabyte :: "u64 \<Rightarrow> 'a kmem_scheme \<Rightarrow> 'a kmem_scheme" where
  "test_megabyte ptr4 s =
     (let s1 = printk_color CYAN BLACK ''Test 2: malloc(1MB) = %p\<newline>'' [VNum ptr4] s;
          s2 = s1\<lparr>ram := memset ptr4 0x55 (1024 * 1024) (ram s1)\<rparr>
      in printk_color CYAN BLACK ''  1MB memory filled\<newline>'' [] s2)"

definition test_string :: "u64 \<Rightarrow> 'a kmem_scheme \<Rightarrow> 'a kmem_scheme option" where
  "test_string ptr2 s =
     (let m = (ram s)(ptr2 := 0x54, ptr2 + 1 := 0x45, ptr2 + 2 := 0x53, ptr2 + 3 := 0x54, ptr2 + 4 := 0)
      in do {
        str \<leftarrow> string_at m ptr2;
        Some (printk_color CYAN BLACK ''Test 3: Write/read test: '%s'\<newline>'' [VStr (Some str)] (s\<lparr>ram := m\<rparr>))
      })"

definition free_if :: "u64 \<Rightarrow> 'a kmem_scheme \<Rightarrow> 'a kmem_scheme option" where
  "free_if p s = (if p \<noteq> 0 then free p s else Some s)"

definition memory_test :: "'a kmem_scheme \<Rightarrow> 'a kmem_scheme option" where
  "memory_test s = do {
     (ptr1, s1) \<leftarrow> malloc 512 (printk_color GREEN BLACK ''=== Memory Allocation Test Start ===\<newline>'' [] s);
     (ptr2, s2) \<leftarrow> malloc 1024 s1;
     (ptr3, s3) \<leftarrow> malloc 2048 s2;
     let s4 = (if ptr1 \<noteq> 0 \<and> ptr2 \<noteq> 0 \<and> ptr3 \<noteq> 0 then test_patterns ptr1 ptr2 ptr3 s3
               else printk_color RED BLACK ''Test 1: Multiple allocations failed!\<newline>'' [] s3);
     (ptr4, s5) \<leftarrow> malloc (1024 * 1024) s4;
     let s6 = (if ptr4 \<noteq> 0 then test_megabyte ptr4 s5
               else printk_color RED BLACK ''Test 2: malloc(1MB) failed!\<newline>'' [] s5);
     s7 \<leftarrow> (if ptr2 \<noteq> 0 then test_string ptr2 s6 else Some s6);
     s8 \<leftarrow> free_if ptr1 s7;
     s9 \<leftarrow> free_if ptr2 s8;
     s10 \<leftarrow> free_if ptr3 s9;
     s11 \<leftarrow> free_if ptr4 s10;
     Some (printk_color CYAN BLACK ''  All memory freed\<newline>'' [] s11)
   }"

section \<open>Reading and writing headers\<close>

lemma header_fields [simp]:
  assumes "unat h + 24 \<le> 2 ^ 64"
  shows "hdr_size (set_hdr_size h v m) h = v"
    "hdr_size (set_hdr_next h v m) h = hdr_size m h"
    "hdr_size (set_hdr_is_free h f m) h = hdr_size m h"
    "hdr_next (set_hdr_size h v m) h = hdr_next m h"
    "hdr_next (set_hdr_next h v m) h = v"
    "hdr_next (set_hdr_is_free h f m) h = hdr_next m h"
    "hdr_is_free (set_hdr_size h v m) h = hdr_is_free m h"
    "hdr_is_free (set_hdr_next h v m) h = hdr_is_free m h"
    "hdr_is_free (set_hdr_is_free h f m) h = f"
  using assms
  by (auto simp: hdr_size_def hdr_next_def hdr_is_free_def set_hdr_size_def set_hdr_next_def
      set_hdr_is_free_def load_store_other load_store_same unsigned_ucast_eq
      intro!: bit_word_eqI simp: bit_simps)

lemma put_header_fields [simp]:
  assumes "unat h + 24 \<le> 2 ^ 64"
  shows "hdr_size (put_header h sz nx fr m) h = sz" "hdr_next (put_header h sz nx fr m) h = nx"
    "hdr_is_free (put_header h sz nx fr m) h = fr"
  using assms by (simp_all add: put_header_def)

lemma header_reads:
  assumes "unat h + 24 \<le> 2 ^ 64" "same_on (bytes_at h 24) m m'"
  shows "hdr_size m h = hdr_size m' h" "hdr_next m h = hdr_next m' h"
    "hdr_is_free m h = hdr_is_free m' h"
proof -
  have sub: "same_on (bytes_at h 8) m m'" "same_on (bytes_at (h + 8) 8) m m'"
      "same_on (bytes_at (h + 16) 4) m m'"
    using assms by (auto elim!: same_on_subset)
  show "hdr_size m h = hdr_size m' h" "hdr_next m h = hdr_next m' h"
    "hdr_is_free m h = hdr_is_free m' h"
    using load_le_cong [OF _ sub(1)] load_le_cong [OF _ sub(2)] load_le_cong [OF _ sub(3)] assms(1)
    by (simp_all add: hdr_size_def hdr_next_def hdr_is_free_def)
qed

lemma header_sets_same_on:
  assumes "unat h + 24 \<le> 2 ^ 64" "S \<inter> bytes_at h 24 = {}"
  shows "same_on S (set_hdr_size h v m) m" "same_on S (set_hdr_next h v m) m"
    "same_on S (set_hdr_is_free h f m) m"
proof -
  have "S \<inter> bytes_at h 8 = {}" "S \<inter> bytes_at (h + 8) 8 = {}" "S \<inter> bytes_at (h + 16) 4 = {}"
    using assms by auto
  then show "same_on S (set_hdr_size h v m) m" "same_on S (set_hdr_next h v m) m"
    "same_on S (set_hdr_is_free h f m) m"
    using assms(1)
    by (auto simp: set_hdr_size_def set_hdr_next_def set_hdr_is_free_def intro!: same_on_store_le)
qed

lemma put_header_same_on:
  "unat h + 24 \<le> 2 ^ 64 \<Longrightarrow> S \<inter> bytes_at h 24 = {} \<Longrightarrow> same_on S (put_header h sz nx fr m) m"
  unfolding put_header_def using header_sets_same_on [of h S] same_on_trans by metis

lemma header_sets_other:
  assumes "unat h + 24 \<le> 2 ^ 64" "unat k + 24 \<le> 2 ^ 64" "bytes_at h 24 \<inter> bytes_at k 24 = {}"
  shows "hdr_size (set_hdr_size k v m) h = hdr_size m h"
    "hdr_size (set_hdr_next k v m) h = hdr_size m h"
    "hdr_size (set_hdr_is_free k f m) h = hdr_size m h"
    "hdr_size (put_header k v w f m) h = hdr_size m h"
    "hdr_next (set_hdr_size k v m) h = hdr_next m h"
    "hdr_next (set_hdr_next k v m) h = hdr_next m h"
    "hdr_next (set_hdr_is_free k f m) h = hdr_next m h"
    "hdr_next (put_header k v w f m) h = hdr_next m h"
    "hdr_is_free (set_hdr_size k v m) h = hdr_is_free m h"
    "hdr_is_free (set_hdr_next k v m) h = hdr_is_free m h"
    "hdr_is_free (set_hdr_is_free k f m) h = hdr_is_free m h"
    "hdr_is_free (put_header k v w f m) h = hdr_is_free m h"
  using header_reads [OF assms(1) header_sets_same_on(1) [OF assms(2,3)]]
    header_reads [OF assms(1) header_sets_same_on(2) [OF assms(2,3)]]
    header_reads [OF assms(1) header_sets_same_on(3) [OF assms(2,3)]]
    header_reads [OF assms(1) put_header_same_on [OF assms(2,3)]]
  by simp_all

section \<open>The heap as a list of blocks\<close>

text \<open>A block is its payload size and whether it is free; addresses are natural numbers here.\<close>

type_synonym block = "nat \<times> bool"

fun span :: "block list \<Rightarrow> nat" where
  "span [] = 0"
| "span ((n, f) # bs) = 24 + n + span bs"

text \<open>The header list from \<open>a\<close> on is \<open>bs\<close>, each block starting where the previous one ends;
  the last header links to \<open>z\<close>.\<close>

fun seg :: "memory \<Rightarrow> nat \<Rightarrow> block list \<Rightarrow> u64 \<Rightarrow> bool" where
  "seg m a [] z \<longleftrightarrow> True"
| "seg m a ((n, f) # bs) z \<longleftrightarrow>
     hdr_size m (of_nat a) = of_nat n \<and> (hdr_is_free m (of_nat a) \<noteq> 0) = f \<and>
     hdr_next m (of_nat a) = (if bs = [] then z else of_nat (a + 24 + n)) \<and>
     seg m (a + 24 + n) bs z"

fun headers :: "nat \<Rightarrow> block list \<Rightarrow> nat set" where
  "headers a [] = {}"
| "headers a ((n, f) # bs) = {a ..< a + 24} \<union> headers (a + 24 + n) bs"

text \<open>The payloads in use: address and size.\<close>

fun live :: "nat \<Rightarrow> block list \<Rightarrow> (nat \<times> nat) set" where
  "live a [] = {}"
| "live a ((n, f) # bs) = (if f then {} else {(a + 24, n)}) \<union> live (a + 24 + n) bs"

text \<open>First fit, with the remainder split off when it is large enough for a header and more
  than eight bytes.\<close>

definition carve :: "nat \<Rightarrow> nat \<Rightarrow> block list" where
  "carve sz n = (if n > sz + 24 + 24 + 8 then [(sz, False), (n - (sz + 24), True)] else [(n, False)])"

fun place :: "nat \<Rightarrow> nat \<Rightarrow> block list \<Rightarrow> (nat \<times> block list) option" where
  "place sz a [] = None"
| "place sz a ((n, f) # bs) =
     (if f \<and> sz + 24 \<le> n then Some (a + 24, carve sz n @ bs)
      else map_option (\<lambda>(p, bs'). (p, (n, f) # bs')) (place sz (a + 24 + n) bs))"

fun release :: "nat \<Rightarrow> nat \<Rightarrow> block list \<Rightarrow> block list" where
  "release p a [] = []"
| "release p a ((n, f) # bs) = (n, f \<or> p = a + 24) # release p (a + 24 + n) bs"

fun coalesce :: "block list \<Rightarrow> block list" where
  "coalesce ((n, f) # (k, g) # bs) =
     (if f \<and> g then coalesce ((n + 24 + k, True) # bs) else (n, f) # coalesce ((k, g) # bs))"
| "coalesce bs = bs"

fun no_free_pair :: "block list \<Rightarrow> bool" where
  "no_free_pair ((n, f) # (k, g) # bs) \<longleftrightarrow> \<not> (f \<and> g) \<and> no_free_pair ((k, g) # bs)"
| "no_free_pair _ \<longleftrightarrow> True"

subsection \<open>Arithmetic of blocks\<close>

lemma span_append [simp]: "span (xs @ ys) = span xs + span ys"
  by (induction xs rule: span.induct) auto

lemma span_carve [simp]: "sz + 24 \<le> n \<Longrightarrow> span (carve sz n) = 24 + n"
  by (simp add: carve_def)

lemma span_coalesce [simp]: "span (coalesce bs) = span bs"
  by (induction bs rule: coalesce.induct) auto

lemma span_release [simp]: "span (release p a bs) = span bs"
  by (induction p a bs rule: release.induct) auto

lemma coalesce_Nil_iff [simp]: "coalesce bs = [] \<longleftrightarrow> bs = []"
  by (induction bs rule: coalesce.induct) auto

lemma release_Nil_iff [simp]: "release p a bs = [] \<longleftrightarrow> bs = []"
  by (cases bs) auto

lemma headers_span: "headers a bs \<subseteq> {a ..< a + span bs}"
proof (induction a bs rule: headers.induct)
  case (2 a n f bs)
  then have "headers (a + 24 + n) bs \<subseteq> {a ..< a + span ((n, f) # bs)}"
    by (rule order_trans) auto
  then show ?case by auto
qed simp

lemma live_bounds: "(p, n) \<in> live a bs \<Longrightarrow> a + 24 \<le> p \<and> p + n \<le> a + span bs"
  by (induction a bs rule: live.induct) (auto split: if_splits)

text \<open>Two payloads in use never share a byte, nor a payload and a header.\<close>

lemma live_disjoint:
  "(p, n) \<in> live a bs \<Longrightarrow> (q, k) \<in> live a bs \<Longrightarrow> (p, n) \<noteq> (q, k) \<Longrightarrow> {p ..< p + n} \<inter> {q ..< q + k} = {}"
proof (induction a bs rule: live.induct)
  case (2 a m f bs)
  then show ?case
    using live_bounds [of p n "a + 24 + m" bs] live_bounds [of q k "a + 24 + m" bs]
    by (auto split: if_splits)
qed simp

lemma live_headers: "(p, n) \<in> live a bs \<Longrightarrow> {p ..< p + n} \<inter> headers a bs = {}"
proof (induction a bs rule: live.induct)
  case (2 a m f bs)
  have h: "headers (a + 24 + m) bs \<subseteq> {a + 24 + m ..< a + 24 + m + span bs}" by (rule headers_span)
  show ?case
  proof (cases "(p, n) \<in> live (a + 24 + m) bs")
    case True
    then show ?thesis using "2.IH" live_bounds [OF True] by auto
  next
    case False
    then have "p = a + 24" "n = m" using "2.prems" by (auto split: if_splits)
    then show ?thesis using h by fastforce
  qed
qed simp

lemma live_append: "live a (xs @ ys) = live a xs \<union> live (a + span xs) ys"
  by (induction a xs rule: live.induct) (auto simp: add.assoc)

lemma live_carve: "sz + 24 \<le> n \<Longrightarrow> \<exists>k. sz \<le> k \<and> k \<le> sz + 56 \<and> live a (carve sz n) = {(a + 24, k)}"
  by (auto simp: carve_def)

lemma live_coalesce [simp]: "live a (coalesce bs) = live a bs"
  by (induction bs arbitrary: a rule: coalesce.induct) (auto simp: add.assoc)

lemma coalesce_head: "\<exists>k cs. coalesce ((n, f) # bs) = (k, f) # cs"
  by (induction "(n, f) # bs" arbitrary: n f bs rule: coalesce.induct) auto

lemma no_free_pair_Cons:
  "no_free_pair ((n, f) # bs) \<longleftrightarrow> (f \<longrightarrow> bs = [] \<or> \<not> snd (hd bs)) \<and> no_free_pair bs"
  by (cases bs) auto

lemma coalesce_no_free_pair: "no_free_pair (coalesce bs)"
proof (induction bs rule: coalesce.induct)
  case (1 n f k g bs)
  then show ?case using coalesce_head [of k g bs] by (auto simp: no_free_pair_Cons)
qed auto

lemma no_free_pair_append:
  "no_free_pair (xs @ ys) \<longleftrightarrow> no_free_pair xs \<and> no_free_pair ys \<and>
     (xs \<noteq> [] \<and> ys \<noteq> [] \<longrightarrow> \<not> (snd (last xs) \<and> snd (hd ys)))"
  by (induction xs) (auto simp: no_free_pair_Cons hd_append)

subsection \<open>Placing and releasing\<close>

lemma place_SomeD:
  "place sz a bs = Some (p, bs') \<Longrightarrow> \<exists>xs n ys. bs = xs @ (n, True) # ys \<and> sz + 24 \<le> n
     \<and> p = a + span xs + 24 \<and> bs' = xs @ carve sz n @ ys"
proof (induction sz a bs arbitrary: bs' rule: place.induct)
  case (2 sz a n f bs)
  show ?case
  proof (cases "f \<and> sz + 24 \<le> n")
    case True
    then show ?thesis using "2.prems" by (intro exI [of _ "[]"] exI [of _ n] exI [of _ bs]) auto
  next
    case False
    then obtain cs where "place sz (a + 24 + n) bs = Some (p, cs)" "bs' = (n, f) # cs"
      using "2.prems" by auto
    with "2.IH" [OF False] obtain xs k ys where "bs = xs @ (k, True) # ys" "sz + 24 \<le> k"
      "p = a + 24 + n + span xs + 24" "cs = xs @ carve sz k @ ys" by blast
    then show ?thesis using \<open>bs' = (n, f) # cs\<close>
      by (intro exI [of _ "(n, f) # xs"] exI [of _ k] exI [of _ ys]) simp
  qed
qed simp

lemma place_live:
  assumes "place sz a bs = Some (p, bs')"
  obtains k where "sz \<le> k" "k \<le> sz + 56" "live a bs' = insert (p, k) (live a bs)"
    "(p, k) \<notin> live a bs" "span bs' = span bs"
proof -
  obtain xs n ys where d: "bs = xs @ (n, True) # ys" "sz + 24 \<le> n" "p = a + span xs + 24"
    "bs' = xs @ carve sz n @ ys" using place_SomeD [OF assms] by blast
  obtain k where k: "sz \<le> k" "k \<le> sz + 56" "live (a + span xs) (carve sz n) = {(p, k)}"
    using live_carve [OF d(2), of "a + span xs"] d(3) by auto
  have "live a bs' = insert (p, k) (live a bs)" "span bs' = span bs"
    using d k by (auto simp: live_append add.assoc)
  moreover have "(p, k) \<notin> live a bs"
    using d live_bounds [of p k a xs] live_bounds [of p k "a + span xs + (24 + n)" ys]
    by (auto simp: live_append add.assoc)
  ultimately show thesis using k that by blast
qed

lemma carve_flags: "carve sz n \<noteq> []" "snd (hd (carve sz n)) = False" "no_free_pair (carve sz n)"
  by (simp_all add: carve_def)

lemma place_no_free_pair:
  assumes "place sz a bs = Some (p, bs')" "no_free_pair bs"
  shows "no_free_pair bs'"
proof -
  obtain xs n ys where "bs = xs @ (n, True) # ys" "bs' = xs @ carve sz n @ ys"
    using place_SomeD [OF assms(1)] by blast
  then show ?thesis using assms(2) carve_flags [of sz n]
    by (auto simp: no_free_pair_append no_free_pair_Cons hd_append)
qed

lemma release_idle: "p < a + 24 \<Longrightarrow> release p a bs = bs"
  by (induction p a bs rule: release.induct) auto

lemma live_release: "live a (release p a bs) = {(q, n) \<in> live a bs. q \<noteq> p}"
proof (induction p a bs rule: release.induct)
  case (2 p a n f bs)
  then show ?case
    using live_bounds [of p _ "a + 24 + n" bs] by (auto simp: release_idle)
qed simp

lemma live_split:
  "(p, n) \<in> live a bs \<Longrightarrow> \<exists>xs ys. bs = xs @ (n, False) # ys \<and> p = a + span xs + 24 \<and>
     release p a bs = xs @ (n, True) # ys"
proof (induction a bs rule: live.induct)
  case (2 a k f bs)
  show ?case
  proof (cases "(p, n) \<in> live (a + 24 + k) bs")
    case True
    then obtain xs ys where "bs = xs @ (n, False) # ys" "p = a + 24 + k + span xs + 24"
      "release p (a + 24 + k) bs = xs @ (n, True) # ys" using "2.IH" by blast
    then show ?thesis by (intro exI [of _ "(k, f) # xs"] exI [of _ ys]) simp
  next
    case False
    then have "f = False" "p = a + 24" "n = k" using "2.prems" by (auto split: if_splits)
    then show ?thesis by (intro exI [of _ "[]"] exI [of _ bs]) (simp add: release_idle)
  qed
qed simp

subsection \<open>The list in memory\<close>

lemma unat_nat_addr: "a < 2 ^ 64 \<Longrightarrow> unat (of_nat a :: u64) = a"
  by (simp add: unat_of_nat)

lemma seg_cong:
  "a + span bs \<le> 2 ^ 64 \<Longrightarrow> same_on (headers a bs) m' m \<Longrightarrow> seg m a bs z \<Longrightarrow> seg m' a bs z"
proof (induction m a bs z rule: seg.induct)
  case (2 m a n f bs z)
  have u: "unat (of_nat a :: u64) = a" using "2.prems"(1) by (intro unat_nat_addr) auto
  have "same_on (bytes_at (of_nat a) 24) m' m"
    by (rule same_on_subset [OF "2.prems"(2)]) (auto simp: u)
  then have "hdr_size m' (of_nat a) = hdr_size m (of_nat a)" "hdr_next m' (of_nat a) = hdr_next m (of_nat a)"
    "hdr_is_free m' (of_nat a) = hdr_is_free m (of_nat a)"
    using header_reads [of "of_nat a" m' m] u "2.prems"(1) by auto
  moreover have "seg m' (a + 24 + n) bs z"
    using "2.prems" same_on_subset [OF "2.prems"(2)] by (intro "2.IH") (auto simp: add.assoc)
  ultimately show ?case using "2.prems"(3) by simp
qed simp

lemma seg_append:
  "ys \<noteq> [] \<Longrightarrow> seg m a (xs @ ys) z \<longleftrightarrow>
     seg m a xs (of_nat (a + span xs)) \<and> seg m (a + span xs) ys z"
  by (induction xs arbitrary: a) (auto simp: add.assoc)

section \<open>The walk finds the first fit\<close>

lemma nat_addr_le: "n < 2 ^ 64 \<Longrightarrow> k < 2 ^ 64 \<Longrightarrow> (of_nat n :: u64) \<le> of_nat k \<longleftrightarrow> n \<le> k"
  by (simp add: word_le_nat_alt unat_of_nat)

lemma nat_addr_0: "a < 2 ^ 64 \<Longrightarrow> (of_nat a :: u64) = 0 \<longleftrightarrow> a = 0"
  by (simp add: word_unat_eq_iff unat_of_nat)

lemma malloc_find_None:
  "seg m a bs 0 \<Longrightarrow> bs \<noteq> [] \<Longrightarrow> 0 < a \<Longrightarrow> a + span bs \<le> 2 ^ 64 \<Longrightarrow> sz + 24 < 2 ^ 64 \<Longrightarrow>
   place sz a bs = None \<Longrightarrow>
   malloc_find m (of_nat (sz + 24)) (of_nat a) prev = Some (0, of_nat (a + span (butlast bs)))"
proof (induction bs arbitrary: a prev)
  case (Cons b bs)
  obtain n f where b: "b = (n, f)" by (cases b)
  have a: "(of_nat a :: u64) \<noteq> 0" using Cons.prems nat_addr_0 [of a] by (simp add: b)
  have nofit: "\<not> (f \<and> sz + 24 \<le> n)" and rest: "place sz (a + 24 + n) bs = None"
    using Cons.prems by (auto simp: b split: if_splits)
  have "(of_nat (sz + 24) :: u64) \<le> of_nat n \<longleftrightarrow> sz + 24 \<le> n"
    using Cons.prems by (intro nat_addr_le) (auto simp: b)
  then have step: "malloc_find m (of_nat (sz + 24)) (of_nat a) prev =
      malloc_find m (of_nat (sz + 24)) (hdr_next m (of_nat a)) (of_nat a)"
    using Cons.prems(1) a nofit by (subst malloc_find.simps) (auto simp: b)
  show ?case
  proof (cases "bs = []")
    case True
    then show ?thesis using step Cons.prems(1) b by (simp add: malloc_find.simps [of m _ 0])
  next
    case False
    have "malloc_find m (of_nat (sz + 24)) (of_nat (a + 24 + n)) (of_nat a)
        = Some (0, of_nat (a + 24 + n + span (butlast bs)))"
      using Cons.prems rest False by (intro Cons.IH) (auto simp: b)
    then show ?thesis using step Cons.prems(1) False by (simp add: b add.assoc)
  qed
qed simp

lemma malloc_find_Some:
  "seg m a bs 0 \<Longrightarrow> 0 < a \<Longrightarrow> a + span bs \<le> 2 ^ 64 \<Longrightarrow> sz + 24 < 2 ^ 64 \<Longrightarrow>
   place sz a bs = Some (p, bs') \<Longrightarrow>
   \<exists>prev'. malloc_find m (of_nat (sz + 24)) (of_nat a) prev = Some (of_nat (p - 24), prev')"
proof (induction bs arbitrary: a prev bs')
  case (Cons b bs)
  obtain n f where b: "b = (n, f)" by (cases b)
  have a: "(of_nat a :: u64) \<noteq> 0" using Cons.prems nat_addr_0 [of a] by (simp add: b)
  have le: "(of_nat (sz + 24) :: u64) \<le> of_nat n \<longleftrightarrow> sz + 24 \<le> n"
    using Cons.prems by (intro nat_addr_le) (auto simp: b)
  show ?case
  proof (cases "f \<and> sz + 24 \<le> n")
    case True
    then have "p - 24 = a" using Cons.prems(5) by (auto simp: b)
    then show ?thesis using Cons.prems(1) True a le by (subst malloc_find.simps) (simp add: b)
  next
    case False
    then obtain cs where cs: "place sz (a + 24 + n) bs = Some (p, cs)"
      using Cons.prems(5) by (auto simp: b)
    then have ne: "bs \<noteq> []" by auto
    have "malloc_find m (of_nat (sz + 24)) (of_nat a) prev =
        malloc_find m (of_nat (sz + 24)) (of_nat (a + 24 + n)) (of_nat a)"
      using Cons.prems(1) a le False ne by (subst malloc_find.simps) (auto simp: b)
    then show ?thesis using Cons.IH [of "a + 24 + n" cs "of_nat a"] Cons.prems cs by (simp add: b)
  qed
qed simp

section \<open>Taking a block\<close>

lemma seg_single: "seg m a [(n, f)] z \<longleftrightarrow>
    hdr_size m (of_nat a) = of_nat n \<and> (hdr_is_free m (of_nat a) \<noteq> 0) = f \<and> hdr_next m (of_nat a) = z"
  by auto

text \<open>One block of a segment is replaced by blocks that cover the same memory.\<close>

lemma seg_replace:
  assumes seg: "seg m a (xs @ (n, f) # ys) z" and bnd: "a + span (xs @ (n, f) # ys) \<le> 2 ^ 64"
    and same: "\<And>S. S \<inter> {a + span xs ..< a + span xs + 24 + n} = {} \<Longrightarrow> same_on S m' m"
    and new: "seg m' (a + span xs) cs (hdr_next m (of_nat (a + span xs)))"
    and cs: "cs \<noteq> []" "span cs = 24 + n"
  shows "seg m' a (xs @ cs @ ys) z"
proof -
  have old: "seg m a xs (of_nat (a + span xs))" "seg m (a + span xs) ((n, f) # ys) z"
    using seg by (simp_all add: seg_append)
  have "seg m' a xs (of_nat (a + span xs))"
    by (rule seg_cong [OF _ _ old(1)]) (use bnd headers_span [of a xs] in \<open>auto intro!: same\<close>)
  moreover have "seg m' (a + span xs + (24 + n)) ys z"
  proof (rule seg_cong)
    show "seg m (a + span xs + (24 + n)) ys z" using old(2) by (simp add: add.assoc)
    show "same_on (headers (a + span xs + (24 + n)) ys) m' m"
      using headers_span [of "a + span xs + (24 + n)" ys] by (intro same) fastforce
  qed (use bnd in simp)
  ultimately show ?thesis using new cs old(2)
    by (cases "ys = []") (simp_all add: seg_append add.assoc)
qed

text \<open>Splitting: the rest of the block gets a header of its own.\<close>

definition split_mem :: "u64 \<Rightarrow> u64 \<Rightarrow> memory \<Rightarrow> memory" where
  "split_mem sz c m =
     set_hdr_next c (c + (sz + 24)) (set_hdr_size c sz
       (put_header (c + (sz + 24)) (hdr_size m c - (sz + 24)) (hdr_next m c) 1 m))"

definition take_mem :: "u64 \<Rightarrow> u64 \<Rightarrow> memory \<Rightarrow> memory" where
  "take_mem sz c m =
     set_hdr_is_free c 0 (if hdr_size m c > sz + 24 + 24 + 8 then split_mem sz c m else m)"

lemma malloc_take_simps:
  "fst (malloc_take sz c s) = c + 24" "ram (snd (malloc_take sz c s)) = take_mem sz c (ram s)"
  "free_pages_list (snd (malloc_take sz c s)) = free_pages_list s"
  "total_free_pages (snd (malloc_take sz c s)) = total_free_pages s"
  "malloc_head (snd (malloc_take sz c s)) = malloc_head s"
  "kernel_heap_start (snd (malloc_take sz c s)) = kernel_heap_start s"
  "kernel_heap_end (snd (malloc_take sz c s)) = kernel_heap_end s"
  "kmem.more (snd (malloc_take sz c s)) = kmem.more s"
  by (simp_all add: malloc_take_def take_mem_def split_mem_def Let_def sizeof_header_def)

lemma nat_addr_less: "n < 2 ^ 64 \<Longrightarrow> k < 2 ^ 64 \<Longrightarrow> (of_nat n :: u64) < of_nat k \<longleftrightarrow> n < k"
  by (simp add: word_less_nat_alt unat_of_nat)

lemma split_mem_block:
  fixes c k :: u64
  assumes sz: "sz + 56 < n" and b: "a + 24 + n \<le> 2 ^ 64" and m: "hdr_size m c = of_nat n"
    and c: "c = of_nat a" and k: "k = of_nat (a + 24 + sz)"
  defines "M \<equiv> split_mem (of_nat sz) c m"
  shows "hdr_size M c = of_nat sz" "hdr_next M c = k" "hdr_is_free M c = hdr_is_free m c"
    "hdr_size M k = of_nat (n - (sz + 24))" "hdr_next M k = hdr_next m c" "hdr_is_free M k = 1"
    "S \<inter> {a ..< a + 24 + n} = {} \<Longrightarrow> same_on S M m"
proof -
  have u: "unat c = a" "unat k = a + 24 + sz"
    unfolding c k by (rule unat_nat_addr, use b sz in simp)+
  have c24: "unat c + 24 \<le> 2 ^ 64" and k24: "unat k + 24 \<le> 2 ^ 64" using u b sz by simp_all
  have apart: "bytes_at k 24 \<inter> bytes_at c 24 = {}" "bytes_at c 24 \<inter> bytes_at k 24 = {}" using u by auto
  have ck: "c + (of_nat sz + 24) = k" by (simp add: c k)
  have "of_nat n - (of_nat sz + 24) = (of_nat (n - (sz + 24)) :: u64)"
    using sz by (simp add: of_nat_diff)
  then have M: "M = set_hdr_next c k (set_hdr_size c (of_nat sz)
      (put_header k (of_nat (n - (sz + 24))) (hdr_next m c) 1 m))"
    unfolding M_def split_mem_def m ck by simp
  show "hdr_size M c = of_nat sz" "hdr_next M c = k" "hdr_is_free M c = hdr_is_free m c"
    "hdr_size M k = of_nat (n - (sz + 24))" "hdr_next M k = hdr_next m c" "hdr_is_free M k = 1"
    using c24 k24 header_sets_other [OF k24 c24 apart(1)] header_sets_other [OF c24 k24 apart(2)]
    by (simp_all only: M header_fields put_header_fields)
  assume "S \<inter> {a ..< a + 24 + n} = {}"
  then have S: "S \<inter> bytes_at c 24 = {}" "S \<inter> bytes_at k 24 = {}" using u sz by fastforce+
  show "same_on S M m"
    unfolding M using header_sets_same_on [OF c24 S(1)] put_header_same_on [OF k24 S(2)]
    by (blast intro: same_on_trans)
qed

lemma take_mem_block:
  assumes sz: "sz + 24 \<le> n" and big: "sz + 56 < 2 ^ 64" and b: "c + 24 + n \<le> 2 ^ 64"
    and m: "hdr_size m (of_nat c) = of_nat n"
  shows "S \<inter> {c ..< c + 24 + n} = {} \<Longrightarrow> same_on S (take_mem (of_nat sz) (of_nat c) m) m"
    and "seg (take_mem (of_nat sz) (of_nat c) m) c (carve sz n) (hdr_next m (of_nat c))"
proof -
  let ?c = "of_nat c :: u64" and ?k = "of_nat (c + 24 + sz) :: u64"
  let ?m = "take_mem (of_nat sz) (of_nat c) m"
  have u: "unat ?c = c" using b by (intro unat_nat_addr) simp
  have c24: "unat ?c + 24 \<le> 2 ^ 64" using u b by simp
  have "(of_nat (sz + 24 + 24 + 8) :: u64) < of_nat n \<longleftrightarrow> sz + 24 + 24 + 8 < n"
    using b big by (intro nat_addr_less) simp_all
  then have tm: "?m = set_hdr_is_free ?c 0 (if n > sz + 24 + 24 + 8 then split_mem (of_nat sz) ?c m else m)"
    using m by (simp add: take_mem_def)
  have "same_on S ?m m \<and> seg ?m c (carve sz n) (hdr_next m ?c)" if S: "S \<inter> {c ..< c + 24 + n} = {}" for S
  proof -
    have S1: "S \<inter> bytes_at ?c 24 = {}" using S u by fastforce
    show ?thesis
    proof (cases "n > sz + 24 + 24 + 8")
      case True
      then have sz': "sz + 56 < n" by simp
      note sp = split_mem_block [OF sz' b m refl refl]
      have uk: "unat ?k = c + 24 + sz" using b True by (intro unat_nat_addr) simp
      have apart: "bytes_at ?k 24 \<inter> bytes_at ?c 24 = {}" unfolding u uk by auto
      have k24: "unat ?k + 24 \<le> 2 ^ 64" using uk b True by simp
      have "seg ?m c [(sz, False), (n - (sz + 24), True)] (hdr_next m ?c)"
        using True sp(1-6) header_sets_other [OF k24 c24 apart] c24
        unfolding tm by (simp del: of_nat_add)
      moreover have "same_on S ?m m"
        using True same_on_trans [OF header_sets_same_on(3) [OF c24 S1] sp(7) [OF S]] by (simp add: tm)
      ultimately show ?thesis using True by (simp add: carve_def)
    next
      case False
      then show ?thesis using tm m c24 header_sets_same_on(3) [OF c24 S1] by (simp add: carve_def)
    qed
  qed
  then show "S \<inter> {c ..< c + 24 + n} = {} \<Longrightarrow> same_on S ?m m"
    "seg ?m c (carve sz n) (hdr_next m ?c)" by blast+
qed

section \<open>Merging\<close>

text \<open>Only memory and the log differ.\<close>

definition only_ram :: "'a kmem_scheme \<Rightarrow> 'a kmem_scheme \<Rightarrow> bool" where
  "only_ram s s' \<longleftrightarrow> machine.more s' = machine.more s"

lemma only_ram_refl [simp]: "only_ram s s"
  by (simp add: only_ram_def)

lemma only_ram_trans: "only_ram s s' \<Longrightarrow> only_ram s' s'' \<Longrightarrow> only_ram s s''"
  by (simp add: only_ram_def)

lemma only_ram_log [simp]:
  "only_ram s (printk_color fg bg f as s)" "only_ram s (malloc_debug f as s)" "only_ram s (s\<lparr>ram := m\<rparr>)"
  by (simp_all add: only_ram_def)

lemma only_ramD:
  assumes "only_ram s s'"
  shows "free_pages_list s' = free_pages_list s" "total_free_pages s' = total_free_pages s"
    "malloc_head s' = malloc_head s" "kernel_heap_start s' = kernel_heap_start s"
    "kernel_heap_end s' = kernel_heap_end s" "kmem.more s' = kmem.more s"
    "malloc_total_allocated s' = malloc_total_allocated s" "malloc_total_freed s' = malloc_total_freed s"
  using assms by (cases s, cases s', simp add: only_ram_def)+

text \<open>One round of the merging loop.\<close>

definition merge_mem :: "u64 \<Rightarrow> memory \<Rightarrow> memory" where
  "merge_mem c m =
     (let m1 = set_hdr_size c (hdr_size m c + 24 + hdr_size m (hdr_next m c)) m
      in set_hdr_next c (hdr_next m1 (hdr_next m1 c)) m1)"

lemma free_merge_step:
  "free_merge c s =
     (if c = 0 \<or> hdr_next (ram s) c = 0 then Some s
      else if hdr_is_free (ram s) c \<noteq> 0 \<and> hdr_is_free (ram s) (hdr_next (ram s) c) \<noteq> 0 then
        free_merge c ((malloc_debug ''Merging blocks: %lu + %lu = %lu bytes\<newline>''
          [VNum (hdr_size (ram s) c), VNum (hdr_size (ram s) (hdr_next (ram s) c)),
           VNum (hdr_size (ram s) c + 24 + hdr_size (ram s) (hdr_next (ram s) c))] s)
          \<lparr>ram := merge_mem c (ram s)\<rparr>)
      else free_merge (hdr_next (ram s) c) s)"
  by (subst free_merge.simps) (simp add: Let_def merge_mem_def sizeof_header_def)

lemma merge_mem_seg:
  assumes seg: "seg m a ((n, True) # (k, True) # bs) 0" and b: "a + span ((n, True) # (k, True) # bs) \<le> 2 ^ 64"
  shows "seg (merge_mem (of_nat a) m) a ((n + 24 + k, True) # bs) 0"
    and "S \<inter> {a ..< a + 24} = {} \<Longrightarrow> same_on S (merge_mem (of_nat a) m) m"
proof -
  define c d :: u64 where "c = of_nat a" and "d = of_nat (a + 24 + n)"
  have u: "unat c = a" "unat d = a + 24 + n"
    unfolding c_def d_def by (rule unat_nat_addr, use b in simp)+
  have c24: "unat c + 24 \<le> 2 ^ 64" and d24: "unat d + 24 \<le> 2 ^ 64" using u b by simp_all
  have apart: "bytes_at d 24 \<inter> bytes_at c 24 = {}" using u by auto
  have m: "hdr_next m c = d" "hdr_size m c = of_nat n" "hdr_size m d = of_nat k"
    using seg by (simp_all add: c_def d_def)
  show same: "same_on S (merge_mem (of_nat a) m) m" if S: "S \<inter> {a ..< a + 24} = {}" for S
    unfolding merge_mem_def Let_def c_def [symmetric]
    by (rule same_on_trans [OF header_sets_same_on(2) header_sets_same_on(1)]) (use c24 S u in simp_all)
  have "seg (merge_mem c m) (a + 24 + (n + 24 + k)) bs 0"
  proof (rule seg_cong)
    show "seg m (a + 24 + (n + 24 + k)) bs 0" using seg by (simp add: add.assoc)
    have "headers (a + 24 + (n + 24 + k)) bs \<inter> {a ..< a + 24} = {}"
      using headers_span [of "a + 24 + (n + 24 + k)" bs] by fastforce
    then show "same_on (headers (a + 24 + (n + 24 + k)) bs) (merge_mem c m) m"
      unfolding c_def by (rule same)
  qed (use b in simp)
  moreover have "hdr_size (merge_mem c m) c = of_nat (n + 24 + k)"
    "hdr_next (merge_mem c m) c = hdr_next m d" "hdr_is_free (merge_mem c m) c = hdr_is_free m c"
    using c24 header_sets_other [OF d24 c24 apart] m by (simp_all add: merge_mem_def Let_def)
  ultimately show "seg (merge_mem (of_nat a) m) a ((n + 24 + k, True) # bs) 0"
    using seg by (simp add: c_def d_def add.assoc)
qed

lemma free_merge_single: "seg (ram s) a [b] 0 \<Longrightarrow> free_merge (of_nat a) s = Some s"
  by (cases b) (simp add: free_merge_step [of "of_nat a" s])

text \<open>The loop ends, its result is the coalesced list, and it writes to headers only.\<close>

lemma free_merge_coalesce:
  "seg (ram s) a bs 0 \<Longrightarrow> bs \<noteq> [] \<Longrightarrow> 0 < a \<Longrightarrow> a + span bs \<le> 2 ^ 64 \<Longrightarrow>
   \<exists>s'. free_merge (of_nat a) s = Some s' \<and> seg (ram s') a (coalesce bs) 0 \<and> only_ram s s' \<and>
     (\<forall>S. S \<inter> headers a bs = {} \<longrightarrow> same_on S (ram s') (ram s))"
proof (induction bs arbitrary: a s rule: coalesce.induct)
  case (1 n f k g bs)
  let ?c = "of_nat a :: u64" and ?d = "of_nat (a + 24 + n) :: u64"
  have c0: "?c \<noteq> 0" "?d \<noteq> 0" using "1.prems" nat_addr_0 [of a] nat_addr_0 [of "a + 24 + n"] by auto
  have nx: "hdr_next (ram s) ?c = ?d" "(hdr_is_free (ram s) ?c \<noteq> 0) = f" "(hdr_is_free (ram s) ?d \<noteq> 0) = g"
    using "1.prems"(1) by simp_all
  show ?case
  proof (cases "f \<and> g")
    case True
    define t where "t = (malloc_debug ''Merging blocks: %lu + %lu = %lu bytes\<newline>''
          [VNum (hdr_size (ram s) ?c), VNum (hdr_size (ram s) (hdr_next (ram s) ?c)),
           VNum (hdr_size (ram s) ?c + 24 + hdr_size (ram s) (hdr_next (ram s) ?c))] s)
          \<lparr>ram := merge_mem ?c (ram s)\<rparr>"
    have step: "free_merge ?c s = free_merge ?c t"
      using c0 nx True by (subst free_merge_step) (simp add: t_def)
    have st: "only_ram s t" unfolding t_def by (rule only_ram_trans [OF only_ram_log(2) only_ram_log(3)])
    note mm = merge_mem_seg [of "ram s" a n k bs]
    have "\<exists>s'. free_merge ?c t = Some s' \<and> seg (ram s') a (coalesce ((n + 24 + k, True) # bs)) 0 \<and>
        only_ram t s' \<and> (\<forall>S. S \<inter> headers a ((n + 24 + k, True) # bs) = {} \<longrightarrow> same_on S (ram s') (ram t))"
      by (rule "1.IH"(1)) (use True "1.prems" mm in \<open>simp_all add: t_def\<close>)
    then obtain s' where s': "free_merge ?c t = Some s'" "seg (ram s') a (coalesce ((n + 24 + k, True) # bs)) 0"
      "only_ram t s'" "\<And>S. S \<inter> headers a ((n + 24 + k, True) # bs) = {} \<Longrightarrow> same_on S (ram s') (ram t)" by blast
    have "same_on S (ram s') (ram s)" if S: "S \<inter> headers a ((n, f) # (k, g) # bs) = {}" for S
    proof (rule same_on_trans)
      show "same_on S (ram s') (ram t)" using S by (intro s'(4)) (auto simp: add.assoc)
      have "S \<inter> {a ..< a + 24} = {}" using S by auto
      then show "same_on S (ram t) (ram s)" unfolding t_def using mm(2) "1.prems" True by simp
    qed
    then show ?thesis using step s' st only_ram_trans True by (intro exI [of _ s']) auto
  next
    case False
    have step: "free_merge ?c s = free_merge ?d s"
      using c0 nx False by (subst free_merge_step) auto
    have "\<exists>s'. free_merge ?d s = Some s' \<and> seg (ram s') (a + 24 + n) (coalesce ((k, g) # bs)) 0 \<and>
        only_ram s s' \<and> (\<forall>S. S \<inter> headers (a + 24 + n) ((k, g) # bs) = {} \<longrightarrow> same_on S (ram s') (ram s))"
      by (rule "1.IH"(2)) (use False "1.prems" in simp_all)
    then obtain s' where s': "free_merge ?d s = Some s'" "seg (ram s') (a + 24 + n) (coalesce ((k, g) # bs)) 0"
      "only_ram s s'" "\<And>S. S \<inter> headers (a + 24 + n) ((k, g) # bs) = {} \<Longrightarrow> same_on S (ram s') (ram s)" by blast
    have uc: "unat ?c = a" using "1.prems"(4) by (intro unat_nat_addr) simp
    have "same_on (bytes_at ?c 24) (ram s') (ram s)"
      using headers_span [of "a + 24 + n" "(k, g) # bs"] by (intro s'(4)) (unfold uc, fastforce)
    then have "hdr_size (ram s') ?c = hdr_size (ram s) ?c" "hdr_next (ram s') ?c = hdr_next (ram s) ?c"
      "hdr_is_free (ram s') ?c = hdr_is_free (ram s) ?c"
      using header_reads [of ?c "ram s'" "ram s"] uc "1.prems"(4) by simp_all
    then have "seg (ram s') a ((n, f) # coalesce ((k, g) # bs)) 0"
      using s'(2) "1.prems"(1) by simp
    then show ?thesis using step s' False by (intro exI [of _ s']) auto
  qed
qed (auto simp: free_merge_single)

section \<open>The heap invariant\<close>

text \<open>
  The blocks tile the memory from \<open>base\<close> on, no two neighbours are free, sizes are multiples
  of eight, and the free pages continue the heap without a gap. \<open>init_page\<close> lists the pages of
  one usable region in ascending order, which gives the last part.
\<close>

definition sizes_ok :: "block list \<Rightarrow> bool" where
  "sizes_ok bs \<longleftrightarrow> (\<forall>(n, f) \<in> set bs. 8 dvd n \<and> (\<not> f \<longrightarrow> 0 < n \<and> n \<le> 0x200000))"

definition heap_inv :: "'a kmem_scheme \<Rightarrow> nat \<Rightarrow> u64 list \<Rightarrow> block list \<Rightarrow> bool" where
  "heap_inv s base ps bs \<longleftrightarrow>
     pages_inv s ps \<and> 0 < base \<and> 8 dvd base \<and>
     (\<forall>i < length ps. unat (Phy_To_Virt (phy_addr (ram s) (ps ! i))) = base + span bs + i * 0x200000) \<and>
     (\<forall>x \<in> set ps. {base ..< base + span bs} \<inter> bytes_at x 24 = {}) \<and>
     unat (Phy_To_Virt (kernel_heap_start s)) \<le> base \<and>
     base + span bs + length ps * 0x200000 \<le> unat (Phy_To_Virt (kernel_heap_end s)) \<and>
     (if bs = [] then malloc_head s = 0 else malloc_head s = of_nat base \<and> seg (ram s) base bs 0) \<and>
     no_free_pair bs \<and> sizes_ok bs"

lemma sizes_ok_simps [simp]:
  "sizes_ok []" "sizes_ok ((n, f) # bs) \<longleftrightarrow> 8 dvd n \<and> (\<not> f \<longrightarrow> 0 < n \<and> n \<le> 0x200000) \<and> sizes_ok bs"
  "sizes_ok (xs @ ys) \<longleftrightarrow> sizes_ok xs \<and> sizes_ok ys"
  by (auto simp: sizes_ok_def)

lemma sizes_ok_coalesce: "sizes_ok bs \<Longrightarrow> sizes_ok (coalesce bs)"
  by (induction bs rule: coalesce.induct) auto

lemma sizes_ok_span: "sizes_ok bs \<Longrightarrow> 8 dvd span bs"
  by (induction bs rule: span.induct) auto

lemma unat_64: "unat (x :: u64) < 2 ^ 64"
  using unsigned_less [of x] by simp

lemma nat_addr_eq: "unat w = n \<Longrightarrow> w = (of_nat n :: u64)"
  using unat_nat_addr [of n] unat_64 [of w] by (simp add: word_unat_eq_iff)

lemma heap_bound: "heap_inv s base ps bs \<Longrightarrow> base + span bs + length ps * 0x200000 < 2 ^ 64"
  using unat_64 [of "Phy_To_Virt (kernel_heap_end s)"] by (simp add: heap_inv_def)

text \<open>The globals the invariant reads, and the memory it reads.\<close>

definition same_globals :: "'a kmem_scheme \<Rightarrow> 'b kmem_scheme \<Rightarrow> bool" where
  "same_globals s s' \<longleftrightarrow> free_pages_list s' = free_pages_list s \<and> total_free_pages s' = total_free_pages s \<and>
     malloc_head s' = malloc_head s \<and> kernel_heap_start s' = kernel_heap_start s \<and>
     kernel_heap_end s' = kernel_heap_end s"

lemma same_globals_refl [simp]: "same_globals s s"
  by (simp add: same_globals_def)

lemma same_globals_trans: "same_globals s s' \<Longrightarrow> same_globals s' s'' \<Longrightarrow> same_globals s s''"
  by (simp add: same_globals_def)

lemma only_ram_globals: "only_ram s s' \<Longrightarrow> same_globals s s'"
  by (simp add: same_globals_def only_ramD)

lemma pages_inv_cong:
  assumes inv: "pages_inv s ps"
    and "free_pages_list s' = free_pages_list s" "total_free_pages s' = total_free_pages s"
    and same: "\<And>x. x \<in> set ps \<Longrightarrow> same_on (bytes_at x 24) (ram s') (ram s)"
  shows "pages_inv s' ps" "x \<in> set ps \<Longrightarrow> phy_addr (ram s') x = phy_addr (ram s) x"
proof -
  have "structs_apart ps" using inv by (simp add: pages_inv_def page_layout_def)
  then have r: "phy_addr (ram s') x = phy_addr (ram s) x" "page_next (ram s') x = page_next (ram s) x"
    if "x \<in> set ps" for x
    using structs_apartD(5) [of ps x] struct_reads [OF _ same [OF that]] that by blast+
  then show "x \<in> set ps \<Longrightarrow> phy_addr (ram s') x = phy_addr (ram s) x" by blast
  show "pages_inv s' ps"
    using inv assms(2,3) r by (auto simp: pages_inv_def intro: page_list_cong page_layout_cong)
qed

lemma heap_inv_cong:
  assumes inv: "heap_inv s base ps bs" and g: "same_globals s s'"
    and h: "same_on (headers base bs) (ram s') (ram s)"
    and p: "\<And>x. x \<in> set ps \<Longrightarrow> same_on (bytes_at x 24) (ram s') (ram s)"
  shows "heap_inv s' base ps bs"
proof -
  have "pages_inv s ps" using inv by (simp add: heap_inv_def)
  note pc = pages_inv_cong [OF this _ _ p]
  have "bs \<noteq> [] \<Longrightarrow> seg (ram s') base bs 0"
    by (rule seg_cong [OF _ h]) (use inv heap_bound [OF inv] in \<open>simp_all add: heap_inv_def\<close>)
  then show ?thesis
    using inv g pc unfolding heap_inv_def same_globals_def by simp
qed

text \<open>A write inside a payload in use keeps the heap intact.\<close>

lemma heap_inv_payload:
  assumes inv: "heap_inv s base ps bs" and g: "same_globals s s'"
    and w: "\<And>x. \<forall>(p, n) \<in> live base bs. unat x \<notin> {p ..< p + n} \<Longrightarrow> ram s' x = ram s x"
  shows "heap_inv s' base ps bs"
proof (rule heap_inv_cong [OF inv g])
  show "same_on (headers base bs) (ram s') (ram s)"
    using live_headers [of _ _ base bs] by (fastforce simp: same_on_def intro!: w)
  show "same_on (bytes_at y 24) (ram s') (ram s)" if "y \<in> set ps" for y
  proof -
    have "{base ..< base + span bs} \<inter> bytes_at y 24 = {}" using inv that by (simp add: heap_inv_def)
    then show ?thesis
      using live_bounds [of _ _ base bs] by (fastforce simp: same_on_def intro!: w)
  qed
qed

section \<open>malloc keeps the invariant\<close>

lemma alloc_page_struct:
  assumes "pages_inv s (x # xs)"
  shows "phy_addr (ram (snd (alloc_page s))) x = phy_addr (ram s) x"
proof -
  let ?m = "set_ref_count x 1 (set_page_next x 0 (ram s))"
  have x: "unat x + 24 \<le> 2 ^ 64" and d: "bytes_at x 24 \<inter> frame (ram s) x = {}"
    using assms structs_apartD(1) by (auto simp: pages_inv_def page_layout_def)
  have "same_on (bytes_at x 24) (ram (snd (alloc_page s))) ?m"
    unfolding alloc_page_head(4) [OF assms] using d by (intro filled_same_on) (simp add: frame_def)
  then show ?thesis using page_field_reads(1) [OF x] x by simp
qed

lemma alloc_page_keeps:
  "malloc_head (snd (alloc_page s)) = malloc_head s"
  "kernel_heap_start (snd (alloc_page s)) = kernel_heap_start s"
  "kernel_heap_end (snd (alloc_page s)) = kernel_heap_end s"
  "kmem.more (snd (alloc_page s)) = kmem.more s"
  by (simp_all add: alloc_page_def Let_def)

text \<open>What \<open>alloc_page\<close> means for the heap: the next 2M behind it are its own.\<close>

lemma alloc_page_heap:
  assumes inv: "heap_inv s base (x # xs) bs"
  defines "t \<equiv> snd (alloc_page s)" and "brk \<equiv> base + span bs"
  shows "fst (alloc_page s) = x" "x \<noteq> 0" "Phy_To_Virt (phy_addr (ram t) x) = of_nat brk"
    "same_on {base ..< brk} (ram t) (ram s)" "pages_inv t xs"
    "i < length xs \<Longrightarrow> unat (Phy_To_Virt (phy_addr (ram t) (xs ! i))) = brk + 0x200000 + i * 0x200000"
    "y \<in> set xs \<Longrightarrow> {base ..< brk + 0x200000} \<inter> bytes_at y 24 = {}"
proof -
  have pi: "pages_inv s (x # xs)" using inv by (simp add: heap_inv_def)
  have pos: "unat (Phy_To_Virt (phy_addr (ram s) ((x # xs) ! i))) = brk + i * 0x200000"
    if "i < Suc (length xs)" for i using inv that by (simp add: heap_inv_def brk_def)
  have fr: "frame (ram s) x = {brk ..< brk + 0x200000}" using pos [of 0] by (simp add: frame_def)
  show "fst (alloc_page s) = x" by (rule alloc_page_head [OF pi])
  show "x \<noteq> 0" using pi by (simp add: pages_inv_def)
  show "Phy_To_Virt (phy_addr (ram t) x) = of_nat brk"
    using pos [of 0] alloc_page_struct [OF pi] by (simp add: t_def nat_addr_eq)
  show "same_on {base ..< brk} (ram t) (ram s)"
    unfolding t_def by (rule alloc_page_same_on [OF pi]) (use inv fr in \<open>auto simp: heap_inv_def brk_def\<close>)
  show "pages_inv t xs" unfolding t_def by (rule alloc_page_inv [OF pi])
  show "unat (Phy_To_Virt (phy_addr (ram t) (xs ! i))) = brk + 0x200000 + i * 0x200000"
    if "i < length xs" for i
    using pos [of "Suc i"] alloc_page_tail(1) [OF pi nth_mem [OF that]] that by (simp add: t_def)
  show "{base ..< brk + 0x200000} \<inter> bytes_at y 24 = {}" if y: "y \<in> set xs" for y
  proof -
    have "{base ..< brk} \<inter> bytes_at y 24 = {}" using inv y by (simp add: heap_inv_def brk_def)
    moreover have "frame (ram s) x \<inter> bytes_at y 24 = {}" using pi y by (simp add: pages_inv_def page_layout_def)
    moreover have "{base ..< brk + 0x200000} = {base ..< brk} \<union> {brk ..< brk + 0x200000}"
      by (auto simp: brk_def)
    ultimately show ?thesis unfolding fr by blast
  qed
qed

text \<open>Writes inside the heap keep the page layer.\<close>

lemma heap_write_pages:
  assumes "pages_inv t xs" "\<And>y. y \<in> set xs \<Longrightarrow> H \<inter> bytes_at y 24 = {}"
    and "\<And>S. S \<inter> H = {} \<Longrightarrow> same_on S (ram t') (ram t)"
    and "free_pages_list t' = free_pages_list t" "total_free_pages t' = total_free_pages t"
  shows "pages_inv t' xs" "y \<in> set xs \<Longrightarrow> phy_addr (ram t') y = phy_addr (ram t) y"
proof -
  have "same_on (bytes_at y 24) (ram t') (ram t)" if "y \<in> set xs" for y
    using assms(2) [OF that] by (intro assms(3)) blast
  then show "pages_inv t' xs" "y \<in> set xs \<Longrightarrow> phy_addr (ram t') y = phy_addr (ram t) y"
    using pages_inv_cong [OF assms(1,4,5)] by blast+
qed

lemma heap_inv_init: "heap_inv s base ps [] \<Longrightarrow> ps = [] \<Longrightarrow> malloc_first s =
    (False, printk_color RED BLACK ''malloc: Failed to allocate first page\<newline>'' []
       (printk_color RED BLACK ''Out of memory! No free pages available.\<newline>'' [] s))"
  by (simp add: heap_inv_def pages_inv_def malloc_first_def alloc_page_def)

lemma malloc_first_inv:
  assumes inv: "heap_inv s base (x # xs) []"
  shows "fst (malloc_first s)" "heap_inv (snd (malloc_first s)) base xs [(0x200000 - 24, True)]"
    "kmem.more (snd (malloc_first s)) = kmem.more s"
proof -
  define t where "t = snd (alloc_page s)"
  note ap = alloc_page_heap [OF inv, folded t_def, unfolded span.simps add_0_right]
  let ?h = "of_nat base :: u64" and ?s = "snd (malloc_first s)"
  have hd: "malloc_head s = 0" using inv by (simp add: heap_inv_def)
  have b: "base + 0x200000 + length xs * 0x200000 < 2 ^ 64" using heap_bound [OF inv] by simp
  have u: "unat ?h = base" using b by (intro unat_nat_addr) simp
  have h24: "unat ?h + 24 \<le> 2 ^ 64" using u b by simp
  have mf: "malloc_first s = (True, malloc_debug ''Initialized heap with first page at %p\<newline>'' [VNum ?h]
      (t\<lparr>malloc_head := ?h, ram := put_header ?h (PAGE_2M_SIZE - sizeof_header) 0 1 (ram t)\<rparr>))"
    using hd ap(1-3) by (simp add: malloc_first_def Let_def case_prod_unfold t_def)
  have r: "ram ?s = put_header ?h (0x200000 - 24) 0 1 (ram t)" by (simp add: mf sizeof_header_def)
  have same: "same_on S (ram ?s) (ram t)" if "S \<inter> {base ..< base + 0x200000} = {}" for S
    unfolding r by (rule put_header_same_on [OF h24]) (use that u in fastforce)
  have fl: "free_pages_list ?s = free_pages_list t" "total_free_pages ?s = total_free_pages t"
    by (simp_all add: mf)
  have pg: "pages_inv ?s xs" "\<And>y. y \<in> set xs \<Longrightarrow> phy_addr (ram ?s) y = phy_addr (ram t) y"
    using heap_write_pages [of t xs "{base ..< base + 0x200000}" ?s] ap(5,7) same fl by blast+
  show "fst (malloc_first s)" by (simp add: mf)
  show "kmem.more (snd (malloc_first s)) = kmem.more s" by (simp add: mf t_def alloc_page_keeps)
  have "seg (ram ?s) base [(0x200000 - 24, True)] 0" unfolding r using h24 by simp
  then show "heap_inv ?s base xs [(0x200000 - 24, True)]"
    using inv pg ap(6,7) unfolding heap_inv_def
    by (simp add: mf t_def alloc_page_keeps add.assoc)
qed

lemma malloc_take_inv:
  assumes inv: "heap_inv s base ps bs" and pl: "place sz base bs = Some (p, bs')"
    and sz: "8 dvd sz" "0 < sz" "sz \<le> 0x200000 - 152"
  defines "t \<equiv> snd (malloc_take (of_nat sz) (of_nat (p - 24)) s)"
  shows "heap_inv t base ps bs'" "(q, k) \<in> live base bs \<Longrightarrow> same_on {q ..< q + k} (ram t) (ram s)"
proof -
  obtain xs n ys where d: "bs = xs @ (n, True) # ys" "sz + 24 \<le> n" "p = base + span xs + 24"
    "bs' = xs @ carve sz n @ ys" using place_SomeD [OF pl] by blast
  let ?c = "base + span xs"
  have b: "base + span bs < 2 ^ 64" using heap_bound [OF inv] by simp
  have seg: "seg (ram s) base bs 0" and hd: "malloc_head s = of_nat base"
    using inv d(1) by (auto simp: heap_inv_def)
  have cn: "?c + 24 + n \<le> 2 ^ 64" using b d(1) by simp
  have hs: "hdr_size (ram s) (of_nat ?c) = of_nat n" using seg d(1) by (simp add: seg_append del: of_nat_add)
  have r: "ram t = take_mem (of_nat sz) (of_nat ?c) (ram s)"
    by (simp add: t_def malloc_take_simps d(3))
  have "sz + 56 < 2 ^ 64" using sz by simp
  note tk = take_mem_block [OF d(2) this cn hs, folded r]
  have segt: "seg (ram t) base bs' 0"
    unfolding d(4) by (rule seg_replace [OF seg [unfolded d(1)]]) (use b d(1,2) tk carve_flags in auto)
  have H: "same_on S (ram t) (ram s)" if "S \<inter> {base ..< base + span bs} = {}" for S
    by (rule tk(1)) (use that d(1) in fastforce)
  have pg: "pages_inv t ps" "\<And>y. y \<in> set ps \<Longrightarrow> phy_addr (ram t) y = phy_addr (ram s) y"
    using heap_write_pages [of s ps "{base ..< base + span bs}" t] H inv
    by (simp_all add: heap_inv_def t_def malloc_take_simps)
  have ok: "sizes_ok bs'"
    using inv sz d by (auto simp: heap_inv_def carve_def dvd_diff_nat)
  have "span bs' = span bs" by (rule place_live [OF pl])
  then show "heap_inv t base ps bs'"
    using inv pg segt ok place_no_free_pair [OF pl] d carve_flags(1) [of sz n]
    by (simp add: heap_inv_def t_def malloc_take_simps)
  assume lv: "(q, k) \<in> live base bs"
  show "same_on {q ..< q + k} (ram t) (ram s)"
  proof (rule tk(1))
    show "{q ..< q + k} \<inter> {?c ..< ?c + 24 + n} = {}"
      using lv live_bounds [of q k base xs] live_bounds [of q k "?c + (24 + n)" ys]
      unfolding d(1) by (auto simp: live_append add.assoc)
  qed
qed

lemma seg_link:
  assumes "seg m a bs z" "bs \<noteq> []" "a + span bs \<le> 2 ^ 64"
  shows "seg (set_hdr_next (of_nat (a + span (butlast bs))) w m) a bs w"
proof -
  obtain xs n f where bs: "bs = xs @ [(n, f)]" using assms(2) by (metis rev_exhaust surj_pair)
  let ?c = "of_nat (a + span xs) :: u64"
  have u: "unat ?c = a + span xs" using assms(3) bs by (intro unat_nat_addr) simp
  have c24: "unat ?c + 24 \<le> 2 ^ 64" using u assms(3) bs by simp
  have "seg (set_hdr_next ?c w m) a xs ?c"
  proof (rule seg_cong)
    show "seg m a xs ?c" using assms(1) bs by (simp add: seg_append)
    show "same_on (headers a xs) (set_hdr_next ?c w m) m"
      using headers_span [of a xs] u by (intro header_sets_same_on c24) fastforce
  qed (use assms(3) bs in simp)
  then show ?thesis using assms(1) bs c24 by (simp add: seg_append del: of_nat_add)
qed

lemma header_in_span: "bs \<noteq> [] \<Longrightarrow> {a + span (butlast bs) ..< a + span (butlast bs) + 24} \<subseteq> headers a bs"
proof (induction a bs rule: headers.induct)
  case (2 a n f bs)
  then show ?case by (cases "bs = []") (auto simp: add.assoc)
qed simp

text \<open>The memory \<open>malloc_grow\<close> leaves: a new page always has room for a second block.\<close>

lemma malloc_grow_ram:
  fixes nb prev :: u64
  assumes ap: "fst (alloc_page s) = x" "x \<noteq> 0" "Phy_To_Virt (phy_addr (ram (snd (alloc_page s))) x) = nb"
    and sz: "sz \<le> 0x200000 - 152" and nb: "unat nb + 24 \<le> 2 ^ 64"
    and pv: "unat prev + 24 \<le> 2 ^ 64" "bytes_at nb 24 \<inter> bytes_at prev 24 = {}" "prev \<noteq> 0"
  shows "fst (malloc_grow (of_nat sz) prev s) = nb + 24"
    "ram (snd (malloc_grow (of_nat sz) prev s)) = split_mem (of_nat sz) nb
       (set_hdr_next prev nb (put_header nb (0x200000 - 24) 0 0 (ram (snd (alloc_page s)))))"
proof -
  let ?m = "set_hdr_next prev nb (put_header nb (0x200000 - 24) 0 0 (ram (snd (alloc_page s))))"
  have f: "hdr_size ?m nb = 0x200000 - 24" "hdr_next ?m nb = 0"
    using nb header_sets_other [OF nb pv(1,2)] by simp_all
  have "(of_nat (sz + 24 + 24 + 8) :: u64) < of_nat (0x200000 - 24)"
    using sz by (subst nat_addr_less) simp_all
  then have big: "(of_nat sz :: u64) + 24 + 24 + 8 < 0x200000 - 24" by simp
  show "fst (malloc_grow (of_nat sz) prev s) = nb + 24"
    using ap by (simp add: malloc_grow_def Let_def case_prod_unfold sizeof_header_def)
  show "ram (snd (malloc_grow (of_nat sz) prev s)) = split_mem (of_nat sz) nb ?m"
    using ap pv(3) f big
    by (simp add: malloc_grow_def split_mem_def Let_def case_prod_unfold sizeof_header_def)
qed

lemma malloc_grow_keeps:
  "malloc_head (snd (malloc_grow sz prev s)) = malloc_head s"
  "kernel_heap_start (snd (malloc_grow sz prev s)) = kernel_heap_start s"
  "kernel_heap_end (snd (malloc_grow sz prev s)) = kernel_heap_end s"
  "kmem.more (snd (malloc_grow sz prev s)) = kmem.more s"
  "free_pages_list (snd (malloc_grow sz prev s)) = free_pages_list (snd (alloc_page s))"
  "total_free_pages (snd (malloc_grow sz prev s)) = total_free_pages (snd (alloc_page s))"
  by (simp_all add: malloc_grow_def alloc_page_keeps Let_def case_prod_unfold)

lemma malloc_grow_inv:
  assumes inv: "heap_inv s base (x # xs) bs" and ne: "bs \<noteq> []"
    and sz: "8 dvd sz" "0 < sz" "sz \<le> 0x200000 - 152"
  defines "t \<equiv> malloc_grow (of_nat sz) (of_nat (base + span (butlast bs))) s"
  shows "fst t = of_nat (base + span bs + 24)"
    "heap_inv (snd t) base xs (bs @ [(sz, False), (0x200000 - 24 - (sz + 24), True)])"
    "(q, k) \<in> live base bs \<Longrightarrow> same_on {q ..< q + k} (ram (snd t)) (ram s)"
proof -
  define brk where "brk = base + span bs"
  define m0 where "m0 = ram (snd (alloc_page s))"
  note ap = alloc_page_heap [OF inv, folded brk_def m0_def]
  let ?nb = "of_nat brk :: u64" and ?pa = "base + span (butlast bs)" and ?n = "0x200000 - 24 :: nat"
  let ?m1 = "put_header ?nb (0x200000 - 24) 0 0 m0"
  let ?m2 = "set_hdr_next (of_nat ?pa) ?nb ?m1"
  have b: "brk + 0x200000 + length xs * 0x200000 < 2 ^ 64"
    using heap_bound [OF inv] by (simp add: brk_def)
  have seg: "seg (ram s) base bs 0" and base: "0 < base" using inv ne by (simp_all add: heap_inv_def)
  have pb: "?pa + 24 \<le> brk"
    using ne by (cases bs rule: rev_cases) (auto simp: brk_def)
  have u: "unat ?nb = brk" "unat (of_nat ?pa :: u64) = ?pa"
    by (rule unat_nat_addr, use b pb in linarith)+
  have n24: "unat ?nb + 24 \<le> 2 ^ 64" and p24: "unat (of_nat ?pa :: u64) + 24 \<le> 2 ^ 64"
    using u b pb by linarith+
  have apart: "bytes_at ?nb 24 \<inter> bytes_at (of_nat ?pa) 24 = {}" using u pb by auto
  have pnz: "(of_nat ?pa :: u64) \<noteq> 0" using u base by (metis add_is_0 less_not_refl unat_0)
  note gr = malloc_grow_ram [OF ap(1,2) _ sz(3) n24 p24 apart pnz, folded t_def m0_def, OF ap(3)]
  show "fst t = of_nat (base + span bs + 24)" using gr(1) by (simp add: brk_def)
  have hn: "hdr_size ?m2 ?nb = of_nat ?n" "hdr_next ?m2 ?nb = 0" "hdr_is_free ?m2 ?nb = 0"
    using n24 header_sets_other [OF n24 p24 apart] by simp_all
  have "sz + 56 < ?n" using sz by simp
  note sp = split_mem_block [OF this _ hn(1) refl refl, folded gr(2)]
  have bn: "brk + 24 + ?n \<le> 2 ^ 64" using b by simp
  have seg1: "seg ?m1 base bs 0"
  proof (rule seg_cong [OF _ _ seg])
    have "same_on (headers base bs) ?m1 m0"
      using headers_span [of base bs] u by (intro put_header_same_on n24) (fastforce simp: brk_def)
    moreover have "same_on (headers base bs) m0 (ram s)"
      by (rule same_on_subset [OF ap(4)]) (simp add: headers_span brk_def)
    ultimately show "same_on (headers base bs) ?m1 (ram s)" by (rule same_on_trans)
  qed (use b in \<open>simp add: brk_def\<close>)
  have "seg ?m2 base bs ?nb" by (rule seg_link [OF seg1 ne]) (use b in \<open>simp add: brk_def\<close>)
  then have "seg ?m2 base (bs @ [(?n, False)]) 0"
    using hn by (simp add: seg_append brk_def [symmetric])
  then have "seg (ram (snd t)) base (bs @ [(sz, False), (?n - (sz + 24), True)] @ []) 0"
  proof (rule seg_replace)
    show "seg (ram (snd t)) (base + span bs) [(sz, False), (?n - (sz + 24), True)]
        (hdr_next ?m2 (of_nat (base + span bs)))"
      using sp(1-6) [OF bn] hn unfolding brk_def [symmetric] by (simp del: of_nat_add)
  qed (use sp(7) [OF bn] b sz in \<open>auto simp: brk_def\<close>)
  then have segt: "seg (ram (snd t)) base (bs @ [(sz, False), (?n - (sz + 24), True)]) 0" by simp
  have H: "same_on S (ram (snd t)) m0" if S: "S \<inter> {brk ..< brk + 0x200000} = {}" "S \<inter> {?pa ..< ?pa + 24} = {}" for S
  proof -
    have "same_on S (ram (snd t)) ?m2" by (rule sp(7) [OF bn]) (use S(1) in \<open>simp add: add.commute\<close>)
    moreover have "same_on S ?m2 ?m1" by (rule header_sets_same_on [OF p24]) (use S(2) u in simp)
    moreover have "same_on S ?m1 m0" by (rule put_header_same_on [OF n24]) (use S(1) u in fastforce)
    ultimately show ?thesis by (blast intro: same_on_trans)
  qed
  have "same_on S (ram (snd t)) m0" if S: "S \<inter> {base ..< brk + 0x200000} = {}" for S
    by (rule H) (use S pb in \<open>fastforce simp: brk_def\<close>)+
  then have pg: "pages_inv (snd t) xs" "\<And>y. y \<in> set xs \<Longrightarrow> phy_addr (ram (snd t)) y = phy_addr m0 y"
    using heap_write_pages [of "snd (alloc_page s)" xs "{base ..< brk + 0x200000}" "snd t"] ap(5,7)
    by (simp_all add: t_def malloc_grow_keeps m0_def)
  have spn: "base + span (bs @ [(sz, False), (?n - (sz + 24), True)]) = brk + 0x200000"
    using sz by (simp add: brk_def)
  have "8 dvd ?n - (sz + 24)" by (intro dvd_diff_nat dvd_add sz(1)) simp_all
  moreover have "no_free_pair (bs @ [(sz, False), (?n - (sz + 24), True)])"
    using inv by (simp add: heap_inv_def no_free_pair_append)
  ultimately show "heap_inv (snd t) base xs (bs @ [(sz, False), (?n - (sz + 24), True)])"
    using inv ne pg segt sz ap(6,7) unfolding heap_inv_def spn
    by (simp add: t_def malloc_grow_keeps brk_def add.assoc)
  assume lv: "(q, k) \<in> live base bs"
  have "same_on {q ..< q + k} (ram (snd t)) m0"
    using live_headers [OF lv] header_in_span [OF ne, of base] live_bounds [OF lv]
    by (intro H) (fastforce simp: brk_def)+
  moreover have "same_on {q ..< q + k} m0 (ram s)"
    by (rule same_on_subset [OF ap(4)]) (use live_bounds [OF lv] in \<open>auto simp: brk_def\<close>)
  ultimately show "same_on {q ..< q + k} (ram (snd t)) (ram s)" by (rule same_on_trans)
qed

section \<open>malloc and free implement the block operations\<close>

text \<open>The specification of \<open>malloc\<close> on the number of free pages and the blocks.\<close>

definition aopen :: "nat \<times> block list \<Rightarrow> nat \<times> block list" where
  "aopen = (\<lambda>(np, bs). if bs = [] \<and> 0 < np then (np - 1, [(0x200000 - 24, True)]) else (np, bs))"

definition awalk :: "nat \<Rightarrow> nat \<Rightarrow> nat \<times> block list \<Rightarrow> nat option \<times> nat \<times> block list" where
  "awalk sz base = (\<lambda>(np, bs).
     case place sz base bs of
       Some (p, bs') \<Rightarrow> (Some p, np, bs')
     | None \<Rightarrow>
         if np = 0 then (None, np, bs)
         else (Some (base + span bs + 24), np - 1, bs @ [(sz, False), (0x200000 - 24 - (sz + 24), True)]))"

definition amalloc :: "nat \<Rightarrow> nat \<Rightarrow> nat \<times> block list \<Rightarrow> nat option \<times> nat \<times> block list" where
  "amalloc sz base st = awalk sz base (aopen st)"

definition round8 :: "nat \<Rightarrow> nat" where
  "round8 n = (n + 7) div 8 * 8"

lemma round8_props: "n \<le> round8 n" "8 dvd round8 n" "round8 n < n + 8"
  unfolding round8_def by presburger+

lemma round8_mask: "x AND NOT 7 = push_bit 3 (drop_bit 3 (x :: u64))"
proof -
  have M: "NOT 7 = NOT (mask 3 :: u64)" by (simp add: mask_eq_exp_minus_1)
  show ?thesis unfolding M by (rule bit_word_eqI) (auto simp: bit_simps)
qed

lemma malloc_size:
  assumes "n \<noteq> 0" "n \<le> max_allowed"
  shows "(n + 7) AND NOT 7 = of_nat (round8 (unat n))" "0 < round8 (unat n)"
    "round8 (unat n) \<le> 0x200000 - 152"
proof -
  have le: "unat n \<le> 0x200000 - 152"
    using assms(2) by (simp add: max_allowed_def sizeof_header_def word_le_nat_alt)
  have "unat (n + 7) = unat n + 7" using le by (intro trans [OF unat_plus]) simp_all
  then have "unat ((n + 7) AND NOT 7) = round8 (unat n)"
    unfolding round8_mask round8_def using le
    by (simp add: push_bit_eq_mult drop_bit_eq_div unat_word_ariths unat_div_distrib mult.commute)
  then show "(n + 7) AND NOT 7 = of_nat (round8 (unat n))" by (rule nat_addr_eq)
  have "unat n \<noteq> 0" using assms(1) by (simp add: unat_eq_zero)
  then show "0 < round8 (unat n)" using round8_props(1) [of "unat n"] by linarith
  have "round8 (unat n) < 0x200000 - 144" "8 dvd (0x200000 - 152 :: nat)"
    using round8_props(3) [of "unat n"] le by simp_all
  then show "round8 (unat n) \<le> 0x200000 - 152" using round8_props(2) [of "unat n"] by presburger
qed

text \<open>From the walk on, in a heap that has a block.\<close>

definition malloc_walk :: "nat \<Rightarrow> 'a kmem_scheme \<Rightarrow> (u64 \<times> 'a kmem_scheme) option" where
  "malloc_walk sz s = do {
     (found, prev) \<leftarrow> malloc_find (ram s) (of_nat (sz + 24)) (malloc_head s) 0;
     Some (if found \<noteq> 0 then malloc_take (of_nat sz) found s else malloc_grow (of_nat sz) prev s)
   }"

definition ptr_of :: "nat option \<Rightarrow> u64" where
  "ptr_of r = (case r of None \<Rightarrow> 0 | Some p \<Rightarrow> of_nat p)"

text \<open>What a call may do to the state of the heap: the invariant holds for the new blocks, and
  the payloads in use before the call are untouched.\<close>

definition heap_step ::
    "'a kmem_scheme \<Rightarrow> nat \<Rightarrow> block list \<Rightarrow> 'a kmem_scheme \<Rightarrow> u64 list \<Rightarrow> block list \<Rightarrow> bool" where
  "heap_step s base bs s' ps' bs' \<longleftrightarrow> heap_inv s' base ps' bs' \<and> kmem.more s' = kmem.more s \<and>
     (\<forall>(q, k) \<in> live base bs \<inter> live base bs'. same_on {q ..< q + k} (ram s') (ram s))"

lemma malloc_walk_refines:
  assumes inv: "heap_inv s base ps bs" and ne: "bs \<noteq> []"
    and sz: "8 dvd sz" "0 < sz" "sz \<le> 0x200000 - 152"
    and am: "awalk sz base (length ps, bs) = (r, np', bs')"
  shows "\<exists>s' ps'. malloc_walk sz s = Some (ptr_of r, s') \<and> length ps' = np' \<and> heap_step s base bs s' ps' bs'"
proof -
  have seg: "seg (ram s) base bs 0" "0 < base" and hd: "malloc_head s = of_nat base"
    using inv ne by (simp_all add: heap_inv_def)
  have b: "base + span bs \<le> 2 ^ 64" using heap_bound [OF inv] by simp
  have s24: "sz + 24 < 2 ^ 64" using sz by simp
  show ?thesis
  proof (cases "place sz base bs")
    case (Some pb)
    then obtain p cs where pl: "place sz base bs = Some (p, cs)" by (cases pb) auto
    then have res: "r = Some p" "np' = length ps" "bs' = cs"
      using am by (simp_all add: awalk_def)
    obtain prev where f: "malloc_find (ram s) (of_nat (sz + 24)) (of_nat base) 0 = Some (of_nat (p - 24), prev)"
      using malloc_find_Some [OF seg b s24 pl] by blast
    obtain k where k: "(p, k) \<in> live base cs" "span cs = span bs" by (rule place_live [OF pl]) auto
    have p: "base + 24 \<le> p" "p < 2 ^ 64"
      using live_bounds [OF k(1)] k(2) heap_bound [OF inv] by simp_all
    have nz: "(of_nat (p - 24) :: u64) \<noteq> 0" using nat_addr_0 [of "p - 24"] p seg(2) by simp
    have "(of_nat (p - 24) :: u64) + 24 = of_nat p" using p by (simp add: of_nat_diff)
    then show ?thesis
      using malloc_take_inv [OF inv pl sz] f nz hd res
      by (intro exI [of _ "snd (malloc_take (of_nat sz) (of_nat (p - 24)) s)"] exI [of _ ps])
         (auto simp: malloc_walk_def heap_step_def ptr_of_def malloc_take_simps prod_eq_iff)
  next
    case None
    let ?pv = "of_nat (base + span (butlast bs)) :: u64"
    have f: "malloc_find (ram s) (of_nat (sz + 24)) (of_nat base) 0 = Some (0, ?pv)"
      by (rule malloc_find_None [OF seg(1) ne seg(2) b s24 None])
    then have w: "malloc_walk sz s = Some (malloc_grow (of_nat sz) ?pv s)"
      by (simp add: malloc_walk_def hd)
    show ?thesis
    proof (cases ps)
      case Nil
      then have res: "r = None" "np' = 0" "bs' = bs" using am None by (simp_all add: awalk_def)
      have "malloc_grow (of_nat sz) ?pv s = (0, printk_color RED BLACK ''malloc: Out of pages!\<newline>'' []
          (printk_color RED BLACK ''Out of memory! No free pages available.\<newline>'' [] s))"
        using inv Nil by (simp add: malloc_grow_def alloc_page_def heap_inv_def pages_inv_def)
      moreover have "heap_inv (printk_color f g h as (printk_color f' g' h' as' s)) base ps bs" for f g h as f' g' h' as'
        by (rule heap_inv_cong [OF inv]) (simp_all add: same_globals_def)
      ultimately show ?thesis using w res Nil by (simp add: ptr_of_def heap_step_def)
    next
      case (Cons x xs)
      then have res: "r = Some (base + span bs + 24)" "np' = length xs"
        "bs' = bs @ [(sz, False), (0x200000 - 24 - (sz + 24), True)]"
        using am None by (simp_all add: awalk_def)
      show ?thesis
        using malloc_grow_inv [OF inv [unfolded Cons] ne sz] w res
        by (intro exI [of _ "snd (malloc_grow (of_nat sz) ?pv s)"] exI [of _ xs])
           (auto simp: ptr_of_def heap_step_def malloc_grow_keeps prod_eq_iff)
    qed
  qed
qed

lemma malloc_refines:
  assumes inv: "heap_inv s base ps bs" and n: "n \<noteq> 0" "n \<le> max_allowed"
    and am: "amalloc (round8 (unat n)) base (length ps, bs) = (r, np', bs')"
  shows "\<exists>s' ps'. malloc n s = Some (ptr_of r, s') \<and> length ps' = np' \<and> heap_step s base bs s' ps' bs'"
proof -
  note sz = malloc_size [OF n]
  let ?sz = "round8 (unat n)"
  have m: "malloc n s = (if fst (malloc_first s) then malloc_walk ?sz (snd (malloc_first s))
      else Some (0, snd (malloc_first s)))"
    using n sz(1) by (simp add: malloc_def leD malloc_walk_def Let_def case_prod_unfold sizeof_header_def)
  show ?thesis
  proof (cases "bs = []")
    case False
    then have "malloc_first s = (True, s)"
      using inv nat_addr_0 [of base] heap_bound [OF inv] by (simp add: malloc_first_def heap_inv_def)
    then show ?thesis
      using malloc_walk_refines [OF inv False round8_props(2) sz(2,3)] am m False
      by (simp add: amalloc_def aopen_def)
  next
    case True
    show ?thesis
    proof (cases ps)
      case Nil
      have "heap_inv (snd (malloc_first s)) base [] []"
        unfolding heap_inv_init [OF inv [unfolded True] Nil]
        by (rule heap_inv_cong [OF inv [unfolded True Nil]]) (simp_all add: same_globals_def)
      then show ?thesis
        using am True Nil m heap_inv_init [OF inv [unfolded True] Nil]
        by (simp add: amalloc_def aopen_def awalk_def ptr_of_def heap_step_def)
    next
      case (Cons x xs)
      note mf = malloc_first_inv [OF inv [unfolded True Cons]]
      have am': "awalk ?sz base (length xs, [(0x200000 - 24, True)]) = (r, np', bs')"
        using am True Cons by (simp add: amalloc_def aopen_def)
      show ?thesis
        using malloc_walk_refines [OF mf(2) _ round8_props(2) sz(2,3) am'] m mf(1,3) True
        by (auto simp: heap_step_def)
    qed
  qed
qed

text \<open>\<open>free\<close> of a payload in use: the block is released and the free neighbours are merged.\<close>

lemma set_free_seg:
  assumes seg: "seg m a bs 0" and lv: "(p, n) \<in> live a bs" and b: "a + span bs \<le> 2 ^ 64"
  shows "seg (set_hdr_is_free (of_nat (p - 24)) 1 m) a (release p a bs) 0"
    "hdr_size m (of_nat (p - 24)) = of_nat n"
    "S \<inter> {p - 24 ..< p} = {} \<Longrightarrow> same_on S (set_hdr_is_free (of_nat (p - 24)) 1 m) m"
proof -
  obtain xs ys where d: "bs = xs @ (n, False) # ys" "p = a + span xs + 24" "release p a bs = xs @ (n, True) # ys"
    using live_split [OF lv] by blast
  have c: "p - 24 = a + span xs" using d(2) by simp
  let ?c = "of_nat (a + span xs) :: u64"
  have u: "unat ?c = a + span xs" using b d(1) by (intro unat_nat_addr) simp
  have c24: "unat ?c + 24 \<le> 2 ^ 64" using u b d(1) by simp
  show hs: "hdr_size m (of_nat (p - 24)) = of_nat n"
    using seg unfolding c d(1) by (simp add: seg_append del: of_nat_add)
  show same: "same_on S (set_hdr_is_free (of_nat (p - 24)) 1 m) m" if "S \<inter> {p - 24 ..< p} = {}" for S
    unfolding c by (rule header_sets_same_on [OF c24]) (use that u d(2) in simp)
  have "seg (set_hdr_is_free ?c 1 m) a (xs @ [(n, True)] @ ys) 0"
  proof (rule seg_replace [OF seg [unfolded d(1)]])
    show "seg (set_hdr_is_free ?c 1 m) (a + span xs) [(n, True)] (hdr_next m ?c)"
      using c24 hs [unfolded c] by (simp del: of_nat_add)
    show "same_on S (set_hdr_is_free ?c 1 m) m" if S: "S \<inter> {a + span xs ..< a + span xs + 24 + n} = {}" for S
      using same [unfolded c, of S] S d(2) by fastforce
  qed (use b d(1) in simp_all)
  then show "seg (set_hdr_is_free (of_nat (p - 24)) 1 m) a (release p a bs) 0" unfolding c d(3) by simp
qed

lemma sizes_ok_release: "sizes_ok bs \<Longrightarrow> sizes_ok (release p a bs)"
  by (induction p a bs rule: release.induct) auto

lemma sizes_ok_live: "sizes_ok bs \<Longrightarrow> (p, n) \<in> live a bs \<Longrightarrow> 8 dvd n \<and> 0 < n \<and> n \<le> 0x200000"
  by (induction a bs rule: live.induct) (auto split: if_splits)

lemma free_report_keeps [simp]:
  "machine.more (free_report p s) = machine.more s" "ram (free_report p s) = ram s"
  by (simp_all add: free_report_def malloc_debug_def)

lemma header_of_live: "(p, n) \<in> live a bs \<Longrightarrow> {p - 24 ..< p} \<subseteq> headers a bs"
proof (induction a bs rule: live.induct)
  case (2 a k f bs)
  then show ?case by (auto split: if_splits)
qed simp

lemma release_headers: "headers a (release p a bs) = headers a bs"
  by (induction p a bs rule: release.induct) auto

lemma free_refines:
  assumes inv: "heap_inv s base ps bs" and lv: "(p, n) \<in> live base bs"
  shows "\<exists>s'. free (of_nat p) s = Some s' \<and> heap_step s base bs s' ps (coalesce (release p base bs)) \<and>
     malloc_total_freed s' = malloc_total_freed s + of_nat n"
proof -
  have ne: "bs \<noteq> []" using lv by auto
  have b: "base + span bs + length ps * 0x200000 < 2 ^ 64" by (rule heap_bound [OF inv])
  have seg: "seg (ram s) base bs 0" and hd: "malloc_head s = of_nat base" and b0: "0 < base"
    using inv ne by (simp_all add: heap_inv_def)
  note lb = live_bounds [OF lv]
  have n: "8 dvd n" "0 < n" "n \<le> 0x200000" using sizes_ok_live [OF _ lv] inv by (simp_all add: heap_inv_def)
  have u: "unat (of_nat p :: u64) = p" using lb b n by (intro unat_nat_addr) linarith
  note fs = set_free_seg [OF seg lv]
  have c: "(of_nat p :: u64) - 24 = of_nat (p - 24)" using lb by (simp add: of_nat_diff)
  have p0: "(of_nat p :: u64) \<noteq> 0" using u lb b0 by (metis add_gr_0 leD unat_0)
  have range: "\<not> (of_nat p < Phy_To_Virt (kernel_heap_start s) \<or> of_nat p \<ge> Phy_To_Virt (kernel_heap_end s))"
    using inv u lb n by (simp add: heap_inv_def word_less_nat_alt word_le_nat_alt)
  have size: "\<not> hdr_size (ram s) (of_nat (p - 24)) > PAGE_2M_SIZE"
    using fs(2) b n by (simp add: word_less_nat_alt unat_of_nat)
  define s2 where "s2 = (free_report (of_nat p) s)\<lparr>ram := set_hdr_is_free (of_nat (p - 24)) 1 (ram s),
    malloc_total_freed := malloc_total_freed s + of_nat n\<rparr>"
  have g2: "same_globals s s2" "kmem.more s2 = kmem.more s" "malloc_total_freed s2 = malloc_total_freed s + of_nat n"
    using only_ramD [of s "free_report (of_nat p) s"] by (simp_all add: only_ram_def same_globals_def s2_def)
  let ?rs = "release p base bs"
  have "\<exists>s3. free_merge (of_nat base) s2 = Some s3 \<and> seg (ram s3) base (coalesce ?rs) 0 \<and> only_ram s2 s3 \<and>
      (\<forall>S. S \<inter> headers base ?rs = {} \<longrightarrow> same_on S (ram s3) (ram s2))"
    by (rule free_merge_coalesce) (use fs(1) b b0 ne in \<open>simp_all add: s2_def\<close>)
  then obtain s3 where s3: "free_merge (of_nat base) s2 = Some s3" "seg (ram s3) base (coalesce ?rs) 0"
    "only_ram s2 s3" "\<And>S. S \<inter> headers base bs = {} \<Longrightarrow> same_on S (ram s3) (ram s2)"
    by (auto simp: release_headers)
  have mh: "malloc_head s2 = of_nat base" using g2(1) hd by (simp add: same_globals_def)
  have fr: "malloc_total_freed (free_report (of_nat p) s) = malloc_total_freed s"
    using only_ramD(8) [of s "free_report (of_nat p) s"] by (simp add: only_ram_def)
  have "free (of_nat p) s = do { s3 \<leftarrow> free_merge (malloc_head s2) s2;
      let s4 = malloc_debug ''Freed memory at %p, size: %lu bytes\<newline>''
                 [VNum (of_nat p), VNum (hdr_size (ram s3) (of_nat (p - 24)))] s3;
      Some (malloc_debug ''Stats: allocated=%lu, freed=%lu\<newline>''
              [VNum (malloc_total_allocated s4), VNum (malloc_total_freed s4)] s4) }"
    using p0 range size fr fs(2) b
    by (simp add: free_def Let_def s2_def sizeof_header_def c)
  then obtain s' where s': "free (of_nat p) s = Some s'" "only_ram s3 s'" "ram s' = ram s3"
    using s3(1) unfolding mh by (simp add: only_ram_def Let_def)
  have same: "same_on S (ram s') (ram s)" if S: "S \<inter> headers base bs = {}" for S
  proof -
    have "S \<inter> {p - 24 ..< p} = {}" using S header_of_live [OF lv] by blast
    then have "same_on S (ram s2) (ram s)" using fs(3) b by (simp add: s2_def)
    then show ?thesis using s3(4) [OF S] s'(3) same_on_trans by metis
  qed
  have g: "same_globals s s'"
    by (rule same_globals_trans [OF g2(1) only_ram_globals [OF only_ram_trans [OF s3(3) s'(2)]]])
  have H: "same_on S (ram s') (ram s)" if "S \<inter> {base ..< base + span bs} = {}" for S
    using that headers_span [of base bs] by (intro same) blast
  have pg: "pages_inv s' ps" "\<And>y. y \<in> set ps \<Longrightarrow> phy_addr (ram s') y = phy_addr (ram s) y"
    using heap_write_pages [of s ps "{base ..< base + span bs}" s'] inv g H
    by (simp_all add: heap_inv_def same_globals_def)
  have "heap_inv s' base ps (coalesce ?rs)"
    using inv g pg s3(2) s'(3) ne coalesce_no_free_pair sizes_ok_coalesce [OF sizes_ok_release]
    by (simp add: heap_inv_def same_globals_def)
  moreover have "kmem.more s' = kmem.more s" "malloc_total_freed s' = malloc_total_freed s + of_nat n"
    using only_ramD [OF only_ram_trans [OF s3(3) s'(2)]] g2 by simp_all
  moreover have "same_on {q ..< q + k} (ram s') (ram s)" if "(q, k) \<in> live base bs" for q k
    by (rule same) (rule live_headers [OF that])
  ultimately show ?thesis using s'(1) unfolding heap_step_def by auto
qed

section \<open>The contract of the allocator\<close>

text \<open>\<open>owns s L\<close>: the payloads in use in state \<open>s\<close> are \<open>L\<close> (address and size).\<close>

definition in_blocks :: "(nat \<times> nat) set \<Rightarrow> nat set" where
  "in_blocks L = (\<Union>(p, n) \<in> L. {p ..< p + n})"

text \<open>The block behind a pointer that may be null.\<close>

definition blk :: "u64 \<Rightarrow> nat \<Rightarrow> (nat \<times> nat) set" where
  "blk p k = (if p = 0 then {} else {(unat p, k)})"

locale allocator =
  fixes alloc :: "u64 \<Rightarrow> 'a kmem_scheme \<Rightarrow> (u64 \<times> 'a kmem_scheme) option"
    and dealloc :: "u64 \<Rightarrow> 'a kmem_scheme \<Rightarrow> 'a kmem_scheme option"
    and owns :: "'a kmem_scheme \<Rightarrow> (nat \<times> nat) set \<Rightarrow> bool"
  assumes alloc_total: "owns s L \<Longrightarrow> \<exists>p s'. alloc n s = Some (p, s')"
    and alloc_fail: "owns s L \<Longrightarrow> alloc n s = Some (0, s') \<Longrightarrow> owns s' L"
    and alloc_ok: "owns s L \<Longrightarrow> alloc n s = Some (p, s') \<Longrightarrow> p \<noteq> 0 \<Longrightarrow>
      \<exists>k. unat n \<le> k \<and> owns s' (insert (unat p, k) L) \<and> (unat p, k) \<notin> L"
    and alloc_keeps: "owns s L \<Longrightarrow> alloc n s = Some (p, s') \<Longrightarrow>
      kmem.more s' = kmem.more s \<and> same_on (in_blocks L) (ram s') (ram s)"
    and dealloc_ok: "owns s L \<Longrightarrow> (unat p, k) \<in> L \<Longrightarrow>
      \<exists>s'. dealloc p s = Some s' \<and> owns s' (L - {(unat p, k)}) \<and> kmem.more s' = kmem.more s \<and>
        same_on (in_blocks (L - {(unat p, k)})) (ram s') (ram s)"
    and dealloc_null: "owns s L \<Longrightarrow> \<exists>s'. dealloc 0 s = Some s' \<and> owns s' L \<and>
        kmem.more s' = kmem.more s \<and> ram s' = ram s"
    and owns_disjoint: "owns s L \<Longrightarrow> (a, b) \<in> L \<Longrightarrow> (c, d) \<in> L \<Longrightarrow> (a, b) \<noteq> (c, d) \<Longrightarrow>
      {a ..< a + b} \<inter> {c ..< c + d} = {}"
    and owns_bounds: "owns s L \<Longrightarrow> (a, b) \<in> L \<Longrightarrow> 0 < a \<and> 0 < b \<and> a + b < 2 ^ 64"
    and owns_write: "owns s L \<Longrightarrow> same_globals s s' \<Longrightarrow> same_on (- in_blocks L) (ram s') (ram s) \<Longrightarrow> owns s' L"
begin

lemma owns_log: "owns s L \<Longrightarrow> owns (printk f as s) L" "owns s L \<Longrightarrow> owns (printk_color fg bg f as s) L"
  by (erule owns_write; simp add: same_globals_def)+

text \<open>A fresh block shares no byte with a block in use.\<close>

lemma alloc_fresh:
  assumes "owns s L" "alloc n s = Some (p, s')" "p \<noteq> 0"
  shows "\<exists>k. unat n \<le> k \<and> owns s' (insert (unat p, k) L) \<and> (unat p, k) \<notin> L \<and>
    bytes_at p (unat n) \<inter> in_blocks L = {} \<and> unat p + unat n \<le> 2 ^ 64"
proof -
  obtain k where k: "unat n \<le> k" "owns s' (insert (unat p, k) L)" "(unat p, k) \<notin> L"
    using alloc_ok [OF assms] by blast
  have "{unat p ..< unat p + k} \<inter> {q ..< q + j} = {}" if "(q, j) \<in> L" for q j
    using owns_disjoint [OF k(2), of "unat p" k q j] that k(3) by auto
  then have "{unat p ..< unat p + k} \<inter> in_blocks L = {}" by (fastforce simp: in_blocks_def)
  moreover have "bytes_at p (unat n) \<subseteq> {unat p ..< unat p + k}" using k(1) by auto
  moreover have "unat p + unat n \<le> 2 ^ 64" using owns_bounds [OF k(2), of "unat p" k] k(1) by auto
  ultimately show ?thesis using k by blast
qed

lemma alloc_dealloc:
  assumes "owns s L" "alloc n s = Some (p, s')" "p \<noteq> 0"
  shows "\<exists>s''. dealloc p s' = Some s'' \<and> owns s'' L"
proof -
  obtain k where k: "owns s' (insert (unat p, k) L)" "(unat p, k) \<notin> L"
    using alloc_ok [OF assms] by blast
  then have "insert (unat p, k) L - {(unat p, k)} = L" by blast
  then show ?thesis using dealloc_ok [OF k(1), of p k] by auto
qed

text \<open>The same laws for a result that may be null.\<close>

lemma alloc_blk:
  assumes "owns s L"
  shows "\<exists>p s' k. alloc n s = Some (p, s') \<and> owns s' (L \<union> blk p k) \<and> L \<inter> blk p k = {} \<and> (p \<noteq> 0 \<longrightarrow> unat n \<le> k)"
proof -
  obtain p s' where a: "alloc n s = Some (p, s')" using alloc_total [OF assms] by blast
  show ?thesis
  proof (cases "p = 0")
    case True
    then show ?thesis using a alloc_fail [OF assms] by (auto simp: blk_def)
  next
    case False
    then show ?thesis using a alloc_ok [OF assms a] by (auto simp: blk_def)
  qed
qed

lemma dealloc_blk:
  assumes "owns s L" "blk p k \<subseteq> L"
  shows "\<exists>s'. (if p \<noteq> 0 then dealloc p s else Some s) = Some s' \<and> owns s' (L - blk p k)"
  using assms dealloc_ok [OF assms(1), of p k] by (cases "p = 0") (auto simp: blk_def)

text \<open>A write to one block in use leaves the others as they are.\<close>

lemma write_block:
  assumes "owns s L" "(unat p, k) \<in> L" "\<And>x. unat x \<notin> bytes_at p k \<Longrightarrow> m x = ram s x"
  shows "owns (s\<lparr>ram := m\<rparr>) L" "same_on (in_blocks (L - {(unat p, k)})) m (ram s)"
proof -
  show "owns (s\<lparr>ram := m\<rparr>) L"
    by (rule owns_write [OF assms(1)]) (use assms(2) in \<open>auto simp: same_globals_def same_on_def in_blocks_def intro!: assms(3)\<close>)
  have "in_blocks (L - {(unat p, k)}) \<inter> bytes_at p k = {}"
    using owns_disjoint [OF assms(1) assms(2)] by (fastforce simp: in_blocks_def)
  then show "same_on (in_blocks (L - {(unat p, k)})) m (ram s)"
    by (auto simp: same_on_def intro!: assms(3))
qed

end

definition heap_owns :: "'a kmem_scheme \<Rightarrow> (nat \<times> nat) set \<Rightarrow> bool" where
  "heap_owns s L \<longleftrightarrow> (\<exists>base ps bs. heap_inv s base ps bs \<and> L = live base bs)"

lemma awalk_live:
  assumes "awalk sz base (np, bs) = (r, np', bs')"
  shows "case r of None \<Rightarrow> live base bs' = live base bs
    | Some p \<Rightarrow> \<exists>k \<ge> sz. live base bs' = insert (p, k) (live base bs) \<and> (p, k) \<notin> live base bs"
proof (cases "place sz base bs")
  case None
  then show ?thesis using assms live_bounds [of "base + span bs + 24" sz base bs]
    by (auto simp: awalk_def live_append split: if_splits intro!: exI [of _ sz])
next
  case (Some pb)
  then obtain p ds where pl: "place sz base bs = Some (p, ds)" by (cases pb) auto
  obtain k where "sz \<le> k" "live base ds = insert (p, k) (live base bs)" "(p, k) \<notin> live base bs"
    by (rule place_live [OF pl])
  then show ?thesis using assms pl by (auto simp: awalk_def)
qed

lemma amalloc_live:
  assumes "amalloc sz base (np, bs) = (r, np', bs')"
  shows "case r of None \<Rightarrow> live base bs' = live base bs
    | Some p \<Rightarrow> \<exists>k \<ge> sz. live base bs' = insert (p, k) (live base bs) \<and> (p, k) \<notin> live base bs"
proof -
  have "live base (snd (aopen (np, bs))) = live base bs" by (simp add: aopen_def)
  then show ?thesis
    using awalk_live [of sz base "fst (aopen (np, bs))" "snd (aopen (np, bs))"] assms
    by (simp add: amalloc_def split: option.splits)
qed

lemma same_on_in_blocks:
  "same_on (in_blocks L) m m' \<longleftrightarrow> (\<forall>(q, k) \<in> L. same_on {q ..< q + k} m m')"
  by (fastforce simp: same_on_def in_blocks_def)

lemma malloc_reject:
  "n = 0 \<or> n > max_allowed \<Longrightarrow> \<exists>s'. malloc n s = Some (0, s') \<and> only_ram s s' \<and> ram s' = ram s"
  by (cases "n = 0") (simp_all add: malloc_def only_ram_def)

text \<open>\<open>malloc\<close> returns, whatever the size; a null result changes no block.\<close>

lemma malloc_owns:
  assumes inv: "heap_inv s base ps bs"
  shows "\<exists>p s' ps' bs'. malloc n s = Some (p, s') \<and> heap_inv s' base ps' bs' \<and> kmem.more s' = kmem.more s \<and>
    same_on (in_blocks (live base bs)) (ram s') (ram s) \<and>
    (if p = 0 then live base bs' = live base bs
     else \<exists>k \<ge> unat n. live base bs' = insert (unat p, k) (live base bs) \<and> (unat p, k) \<notin> live base bs)"
proof (cases "n = 0 \<or> n > max_allowed")
  case True
  then obtain s' where s': "malloc n s = Some (0, s')" "only_ram s s'" "ram s' = ram s"
    using malloc_reject by blast
  have "heap_inv s' base ps bs" by (rule heap_inv_cong [OF inv only_ram_globals [OF s'(2)]]) (simp_all add: s'(3))
  then show ?thesis using s' only_ramD(6) [OF s'(2)] by auto
next
  case False
  obtain r np' bs' where am: "amalloc (round8 (unat n)) base (length ps, bs) = (r, np', bs')"
    by (metis surj_pair)
  obtain s' ps' where s': "malloc n s = Some (ptr_of r, s')" "heap_step s base bs s' ps' bs'"
    using malloc_refines [OF inv _ _ am] False by (auto simp: not_less)
  have lv: "live base bs \<subseteq> live base bs'" and
    res: "if ptr_of r = 0 then live base bs' = live base bs
      else \<exists>k \<ge> unat n. live base bs' = insert (unat (ptr_of r), k) (live base bs) \<and> (unat (ptr_of r), k) \<notin> live base bs"
  proof -
    show "live base bs \<subseteq> live base bs'" using amalloc_live [OF am] by (cases r) auto
    show "if ptr_of r = 0 then live base bs' = live base bs
      else \<exists>k \<ge> unat n. live base bs' = insert (unat (ptr_of r), k) (live base bs) \<and> (unat (ptr_of r), k) \<notin> live base bs"
    proof (cases r)
      case (Some p)
      then obtain k where k: "round8 (unat n) \<le> k" "live base bs' = insert (p, k) (live base bs)" "(p, k) \<notin> live base bs"
        using amalloc_live [OF am] by auto
      have inv': "heap_inv s' base ps' bs'" using s'(2) by (simp add: heap_step_def)
      have "0 < p" "p < 2 ^ 64"
        using live_bounds [of p k base bs'] k(2) heap_bound [OF inv'] by auto
      then have "ptr_of r \<noteq> 0" "unat (ptr_of r) = p"
        using Some nat_addr_0 [of p] by (simp_all add: ptr_of_def unat_nat_addr)
      then show ?thesis
        using k round8_props(1) [of "unat n"] by (auto intro: exI [of _ k])
    qed (use amalloc_live [OF am] in \<open>simp add: ptr_of_def\<close>)
  qed
  have "same_on (in_blocks (live base bs)) (ram s') (ram s)"
    using s'(2) lv unfolding same_on_in_blocks heap_step_def by blast
  then show ?thesis using s' res unfolding heap_step_def by blast
qed

lemma live_unique: "(p, n) \<in> live a bs \<Longrightarrow> (p, k) \<in> live a bs \<Longrightarrow> k = n"
proof (induction a bs rule: live.induct)
  case (2 a j f bs)
  then show ?case
    using live_bounds [of p n "a + 24 + j" bs] live_bounds [of p k "a + 24 + j" bs]
    by (auto split: if_splits)
qed simp

lemma free_owns:
  assumes inv: "heap_inv s base ps bs" and lv: "(unat p, k) \<in> live base bs"
  shows "\<exists>s' bs'. free p s = Some s' \<and> heap_inv s' base ps bs' \<and> live base bs' = live base bs - {(unat p, k)} \<and>
    kmem.more s' = kmem.more s \<and> same_on (in_blocks (live base bs - {(unat p, k)})) (ram s') (ram s)"
proof -
  let ?bs = "coalesce (release (unat p) base bs)"
  have l: "live base ?bs = live base bs - {(unat p, k)}"
    unfolding live_coalesce live_release using live_unique [OF lv] by auto
  have "(of_nat (unat p) :: u64) = p" by (rule nat_addr_eq [OF refl, symmetric])
  then obtain s' where s': "free p s = Some s'" "heap_step s base bs s' ps ?bs"
    using free_refines [OF inv lv] by auto
  moreover have "same_on (in_blocks (live base bs - {(unat p, k)})) (ram s') (ram s)"
    using s'(2) l unfolding same_on_in_blocks heap_step_def by auto
  ultimately show ?thesis using l unfolding heap_step_def by blast
qed

interpretation heap: allocator malloc free heap_owns
proof
  fix s :: "'a kmem_scheme" and L n p k q and s' :: "'a kmem_scheme"
  assume o: "heap_owns s L"
  then obtain base ps bs where inv: "heap_inv s base ps bs" and L: "L = live base bs"
    by (auto simp: heap_owns_def)
  note m = malloc_owns [OF inv, of n]
  show "\<exists>p s'. malloc n s = Some (p, s')" using m by blast
  show "malloc n s = Some (0, s') \<Longrightarrow> heap_owns s' L" using m L by (auto simp: heap_owns_def)
  show "malloc n s = Some (p, s') \<Longrightarrow> p \<noteq> 0 \<Longrightarrow>
      \<exists>k. unat n \<le> k \<and> heap_owns s' (insert (unat p, k) L) \<and> (unat p, k) \<notin> L"
    using m L by (fastforce simp: heap_owns_def)
  show "malloc n s = Some (p, s') \<Longrightarrow> kmem.more s' = kmem.more s \<and> same_on (in_blocks L) (ram s') (ram s)"
    using m L by auto
  show "(unat p, k) \<in> L \<Longrightarrow> \<exists>s'. free p s = Some s' \<and> heap_owns s' (L - {(unat p, k)}) \<and>
      kmem.more s' = kmem.more s \<and> same_on (in_blocks (L - {(unat p, k)})) (ram s') (ram s)"
    using free_owns [OF inv, of p k] L unfolding heap_owns_def by metis
  have "heap_inv (malloc_debug f as s) base ps bs" for f as
    by (rule heap_inv_cong [OF inv]) (simp_all add: same_globals_def)
  then show "\<exists>s'. free 0 s = Some s' \<and> heap_owns s' L \<and> kmem.more s' = kmem.more s \<and> ram s' = ram s"
    using L unfolding free_def heap_owns_def by simp blast
  show "same_globals s s' \<Longrightarrow> same_on (- in_blocks L) (ram s') (ram s) \<Longrightarrow> heap_owns s' L"
    using heap_inv_payload [OF inv, of s'] L by (force simp: heap_owns_def same_on_def in_blocks_def)
next
  fix s :: "'a kmem_scheme" and L p n q k
  assume "heap_owns s L" "(p, n) \<in> L" "(q, k) \<in> L" "(p, n) \<noteq> (q, k)"
  then show "{p ..< p + n} \<inter> {q ..< q + k} = {}" unfolding heap_owns_def using live_disjoint by blast
next
  fix s :: "'a kmem_scheme" and L p n
  assume o: "heap_owns s L" and l: "(p, n) \<in> L"
  then obtain base ps bs where inv: "heap_inv s base ps bs" and L: "L = live base bs"
    by (auto simp: heap_owns_def)
  show "0 < p \<and> 0 < n \<and> p + n < 2 ^ 64"
    using live_bounds [of p n base bs] sizes_ok_live [of bs p n base] heap_bound [OF inv] inv l L
    by (simp add: heap_inv_def)
qed

section \<open>The heap after init_page\<close>

text \<open>\<open>kernel_heap_end\<close> is above every usable entry.\<close>

lemma max_usable_end_ge:
  assumes "i < unat (e820_length s)" "e_type (e820 s i) = 1"
  shows "e_address (e820 s i) + e_length (e820 s i) \<le> max_usable_end s"
proof -
  define f where "f = (\<lambda>i acc. let e = e820 s i in
    if e_type e = 1 \<and> e_address e + e_length e > acc then e_address e + e_length e else acc)"
  have mono: "acc \<le> fold f is acc" for "is" acc
  proof (induction "is" arbitrary: acc)
    case (Cons i "is")
    have "acc \<le> f i acc" by (auto simp: f_def Let_def)
    also have "\<dots> \<le> fold f is (f i acc)" by (rule Cons.IH)
    finally show ?case by simp
  qed simp
  have split: "[0..<unat (e820_length s)] = [0..<i] @ i # [Suc i..<unat (e820_length s)]"
    using upt_conv_Cons [OF assms(1)] upt_add_eq_append [of 0 i "unat (e820_length s) - i"] assms(1) by simp
  have "e_address (e820 s i) + e_length (e820 s i) \<le> f i (fold f [0..<i] 0)"
    using assms(2) by (auto simp: f_def Let_def)
  also have "\<dots> \<le> fold f [Suc i..<unat (e820_length s)] (f i (fold f [0..<i] 0))" by (rule mono)
  finally show ?thesis unfolding max_usable_end_def f_def [symmetric] split by simp
qed

lemma align_self:
  assumes "2 ^ 21 dvd unat a" "unat a + 2 ^ 21 \<le> 2 ^ 64"
  shows "PAGE_2M_ALIGN a = a"
proof -
  obtain k where "unat a = 2 ^ 21 * k" using assms(1) by (rule dvdE)
  then show ?thesis
    using unat_PAGE_2M_ALIGN [OF assms(2)] by (simp add: word_unat_eq_iff)
qed

lemma init_heap_range_bounds:
  assumes "free_pages_list s = x" "x \<noteq> 0" "PAGE_2M_ALIGN (phy_addr (ram s) x) = phy_addr (ram s) x"
  shows "kernel_heap_start (init_heap_range s) = phy_addr (ram s) x"
    "kernel_heap_end (init_heap_range s) = max_usable_end s" "malloc_head (init_heap_range s) = malloc_head s"
  using assms by (simp_all add: init_heap_range_def Let_def)

definition same_map :: "'a kmem_scheme \<Rightarrow> 'a kmem_scheme \<Rightarrow> bool" where
  "same_map s s' \<longleftrightarrow> e820 s' = e820 s \<and> e820_length s' = e820_length s \<and> malloc_head s' = malloc_head s"

lemma add_regions_same_map:
  "same_map s (snd (snd (fold (\<lambda>i. add_region p (E i)) is (a, b, s))))"
proof -
  have page: "same_map s (snd (snd st)) \<Longrightarrow> same_map s (snd (snd (add_page p j st)))" for j st
    by (auto simp: add_page_def same_map_def Let_def split: prod.splits)
  have "same_map s (snd (snd st)) \<Longrightarrow> same_map s (snd (snd (add_region p e st)))" for e st
    unfolding add_region_def by (rule fold_invariant [where I = "\<lambda>st. same_map s (snd (snd st))"]) (auto intro: page)
  then show ?thesis
    by (intro fold_invariant [where I = "\<lambda>st. same_map s (snd (snd st))"]) (auto simp: same_map_def)
qed

text \<open>The start states in which \<open>init_page\<close> gives a working heap: the usable pages are one
  ascending run, and the page structures lie outside of it.\<close>

definition heap_pre :: "'a kmem_scheme \<Rightarrow> u64 \<Rightarrow> bool" where
  "heap_pre s p \<longleftrightarrow> init_page_pre s p \<and> malloc_head s = 0 \<and>
     (let n = length (usable_pages s); f = unat (usable_pages s ! 0) in
      0 < n \<and> 0 < f \<and>
      (\<forall>i < n. unat (usable_pages s ! i) = f + i * 0x200000) \<and>
      bytes_at p (24 * n) \<inter> {0xffff800000000000 + f ..< 0xffff800000000000 + f + n * 0x200000} = {}) \<and>
     (\<forall>i < unat (e820_length s). sane_entry (e820 s i)) \<and> unat (max_usable_end s) < 2 ^ 47"

lemma unat_Phy_To_Virt: "unat a < 2 ^ 47 \<Longrightarrow> unat (Phy_To_Virt a) = 0xffff800000000000 + unat a"
  unfolding Phy_To_Virt_def PAGE_OFFSET_def by (subst unat_plus) simp_all

lemma usable_page_below:
  assumes "j \<in> set (usable_pages s)" "\<forall>i < unat (e820_length s). sane_entry (e820 s i)"
  shows "unat j + 0x200000 \<le> unat (max_usable_end s)" "2 ^ 21 dvd unat j"
proof -
  obtain i where i: "i < unat (e820_length s)" "j \<in> set (page_addrs (e820 s i))"
    using assms(1) by (auto simp: usable_pages_def)
  have sane: "sane_entry (e820 s i)" using assms(2) i(1) by blast
  note r = page_addrs_in_region [OF sane i(2)]
  have "unat (e_address (e820 s i) + e_length (e820 s i)) = unat (e_address (e820 s i)) + unat (e_length (e820 s i))"
    using sane by (intro unat_plus) (simp add: sane_entry_def)
  then show "unat j + 0x200000 \<le> unat (max_usable_end s)"
    using max_usable_end_ge [OF i(1) r(1)] r(4) by (simp add: word_le_nat_alt)
  show "2 ^ 21 dvd unat j" by (rule r(2))
qed

lemma init_page_globals:
  assumes pre: "heap_pre s p"
  shows "kernel_heap_start (init_page s) = usable_pages s ! 0"
    "kernel_heap_end (init_page s) = max_usable_end s" "malloc_head (init_page s) = 0"
proof -
  define s0 where "s0 = printk_color BLUE BLACK ''=== Page Management Initialization Start ===\<newline>'' [] s"
  define s1 where "s1 = snd (place_structs (count_pages s0) s0)"
  define t where "t = snd (snd (fold (\<lambda>i. add_region p (e820 s i)) [0..<unat (e820_length s)] (0, 0, s1)))"
  have pre': "init_page_pre s p" and n: "0 < length (usable_pages s)" using pre by (simp_all add: heap_pre_def Let_def)
  note pl = place_structs_pre [OF pre' s0_def, folded s1_def]
  have ip: "init_page s = init_heap_range t"
    using pl pre' by (simp add: init_page_def Let_def s0_def [symmetric] case_prod_unfold
        s1_def [symmetric] t_def init_page_pre_def)
  have mh1: "malloc_head s1 = 0"
    using pre by (simp add: s1_def s0_def place_structs_def Let_def heap_pre_def split: option.splits)
  have sm: "e820 t = e820 s" "e820_length t = e820_length s" "malloc_head t = 0"
    using add_regions_same_map [of s1 p "e820 s" "[0..<unat (e820_length s)]" 0 0] pl(4,5) mh1
    by (simp_all add: same_map_def t_def)
  then have me: "max_usable_end t = max_usable_end s" by (simp add: max_usable_end_def)
  note b = init_page_built [OF pre']
  have r: "ram (init_page s) = ram t" "free_pages_list (init_page s) = free_pages_list t" by (simp_all add: ip)
  have fl: "free_pages_list t = paddr p 0" "paddr p 0 \<noteq> 0" "phy_addr (ram t) (paddr p 0) = usable_pages s ! 0"
    using b(1) b(3) [of 0] n unfolding r by (auto simp: upt_rec)
  have j: "usable_pages s ! 0 \<in> set (usable_pages s)" using n by simp
  have below: "unat (usable_pages s ! 0) + 0x200000 \<le> unat (max_usable_end s)" "2 ^ 21 dvd unat (usable_pages s ! 0)"
    using usable_page_below [OF j] pre by (simp_all add: heap_pre_def)
  have "PAGE_2M_ALIGN (usable_pages s ! 0) = usable_pages s ! 0"
    by (rule align_self [OF below(2)]) (use below(1) pre in \<open>simp add: heap_pre_def\<close>)
  then show "kernel_heap_start (init_page s) = usable_pages s ! 0"
    "kernel_heap_end (init_page s) = max_usable_end s" "malloc_head (init_page s) = 0"
    using init_heap_range_bounds [OF fl(1,2)] fl(3) sm me by (simp_all add: ip)
qed

text \<open>\<open>init_page\<close> establishes the invariant of the heap, with no block in use.\<close>

lemma init_page_heap_inv:
  assumes pre: "heap_pre s p"
  defines "n \<equiv> length (usable_pages s)"
  shows "heap_inv (init_page s) (0xffff800000000000 + unat (usable_pages s ! 0)) (map (paddr p) [0..<n]) []"
proof -
  let ?t = "init_page s" and ?ps = "map (paddr p) [0..<n]"
  define f where "f = unat (usable_pages s ! 0)"
  define base where "base = 0xffff800000000000 + f"
  have ip: "init_page_pre s p" using pre by (simp add: heap_pre_def)
  have n: "0 < n" and run: "\<And>i. i < n \<Longrightarrow> unat (usable_pages s ! i) = f + i * 0x200000"
    and apart: "bytes_at p (24 * n) \<inter> {base ..< base + n * 0x200000} = {}"
    and top: "unat (max_usable_end s) < 2 ^ 47"
    using pre unfolding heap_pre_def Let_def n_def f_def base_def by blast+
  note b = init_page_built [OF ip, folded n_def] and g = init_page_globals [OF pre]
  have bound: "unat p + 24 * n \<le> 2 ^ 64" using ip by (simp add: init_page_pre_def n_def)
  note up = unat_paddr [OF bound]
  have below: "unat (usable_pages s ! i) + 0x200000 \<le> unat (max_usable_end s)" if "i < n" for i
    using usable_page_below(1) [of "usable_pages s ! i" s] that pre by (simp add: n_def heap_pre_def)
  have virt: "unat (Phy_To_Virt (phy_addr (ram ?t) (paddr p i))) = base + i * 0x200000" if "i < n" for i
    using b(3) [OF that] below [OF that] run [OF that] top
    by (simp add: unat_Phy_To_Virt base_def)
  have endv: "unat (Phy_To_Virt (max_usable_end s)) = 0xffff800000000000 + unat (max_usable_end s)"
    by (rule unat_Phy_To_Virt [OF top])
  have last: "base + n * 0x200000 \<le> unat (Phy_To_Virt (max_usable_end s))"
    using below [of "n - 1"] run [of "n - 1"] n endv by (cases n) (simp_all add: base_def)
  have inj: "paddr p i = paddr p k \<longleftrightarrow> i = k" if "i < n" "k < n" for i k
    using up [OF that(1)] up [OF that(2)] by (auto simp: word_unat_eq_iff)
  have ap: "structs_apart ?ps"
    unfolding structs_apart_def
  proof (intro conjI ballI impI)
    show "distinct ?ps" by (auto simp: distinct_map inj_on_def inj)
    show "unat x + 24 \<le> 2 ^ 64" if "x \<in> set ?ps" for x using that up bound by auto
    show "bytes_at x 24 \<inter> bytes_at y 24 = {}" if xy: "x \<in> set ?ps" "y \<in> set ?ps" "x \<noteq> y" for x y
    proof -
      obtain i k where ik: "x = paddr p i" "i < n" "y = paddr p k" "k < n" using xy(1,2) by auto
      then have "i \<noteq> k" using xy(3) by blast
      then show ?thesis unfolding ik(1,3) by (rule paddr_apart [OF bound ik(2,4)])
    qed
  qed
  have "frame (ram ?t) (paddr p i) \<inter> bytes_at (paddr p k) 24 = {}" if ik: "i < n" "k < n" for i k
  proof -
    have "i * 0x200000 + 0x200000 \<le> n * 0x200000" using mult_le_mono1 [of "Suc i" n "0x200000"] ik by simp
    then have "frame (ram ?t) (paddr p i) \<subseteq> {base ..< base + n * 0x200000}"
      unfolding frame_def virt [OF ik(1)] by auto
    moreover have "bytes_at (paddr p k) 24 \<subseteq> bytes_at p (24 * n)" using up [OF ik(2)] ik by auto
    ultimately show ?thesis using apart by blast
  qed
  moreover have "base + i * 0x200000 + 0x200000 \<le> 2 ^ 64" if "i < n" for i
    using run [OF that] below [OF that] top by (simp add: base_def)
  ultimately have lay: "page_layout (ram ?t) ?ps"
    using ap virt by (auto simp: page_layout_def)
  have "8 dvd base"
  proof -
    have "2 ^ 21 dvd f" using usable_page_below(2) [of "usable_pages s ! 0" s] n pre by (simp add: n_def heap_pre_def f_def)
    then have "8 dvd f" by (rule dvd_trans [rotated]) simp
    then show ?thesis unfolding base_def by (intro dvd_add) simp_all
  qed
  moreover have "unat (Phy_To_Virt (kernel_heap_start ?t)) \<le> base"
    using g(1) below [OF n] top by (simp add: unat_Phy_To_Virt base_def f_def)
  ultimately show ?thesis
    unfolding f_def [symmetric] base_def [symmetric]
    using b(1,2) lay virt last g by (simp add: heap_inv_def pages_inv_def base_def)
qed

section \<open>memory_test leaves nothing behind\<close>

lemma memset_owns:
  assumes own: "heap_owns s L" and p: "p \<noteq> 0" "blk p k \<subseteq> L" "n \<le> k"
  shows "heap_owns (s\<lparr>ram := memset p c n (ram s)\<rparr>) L"
proof -
  have L: "(unat p, k) \<in> L" using p(1,2) by (simp add: blk_def)
  have "unat p + n \<le> 2 ^ 64" using heap.owns_bounds [OF own L] p(3) by simp
  then have "memset p c n (ram s) x = ram s x" if "unat x \<notin> bytes_at p k" for x
    using memset_filled [of p n c "ram s"] that p(3) by (auto simp: filled_def)
  then show ?thesis by (rule heap.write_block(1) [OF own L])
qed

lemma test_patterns_owns:
  assumes "heap_owns s L" "p \<noteq> 0" "q \<noteq> 0" "r \<noteq> 0" "blk p i \<subseteq> L" "blk q j \<subseteq> L" "blk r k \<subseteq> L"
    "512 \<le> i" "1024 \<le> j" "2048 \<le> k"
  shows "heap_owns (test_patterns p q r s) L"
  unfolding test_patterns_def Let_def
  using assms by (intro heap.owns_log memset_owns [of _ L _ i] memset_owns [of _ L _ j] memset_owns [of _ L _ k]) auto

lemma test_megabyte_owns:
  assumes "heap_owns s L" "p \<noteq> 0" "blk p k \<subseteq> L" "1024 * 1024 \<le> k"
  shows "heap_owns (test_megabyte p s) L"
  unfolding test_megabyte_def Let_def using assms by (intro heap.owns_log memset_owns [of _ L _ k]) auto

lemma string_at_TEST:
  assumes "unat p + 5 \<le> 2 ^ 64"
  shows "string_at (m(p := 0x54, p + 1 := 0x45, p + 2 := 0x53, p + 3 := 0x54, p + 4 := 0)) p = Some ''TEST''"
proof -
  define M where "M = m(p := 0x54, p + 1 := 0x45, p + 2 := 0x53, p + 3 := 0x54, p + 4 := 0)"
  have v: "M p = 0x54" "M (p + 1) = 0x45" "M (p + 2) = 0x53" "M (p + 3) = 0x54" "M (p + 4) = 0"
    by (simp_all add: M_def)
  have four: "i = 0 \<or> i = 1 \<or> i = 2 \<or> i = 3" if "i < Suc (Suc (Suc (Suc 0)))" for i :: nat
    using that by linarith
  have c: "cstr (\<lambda>i. M (p + of_nat i)) [0x54, 0x45, 0x53, 0x54]"
    unfolding cstr_def using v by (auto dest!: four)
  have u: "[0..<4] = [0, 1, 2, 3 :: nat]" by (simp add: upt_rec)
  show ?thesis
    unfolding M_def [symmetric] string_at_def strlen_cstr [OF c] using v
    by (simp add: u) (simp add: char_of_def bit_Suc_0_iff)
qed

lemma test_string_owns:
  assumes own: "heap_owns s L" and p: "p \<noteq> 0" "blk p k \<subseteq> L" "1024 \<le> k"
  shows "\<exists>s'. test_string p s = Some s' \<and> heap_owns s' L"
proof -
  have L: "(unat p, k) \<in> L" using p(1,2) by (simp add: blk_def)
  have b: "unat p + k < 2 ^ 64" using heap.owns_bounds [OF own L] by simp
  have off: "unat (p + of_nat i) = unat p + i" if "i < 5" for i
    using that b p(3) by (intro unat_add_of_nat) linarith
  let ?m = "(ram s)(p := 0x54, p + 1 := 0x45, p + 2 := 0x53, p + 3 := 0x54, p + 4 := 0)"
  have "heap_owns (s\<lparr>ram := ?m\<rparr>) L"
    by (rule heap.write_block(1) [OF own L])
       (use off [of 0] off [of 1] off [of 2] off [of 3] off [of 4] p(3) in auto)
  moreover have "string_at ?m p = Some ''TEST''" by (rule string_at_TEST) (use b p(3) in linarith)
  ultimately show ?thesis
    unfolding test_string_def Let_def by (simp del: fun_upd_apply add: heap.owns_log)
qed

lemma free_if_owns:
  assumes "heap_owns s L" "blk p k \<subseteq> L"
  shows "\<exists>s'. free_if p s = Some s' \<and> heap_owns s' (L - blk p k)"
  using heap.dealloc_blk [OF assms] by (simp add: free_if_def)

lemma memory_test_owns:
  assumes own: "heap_owns s L"
  shows "\<exists>s'. memory_test s = Some s' \<and> heap_owns s' L"
proof -
  let ?s0 = "printk_color GREEN BLACK ''=== Memory Allocation Test Start ===\<newline>'' [] s"
  have o0: "heap_owns ?s0 L" by (rule heap.owns_log(2) [OF own])
  obtain p1 s1 k1 where a1: "malloc 512 ?s0 = Some (p1, s1)" "heap_owns s1 (L \<union> blk p1 k1)"
    "L \<inter> blk p1 k1 = {}" "p1 \<noteq> 0 \<longrightarrow> 512 \<le> k1"
    using heap.alloc_blk [OF o0, of 512] by auto
  define L1 where "L1 = L \<union> blk p1 k1"
  obtain p2 s2 k2 where a2: "malloc 1024 s1 = Some (p2, s2)" "heap_owns s2 (L1 \<union> blk p2 k2)"
    "L1 \<inter> blk p2 k2 = {}" "p2 \<noteq> 0 \<longrightarrow> 1024 \<le> k2"
    using heap.alloc_blk [OF a1(2) [folded L1_def], of 1024] by auto
  define L2 where "L2 = L1 \<union> blk p2 k2"
  obtain p3 s3 k3 where a3: "malloc 2048 s2 = Some (p3, s3)" "heap_owns s3 (L2 \<union> blk p3 k3)"
    "L2 \<inter> blk p3 k3 = {}" "p3 \<noteq> 0 \<longrightarrow> 2048 \<le> k3"
    using heap.alloc_blk [OF a2(2) [folded L2_def], of 2048] by auto
  define L3 where "L3 = L2 \<union> blk p3 k3"
  define s4 where "s4 = (if p1 \<noteq> 0 \<and> p2 \<noteq> 0 \<and> p3 \<noteq> 0 then test_patterns p1 p2 p3 s3
    else printk_color RED BLACK ''Test 1: Multiple allocations failed!\<newline>'' [] s3)"
  have o4: "heap_owns s4 L3"
    using a3(2) a1(4) a2(4) a3(4) test_patterns_owns [of s3 L3 p1 p2 p3 k1 k2 k3]
    by (auto simp: s4_def L3_def L2_def L1_def heap.owns_log)
  obtain p4 s5 k4 where a4: "malloc (1024 * 1024) s4 = Some (p4, s5)" "heap_owns s5 (L3 \<union> blk p4 k4)"
    "L3 \<inter> blk p4 k4 = {}" "p4 \<noteq> 0 \<longrightarrow> 1024 * 1024 \<le> k4"
    using heap.alloc_blk [OF o4, of "1024 * 1024"] by auto
  define L4 where "L4 = L3 \<union> blk p4 k4"
  define s6 where "s6 = (if p4 \<noteq> 0 then test_megabyte p4 s5
    else printk_color RED BLACK ''Test 2: malloc(1MB) failed!\<newline>'' [] s5)"
  have o6: "heap_owns s6 L4"
    using a4(2,4) test_megabyte_owns [of s5 L4 p4 k4] by (auto simp: s6_def L4_def heap.owns_log)
  obtain s7 where o7: "(if p2 \<noteq> 0 then test_string p2 s6 else Some s6) = Some s7" "heap_owns s7 L4"
    using o6 a2(4) test_string_owns [of s6 L4 p2 k2] by (cases "p2 = 0") (auto simp: L4_def L3_def L2_def)
  obtain s8 where o8: "free_if p1 s7 = Some s8" "heap_owns s8 (L4 - blk p1 k1)"
    using free_if_owns [OF o7(2), of p1 k1] by (auto simp: L4_def L3_def L2_def L1_def)
  obtain s9 where o9: "free_if p2 s8 = Some s9" "heap_owns s9 (L4 - blk p1 k1 - blk p2 k2)"
    using free_if_owns [OF o8(2), of p2 k2] a2(3) by (auto simp: L4_def L3_def L2_def L1_def)
  obtain s10 where o10: "free_if p3 s9 = Some s10" "heap_owns s10 (L4 - blk p1 k1 - blk p2 k2 - blk p3 k3)"
    using free_if_owns [OF o9(2), of p3 k3] a3(3) by (auto simp: L4_def L3_def L2_def L1_def)
  obtain s11 where o11: "free_if p4 s10 = Some s11"
      "heap_owns s11 (L4 - blk p1 k1 - blk p2 k2 - blk p3 k3 - blk p4 k4)"
    using free_if_owns [OF o10(2), of p4 k4] a4(3) by (auto simp: L4_def L3_def L2_def L1_def)
  have "L4 - blk p1 k1 - blk p2 k2 - blk p3 k3 - blk p4 k4 = L"
    using a1(3) a2(3) a3(3) a4(3) by (auto simp: L4_def L3_def L2_def L1_def)
  then show ?thesis
    using a1(1) a2(1) a3(1) a4(1) o7(1) o8(1) o9(1) o10(1) o11 unfolding memory_test_def
    by (simp add: s4_def [symmetric] s6_def [symmetric] heap.owns_log)
qed

section \<open>Properties\<close>

lemma one_page_heap: "heap_inv one_page 0xffff800000200000 [0xffff800000000000] []"
proof -
  have "phy_addr (ram one_page) 0xffff800000000000 = 0x200000" by (simp add: one_page_def)
  then show ?thesis
    using one_page_inv
    by (simp add: heap_inv_def Phy_To_Virt_def PAGE_OFFSET_def) (simp add: one_page_def)
qed

text \<open>C1: \<open>malloc\<close> implements first fit: for every admissible size it returns (the walk of the
  header list ends), its result is the address the specification \<open>amalloc\<close> computes on the block
  list (null when no block fits and no page is left), and the header list in memory again tiles
  the heap as the specified blocks. Payloads in use keep their contents.\<close>

theorem malloc_implements_first_fit:
  assumes "heap_inv s base ps bs" "n \<noteq> 0" "n \<le> max_allowed"
    and "amalloc (round8 (unat n)) base (length ps, bs) = (r, np', bs')"
  shows "\<exists>s' ps'. malloc n s = Some (ptr_of r, s') \<and> length ps' = np' \<and> heap_step s base bs s' ps' bs'"
  by (rule malloc_refines [OF assms])

lemma amalloc_100: "amalloc (round8 (unat (100 :: u64))) 0xffff800000200000 (length [0xffff800000000000 :: u64], [])
    = (Some 0xffff800000200018, 0, [(104, False), (2097000, True)])"
  by (simp add: amalloc_def aopen_def awalk_def round8_def carve_def)

theorem malloc_implements_first_fit_witness:
  "\<exists>s'. malloc 100 one_page = Some (0xffff800000200018, s') \<and>
     heap_step one_page 0xffff800000200000 [] s' [] [(104, False), (2097000, True)]"
  using malloc_implements_first_fit [OF one_page_heap _ _ amalloc_100]
  by (auto simp: max_allowed_def sizeof_header_def ptr_of_def)

text \<open>C2: \<open>free\<close> of a payload in use returns, never rejects the pointer, releases exactly that
  block and merges free neighbours: the new block list is \<open>coalesce (release \<dots>)\<close>, in which no two
  neighbours are free. \<open>malloc_total_freed\<close> grows by the size in the header.\<close>

theorem free_releases_and_coalesces:
  assumes "heap_inv s base ps bs" "(p, n) \<in> live base bs"
  shows "\<exists>s'. free (of_nat p) s = Some s' \<and> heap_step s base bs s' ps (coalesce (release p base bs)) \<and>
     live base (coalesce (release p base bs)) = live base bs - {(p, n)} \<and>
     no_free_pair (coalesce (release p base bs)) \<and> malloc_total_freed s' = malloc_total_freed s + of_nat n"
proof -
  have "live base (coalesce (release p base bs)) = live base bs - {(p, n)}"
    unfolding live_coalesce live_release using live_unique [OF assms(2)] by auto
  then show ?thesis using free_refines [OF assms] coalesce_no_free_pair by blast
qed

theorem free_releases_and_coalesces_witness:
  "\<exists>s s' :: kmem. heap_inv s 0xffff800000200000 [] [(104, False), (2097000, True)] \<and>
     free (of_nat 0xffff800000200018) s = Some s' \<and>
     heap_step s 0xffff800000200000 [(104, False), (2097000, True)] s' [] [(2097128, True)]"
proof -
  obtain s ps where "length ps = 0" "heap_step one_page 0xffff800000200000 [] s ps [(104, False), (2097000, True)]"
    using malloc_refines [OF one_page_heap _ _ amalloc_100]
    by (auto simp: max_allowed_def sizeof_header_def)
  then have s: "heap_inv s 0xffff800000200000 [] [(104, False), (2097000, True)]" by (simp add: heap_step_def)
  have "\<exists>s'. free (of_nat 0xffff800000200018) s = Some s' \<and>
     heap_step s 0xffff800000200000 [(104, False), (2097000, True)] s' [] [(2097128, True)]"
    using free_releases_and_coalesces [OF s, of "0xffff800000200018" 104] by auto
  then show ?thesis using s by blast
qed

text \<open>C13: a block returned by \<open>malloc\<close> has room for the request, shares no byte with a block in
  use, and the contents of all blocks in use are as before the call.\<close>

theorem malloc_result_fresh:
  assumes "heap_owns s L" "malloc n s = Some (p, s')" "p \<noteq> 0"
  shows "\<exists>k. unat n \<le> k \<and> heap_owns s' (insert (unat p, k) L) \<and> (unat p, k) \<notin> L \<and>
    bytes_at p (unat n) \<inter> in_blocks L = {} \<and> same_on (in_blocks L) (ram s') (ram s)"
  using heap.alloc_fresh [OF assms] heap.alloc_keeps [OF assms(1,2)] by blast

theorem malloc_result_fresh_witness:
  "\<exists>s' k. malloc 100 one_page = Some (0xffff800000200018, s') \<and> 100 \<le> k \<and>
     heap_owns s' {(unat (0xffff800000200018 :: u64), k)}"
proof -
  have own: "heap_owns one_page {}" unfolding heap_owns_def using one_page_heap by fastforce
  obtain s' where s': "malloc 100 one_page = Some (0xffff800000200018, s')"
    using malloc_refines [OF one_page_heap _ _ amalloc_100]
    by (auto simp: max_allowed_def sizeof_header_def ptr_of_def)
  show ?thesis using malloc_result_fresh [OF own s'] s' by auto
qed

text \<open>C14: \<open>free\<close> undoes \<open>malloc\<close>: it accepts the pointer, and afterwards the blocks in use are the
  ones from before the allocation.\<close>

theorem malloc_free_roundtrip:
  assumes "heap_owns s L" "malloc n s = Some (p, s')" "p \<noteq> 0"
  shows "\<exists>s''. free p s' = Some s'' \<and> heap_owns s'' L"
  by (rule heap.alloc_dealloc [OF assms])

theorem malloc_free_roundtrip_witness:
  "\<exists>s' s''. malloc 100 one_page = Some (0xffff800000200018, s') \<and> free 0xffff800000200018 s' = Some s'' \<and> heap_owns s'' {}"
proof -
  have own: "heap_owns one_page {}" unfolding heap_owns_def using one_page_heap by fastforce
  obtain s' where s': "malloc 100 one_page = Some (0xffff800000200018, s')"
    using malloc_refines [OF one_page_heap _ _ amalloc_100]
    by (auto simp: max_allowed_def sizeof_header_def ptr_of_def)
  show ?thesis using malloc_free_roundtrip [OF own s'] s' by auto
qed

text \<open>Writing inside blocks in use, whatever is written, keeps the whole heap structure: no
  payload overlaps a header or a page structure.\<close>

theorem payload_writes_keep_heap:
  assumes "heap_inv s base ps bs" "same_on (- in_blocks (live base bs)) m (ram s)"
  shows "heap_inv (s\<lparr>ram := m\<rparr>) base ps bs"
proof (rule heap_inv_payload [OF assms(1)])
  fix x :: u64 assume "\<forall>(p, n) \<in> live base bs. unat x \<notin> {p ..< p + n}"
  then have "unat x \<in> - in_blocks (live base bs)" unfolding in_blocks_def by blast
  then show "ram (s\<lparr>ram := m\<rparr>) x = ram s x" using assms(2) by (simp add: same_on_def)
qed (simp add: same_globals_def)

theorem payload_writes_keep_heap_witness:
  "\<exists>s :: kmem. heap_inv s 0xffff800000200000 [] [(104, False), (2097000, True)] \<and>
     heap_inv (s\<lparr>ram := (ram s)(0xffff800000200018 := 0xFF)\<rparr>) 0xffff800000200000 [] [(104, False), (2097000, True)]"
proof -
  obtain s ps where "length ps = 0" "heap_step one_page 0xffff800000200000 [] s ps [(104, False), (2097000, True)]"
    using malloc_refines [OF one_page_heap _ _ amalloc_100]
    by (auto simp: max_allowed_def sizeof_header_def)
  then have s: "heap_inv s 0xffff800000200000 [] [(104, False), (2097000, True)]" by (simp add: heap_step_def)
  have "same_on (- in_blocks (live 0xffff800000200000 [(104, False), (2097000, True)]))
      ((ram s)(0xffff800000200018 := 0xFF)) (ram s)"
    by (auto simp: same_on_def in_blocks_def)
  then show ?thesis using payload_writes_keep_heap [OF s] s by blast
qed



text \<open>With no page left and no block that fits, and for zero or over-large requests, \<open>malloc\<close>
  returns null and the blocks in use stay as they are.\<close>

theorem malloc_failure_keeps_heap:
  assumes "heap_owns s L" "malloc n s = Some (0, s')"
  shows "heap_owns s' L \<and> same_on (in_blocks L) (ram s') (ram s)"
  using heap.alloc_fail [OF assms] heap.alloc_keeps [OF assms] by blast

theorem malloc_failure_keeps_heap_witness:
  "\<exists>s'. malloc 0x200000 one_page = Some (0, s') \<and> heap_owns s' {}"
proof -
  have own: "heap_owns one_page {}" unfolding heap_owns_def using one_page_heap by fastforce
  obtain s' where s': "malloc 0x200000 one_page = Some (0, s')"
    using malloc_reject [of "0x200000" one_page] by (auto simp: max_allowed_def sizeof_header_def)
  show ?thesis using malloc_failure_keeps_heap [OF own s'] s' by auto
qed

text \<open>The merging loop of \<open>free\<close> compares only the order in the list, not the addresses: two
  free neighbours in the list are merged even when the second does not start where the first
  ends, and the merged size then reaches over memory that belongs to neither.\<close>

theorem merge_ignores_gaps:
  assumes "unat a + 24 \<le> 2 ^ 64" "unat b + 24 \<le> 2 ^ 64" "a \<noteq> 0" "b \<noteq> 0" "bytes_at b 24 \<inter> bytes_at a 24 = {}"
    and "hdr_next (ram s) a = b" "hdr_next (ram s) b = 0"
    and "hdr_is_free (ram s) a \<noteq> 0" "hdr_is_free (ram s) b \<noteq> 0"
  shows "\<exists>s'. free_merge a s = Some s' \<and> hdr_next (ram s') a = 0 \<and>
    hdr_size (ram s') a = hdr_size (ram s) a + 24 + hdr_size (ram s) b"
proof -
  note other = header_sets_other [OF assms(2,1,5)]
  have n: "hdr_next (merge_mem a (ram s)) a = 0"
      "hdr_size (merge_mem a (ram s)) a = hdr_size (ram s) a + 24 + hdr_size (ram s) b"
    using assms other by (simp_all add: merge_mem_def Let_def)
  have "free_merge a s = free_merge a ((malloc_debug ''Merging blocks: %lu + %lu = %lu bytes\<newline>''
      [VNum (hdr_size (ram s) a), VNum (hdr_size (ram s) b), VNum (hdr_size (ram s) a + 24 + hdr_size (ram s) b)] s)
      \<lparr>ram := merge_mem a (ram s)\<rparr>)" (is "_ = free_merge a ?t")
    using assms by (subst free_merge_step) simp
  also have "\<dots> = Some ?t" using n(1) by (subst free_merge_step) simp
  finally show ?thesis using n by (intro exI [of _ ?t]) simp
qed

theorem merge_ignores_gaps_witness:
  "\<exists>s s' :: kmem. hdr_next (ram s) 0x1000 = 0x9000 \<and> hdr_size (ram s) 0x1000 = 0x40 \<and>
     free_merge 0x1000 s = Some s' \<and> hdr_size (ram s') 0x1000 = 0x98"
proof -
  let ?m = "put_header 0x1000 0x40 0x9000 1 (put_header 0x9000 0x40 0 1 (\<lambda>_. 0))"
  let ?s = "one_page\<lparr>ram := ?m\<rparr>"
  have other: "hdr_size ?m 0x9000 = 0x40" "hdr_next ?m 0x9000 = 0" "hdr_is_free ?m 0x9000 = 1"
    by (simp_all add: header_sets_other)
  have "\<exists>s'. free_merge 0x1000 ?s = Some s' \<and> hdr_next (ram s') 0x1000 = 0 \<and>
      hdr_size (ram s') 0x1000 = hdr_size (ram ?s) 0x1000 + 24 + hdr_size (ram ?s) 0x9000"
    by (rule merge_ignores_gaps) (simp_all add: other)
  then have "\<exists>s'. hdr_next (ram ?s) 0x1000 = 0x9000 \<and> hdr_size (ram ?s) 0x1000 = 0x40 \<and>
      free_merge 0x1000 ?s = Some s' \<and> hdr_size (ram s') 0x1000 = 0x98"
    by (auto simp: other)
  then show ?thesis by (rule exI [of _ ?s])
qed

text \<open>\<open>memory_test\<close> returns from every sound state, whichever of its allocations fail, and frees
  everything it allocated: the blocks in use are the same before and after.\<close>

theorem memory_test_leaves_no_block:
  assumes "heap_owns s L"
  shows "\<exists>s'. memory_test s = Some s' \<and> heap_owns s' L"
  by (rule memory_test_owns [OF assms])

theorem memory_test_leaves_no_block_witness: "\<exists>s'. memory_test one_page = Some s' \<and> heap_owns s' {}"
proof -
  have "heap_owns one_page {}" unfolding heap_owns_def using one_page_heap by fastforce
  then show ?thesis by (rule memory_test_leaves_no_block)
qed

end
