(* ===== verification/Sched.thy ===== *)
theory Sched
  imports Heap
begin

text \<open>
  The cooperative scheduler: \<open>src/src/kernel/scheduler.c\<close>, \<open>scheduler.h\<close> and the register
  switch of \<open>context_switch.asm\<close>.

  \<open>sched\<close> extends the memory state by the globals of \<open>scheduler.c\<close> and by the registers the
  switch saves and loads. A call that ends in \<open>context_switch_asm\<close> does not return to its
  caller: its result here is the state in which the processor enters the other process. The
  addresses of \<open>process_wrapper\<close> and \<open>idle_process\<close> are assigned by the linker and are
  arguments. \<open>None\<close> stands for a heap walk that never ends.
\<close>

section \<open>Data\<close>

definition MAX_PROCESSES :: nat where "MAX_PROCESSES = 8"
definition STACK_SIZE :: u64 where "STACK_SIZE = 4096 * 4"

record process_context =
  rbx :: u64
  rbp :: u64
  r12 :: u64
  r13 :: u64
  r14 :: u64
  r15 :: u64
  rsp :: u64
  rip :: u64

datatype proc_state = PROC_UNUSED | PROC_READY | PROC_RUNNING | PROC_BLOCKED

record process =
  pid :: u64
  state :: proc_state
  ctx :: process_context
  stack :: u64
  stack_size :: u64

record sched = kmem +
  g_procs :: "process array"
  g_current :: int
  g_next_pid :: u64
  g_last_switch_ticks :: u64
  g_scheduler_started :: bool
  cpu :: process_context

definition proc_state_num :: "proc_state \<Rightarrow> nat" where
  "proc_state_num st = (case st of PROC_UNUSED \<Rightarrow> 0 | PROC_READY \<Rightarrow> 1 | PROC_RUNNING \<Rightarrow> 2 | PROC_BLOCKED \<Rightarrow> 3)"

definition set_proc :: "nat \<Rightarrow> (process \<Rightarrow> process) \<Rightarrow> 'a sched_scheme \<Rightarrow> 'a sched_scheme" where
  "set_proc i f s = s\<lparr>g_procs := (g_procs s)(i := f (g_procs s i))\<rparr>"

abbreviation proc_is :: "'a sched_scheme \<Rightarrow> nat \<Rightarrow> proc_state \<Rightarrow> bool" where
  "proc_is s i st \<equiv> state (g_procs s i) = st"

section \<open>The register switch (context_switch.asm)\<close>

definition save_context :: "nat \<Rightarrow> 'a sched_scheme \<Rightarrow> 'a sched_scheme" where
  "save_context i s =
     set_proc i (\<lambda>p. p\<lparr>ctx := (cpu s)\<lparr>rip := load_le 8 (ram s) (rsp (cpu s))\<rparr>\<rparr>) s"

definition context_switch_asm :: "nat option \<Rightarrow> nat \<Rightarrow> 'a sched_scheme \<Rightarrow> 'a sched_scheme" where
  "context_switch_asm old new s =
     (let s1 = (case old of None \<Rightarrow> s | Some i \<Rightarrow> save_context i s)
      in s1\<lparr>cpu := ctx (g_procs s1 new)\<rparr>)"

section \<open>Operations\<close>

definition scheduler_init :: "'a sched_scheme \<Rightarrow> 'a sched_scheme" where
  "scheduler_init s = printk ''[SCHED] Scheduler initialized\<newline>'' [] s"

definition alloc_slot :: "'a sched_scheme \<Rightarrow> int" where
  "alloc_slot s = (case scan (\<lambda>i. proc_is s i PROC_UNUSED) 0 MAX_PROCESSES of
     Some i \<Rightarrow> int i | None \<Rightarrow> -1)"

definition fresh_context :: "u64 \<Rightarrow> u64 \<Rightarrow> u64 \<Rightarrow> u64 \<Rightarrow> process_context" where
  "fresh_context wrapper entry arg stack_top =
     \<lparr>rbx = entry, rbp = 0, r12 = arg, r13 = 0, r14 = 0, r15 = 0, rsp = stack_top, rip = wrapper\<rparr>"

definition process_create ::
    "u64 \<Rightarrow> u64 \<Rightarrow> u64 \<Rightarrow> 'a sched_scheme \<Rightarrow> (int \<times> 'a sched_scheme) option" where
  "process_create wrapper entry arg s =
     (let idx = alloc_slot s in
      if idx < 0 then Some (-1, printk ''[SCHED] ERROR: No free process slots\<newline>'' [] s)
      else do {
        (stk, s1) \<leftarrow> malloc STACK_SIZE s;
        if stk = 0 then Some (-1, printk ''[SCHED] ERROR: Failed to allocate stack\<newline>'' [] s1)
        else
          let i = nat idx;
              stack_top = (stk + STACK_SIZE) AND NOT 0xF;
              s2 = (set_proc i (\<lambda>p. p\<lparr>stack := stk, stack_size := STACK_SIZE, pid := g_next_pid s1,
                      state := PROC_READY, ctx := fresh_context wrapper entry arg stack_top\<rparr>) s1)
                   \<lparr>g_next_pid := g_next_pid s1 + 1\<rparr>
          in Some (idx, printk ''[SCHED] Created process PID=%d in slot %d\<newline>''
                          [VNum (pid (g_procs s2 i)), vint idx] s2)
      })"

text \<open>The loop of \<open>process_yield\<close>: the first ready slot at or after \<open>start\<close>, cyclically.\<close>

definition next_ready :: "nat \<Rightarrow> 'a sched_scheme \<Rightarrow> nat option" where
  "next_ready start s =
     map_option (\<lambda>i. (start + i) mod MAX_PROCESSES)
       (scan (\<lambda>i. proc_is s ((start + i) mod MAX_PROCESSES) PROC_READY) 0 MAX_PROCESSES)"

definition process_yield :: "'a sched_scheme \<Rightarrow> 'a sched_scheme" where
  "process_yield s =
     (if \<not> g_scheduler_started s then s
      else if g_current s < 0 then s
      else
        let cur = nat (g_current s);
            s1 = (if proc_is s cur PROC_RUNNING then set_proc cur (\<lambda>p. p\<lparr>state := PROC_READY\<rparr>) s else s);
            start = (cur + 1) mod MAX_PROCESSES
        in case next_ready start s1 of
             None \<Rightarrow> set_proc cur (\<lambda>p. p\<lparr>state := PROC_RUNNING\<rparr>) s1
           | Some nxt \<Rightarrow>
               if nxt = cur then set_proc cur (\<lambda>p. p\<lparr>state := PROC_RUNNING\<rparr>) s1
               else
                 let s2 = set_proc nxt (\<lambda>p. p\<lparr>state := PROC_RUNNING\<rparr>) (s1\<lparr>g_current := int nxt\<rparr>)
                 in context_switch_asm (Some cur) nxt s2)"

definition scheduler_tick :: "'a sched_scheme \<Rightarrow> 'a sched_scheme" where
  "scheduler_tick s = s"

definition get_current_pid :: "'a sched_scheme \<Rightarrow> u64" where
  "get_current_pid s =
     (if g_current s \<ge> 0 \<and> g_current s < int MAX_PROCESSES \<and>
         \<not> proc_is s (nat (g_current s)) PROC_UNUSED
      then pid (g_procs s (nat (g_current s))) else 0)"

text \<open>\<open>idle_process\<close> up to its endless loop of \<open>hlt\<close>.\<close>

definition idle_process :: "'a sched_scheme \<Rightarrow> 'a sched_scheme" where
  "idle_process s = printk ''\<newline>[IDLE] Idle process started (PID %d)\<newline>'' [VNum (get_current_pid s)] s"

definition report_ready :: "'a sched_scheme \<Rightarrow> 'a sched_scheme" where
  "report_ready s = fold (\<lambda>i t. if proc_is s i PROC_READY
     then printk ''[SCHED] Found process PID %d in slot %d\<newline>'' [VNum (pid (g_procs s i)), vnat i] t
     else t) [0..<MAX_PROCESSES] s"

definition ready_count :: "'a sched_scheme \<Rightarrow> nat" where
  "ready_count s = length (filter (\<lambda>i. proc_is s i PROC_READY) [0..<MAX_PROCESSES])"

text \<open>Entering the first process.\<close>

definition enter_first :: "nat \<Rightarrow> 'a sched_scheme \<Rightarrow> 'a sched_scheme" where
  "enter_first i s =
     (let s3 = (set_proc i (\<lambda>p. p\<lparr>state := PROC_RUNNING\<rparr>) (s\<lparr>g_current := int i\<rparr>))\<lparr>g_scheduler_started := True\<rparr>;
          s4 = printk ''[SCHED] Starting with PID %d\<newline>'' [VNum (pid (g_procs s3 i))] s3;
          s5 = printk ''[SCHED] Jumping to first process.. .\<newline>\<newline>'' [] s4
      in context_switch_asm None i s5)"

text \<open>The last \<open>printk\<close> of \<open>scheduler_start\<close> follows the switch, which does not come back.\<close>

definition scheduler_start :: "u64 \<Rightarrow> u64 \<Rightarrow> 'a sched_scheme \<Rightarrow> 'a sched_scheme option" where
  "scheduler_start wrapper idle s =
     (if g_scheduler_started s then Some s
      else
        let s1 = report_ready (printk ''[SCHED] Starting scheduler.. .\<newline>'' [] s)
        in do {
          s2 \<leftarrow> (if ready_count s1 = 0 then
                  map_option snd (process_create wrapper idle 0
                    (printk ''[SCHED] No processes ready, creating idle\<newline>'' [] s1))
                else Some s1);
          case scan (\<lambda>i. proc_is s2 i PROC_READY) 0 MAX_PROCESSES of
            None \<Rightarrow> Some (printk ''[SCHED] ERROR: No processes to run!\<newline>'' [] s2)
          | Some fst_ready \<Rightarrow> Some (enter_first fst_ready s2)
        })"

text \<open>The end of \<open>process_exit\<close>: the next process is entered.\<close>

definition switch_after_exit :: "nat \<Rightarrow> 'a sched_scheme \<Rightarrow> 'a sched_scheme" where
  "switch_after_exit nxt s =
     (let s1 = set_proc nxt (\<lambda>p. p\<lparr>state := PROC_RUNNING\<rparr>) (s\<lparr>g_current := int nxt\<rparr>);
          s2 = printk ''[SCHED] Switching to PID %d after exit\<newline>'' [VNum (pid (g_procs s1 nxt))] s1
      in context_switch_asm None nxt s2)"

definition clear_process :: "process \<Rightarrow> process" where
  "clear_process p = p\<lparr>state := PROC_UNUSED, pid := 0, stack := 0, stack_size := 0\<rparr>"

definition process_exit :: "u64 \<Rightarrow> u64 \<Rightarrow> 'a sched_scheme \<Rightarrow> 'a sched_scheme option" where
  "process_exit wrapper idle s =
     (if g_current s < 0 then Some s
      else
        let cur = nat (g_current s);
            s1 = printk ''[SCHED] Process %d exiting\<newline>'' [VNum (pid (g_procs s cur))] s
        in do {
          s2 \<leftarrow> (if stack (g_procs s1 cur) \<noteq> 0 then free (stack (g_procs s1 cur)) s1 else Some s1);
          let s3 = set_proc cur clear_process s2;
          case scan (\<lambda>i. (proc_is s3 i PROC_READY \<or> proc_is s3 i PROC_RUNNING) \<and> i \<noteq> cur)
                 0 MAX_PROCESSES of
            Some nxt \<Rightarrow> Some (switch_after_exit nxt s3)
          | None \<Rightarrow> do {
              (nxt, s4) \<leftarrow> process_create wrapper idle 0
                            (printk ''[SCHED] No processes left, creating idle\<newline>'' [] s3);
              if nxt < 0 then
                Some ((printk ''[SCHED] FATAL: Cannot create idle process!\<newline>'' [] s4)
                        \<lparr>g_scheduler_started := False, g_current := -1\<rparr>)
              else Some (switch_after_exit (nat nxt) s4)
            }
        })"

text \<open>\<open>run entry arg\<close> is the call of the process body.\<close>

definition process_wrapper ::
    "u64 \<Rightarrow> u64 \<Rightarrow> (u64 \<Rightarrow> u64 \<Rightarrow> 'a sched_scheme \<Rightarrow> 'a sched_scheme option) \<Rightarrow>
     'a sched_scheme \<Rightarrow> 'a sched_scheme option" where
  "process_wrapper wrapper idle run s =
     (if g_current s < 0 \<or> g_current s \<ge> int MAX_PROCESSES then Some s
      else
        let i = nat (g_current s); c = ctx (g_procs s i)
        in do {
          s1 \<leftarrow> run (rbx c) (r12 c) s;
          process_exit wrapper idle
            (printk ''[SCHED] Process %d finished\<newline>'' [VNum (pid (g_procs s1 i))] s1)
        })"

definition get_process_count :: "'a sched_scheme \<Rightarrow> nat" where
  "get_process_count s = length (filter (\<lambda>i. \<not> proc_is s i PROC_UNUSED) [0..<MAX_PROCESSES])"

definition get_process_pid :: "int \<Rightarrow> 'a sched_scheme \<Rightarrow> u64" where
  "get_process_pid index s =
     (if index \<ge> 0 \<and> index < int MAX_PROCESSES \<and> \<not> proc_is s (nat index) PROC_UNUSED
      then pid (g_procs s (nat index)) else 0)"

definition get_process_state :: "int \<Rightarrow> 'a sched_scheme \<Rightarrow> proc_state" where
  "get_process_state index s =
     (if index \<ge> 0 \<and> index < int MAX_PROCESSES then state (g_procs s (nat index)) else PROC_UNUSED)"

definition debug_print_processes :: "'a sched_scheme \<Rightarrow> 'a sched_scheme" where
  "debug_print_processes s =
     fold (\<lambda>i t. if \<not> proc_is s i PROC_UNUSED then
         let p = g_procs s i in
         printk ''  Slot %d: PID=%d, State=%d, Stack=0x%lx, RSP=0x%lx, RIP=0x%lx\<newline>''
           [vnat i, VNum (pid p), vnat (proc_state_num (state p)), VNum (stack p),
            VNum (rsp (ctx p)), VNum (rip (ctx p))] t
       else t) [0..<MAX_PROCESSES]
     (printk ''[SCHED] Process table (current=%d):\<newline>'' [vint (g_current s)] s)"

section \<open>Frame facts\<close>

named_theorems sched_frame \<open>what the helpers of the scheduler keep\<close>

lemma set_proc_simps [simp, sched_frame]:
  "g_procs (set_proc i f s) = (g_procs s)(i := f (g_procs s i))" "ram (set_proc i f s) = ram s"
  "g_current (set_proc i f s) = g_current s" "g_next_pid (set_proc i f s) = g_next_pid s"
  "g_scheduler_started (set_proc i f s) = g_scheduler_started s" "cpu (set_proc i f s) = cpu s"
  "same_globals s (set_proc i f s)"
  by (simp_all add: set_proc_def same_globals_def)

lemma log_keeps_sched [simp, sched_frame]:
  "g_procs (printk f as s) = g_procs s" "g_current (printk f as s) = g_current s"
  "g_next_pid (printk f as s) = g_next_pid s" "g_scheduler_started (printk f as s) = g_scheduler_started s"
  "cpu (printk f as s) = cpu s"
  by (simp_all add: printk_def)

lemma more_keeps_sched:
  assumes "kmem.more s' = kmem.more s"
  shows "g_procs s' = g_procs s" "g_current s' = g_current s" "g_next_pid s' = g_next_pid s"
    "g_scheduler_started s' = g_scheduler_started s" "cpu s' = cpu s"
  using assms by (cases s, cases s', simp)+

lemma context_switch_simps [simp, sched_frame]:
  "ram (context_switch_asm old new s) = ram s" "g_current (context_switch_asm old new s) = g_current s"
  "g_next_pid (context_switch_asm old new s) = g_next_pid s"
  "g_scheduler_started (context_switch_asm old new s) = g_scheduler_started s"
  "same_globals s (context_switch_asm old new s)"
  "g_procs (context_switch_asm None new s) = g_procs s"
  "state (g_procs (context_switch_asm old new s) j) = state (g_procs s j)"
  "pid (g_procs (context_switch_asm old new s) j) = pid (g_procs s j)"
  "stack (g_procs (context_switch_asm old new s) j) = stack (g_procs s j)"
  "stack_size (g_procs (context_switch_asm old new s) j) = stack_size (g_procs s j)"
  by (cases old; simp add: context_switch_asm_def save_context_def Let_def same_globals_def set_proc_def)+

lemma MAX_PROCESSES_8 [simp]: "MAX_PROCESSES = 8"
  by (simp add: MAX_PROCESSES_def)

section \<open>The process table\<close>

text \<open>The slots of the table: \<open>alloc_slot\<close> implements the slot contract.\<close>

interpretation procs: slot_table "\<lambda>s i. \<not> proc_is s i PROC_UNUSED" MAX_PROCESSES
  "\<lambda>s. if alloc_slot s < 0 then None else Some (nat (alloc_slot s))"
proof
  fix s :: "'a sched_scheme" and i
  assume "(if alloc_slot s < 0 then None else Some (nat (alloc_slot s))) = Some i"
  then have "scan (\<lambda>i. proc_is s i PROC_UNUSED) 0 8 = Some i"
    by (auto simp: alloc_slot_def split: option.splits if_splits)
  then show "i < MAX_PROCESSES \<and> \<not> \<not> proc_is s i PROC_UNUSED \<and> (\<forall>j < i. \<not> proc_is s j PROC_UNUSED)"
    by (simp add: scan_Some_iff)
next
  fix s :: "'a sched_scheme" and i
  assume "(if alloc_slot s < 0 then None else Some (nat (alloc_slot s))) = None" "i < MAX_PROCESSES"
  then show "\<not> proc_is s i PROC_UNUSED"
    by (auto simp: alloc_slot_def scan_None_iff split: option.splits if_splits)
qed

text \<open>While the scheduler runs, exactly the current process is running; pids are pairwise
  different and below \<open>g_next_pid\<close>.\<close>

definition current_ok :: "'a sched_scheme \<Rightarrow> bool" where
  "current_ok s \<longleftrightarrow>
     (if g_scheduler_started s
      then 0 \<le> g_current s \<and> g_current s < 8 \<and> (\<forall>i < 8. proc_is s i PROC_RUNNING \<longleftrightarrow> int i = g_current s)
      else g_current s = -1 \<and> (\<forall>i < 8. \<not> proc_is s i PROC_RUNNING))"

definition pids_ok :: "'a sched_scheme \<Rightarrow> bool" where
  "pids_ok s \<longleftrightarrow> 0 < g_next_pid s \<and>
     (\<forall>i < 8. \<not> proc_is s i PROC_UNUSED \<longrightarrow> 0 < pid (g_procs s i) \<and> pid (g_procs s i) < g_next_pid s) \<and>
     (\<forall>i < 8. \<forall>j < 8. i \<noteq> j \<longrightarrow> \<not> proc_is s i PROC_UNUSED \<longrightarrow> \<not> proc_is s j PROC_UNUSED \<longrightarrow>
        pid (g_procs s i) \<noteq> pid (g_procs s j))"

definition table_ok :: "'a sched_scheme \<Rightarrow> bool" where
  "table_ok s \<longleftrightarrow> current_ok s \<and> pids_ok s"

lemmas table_ok_defs = table_ok_def current_ok_def pids_ok_def

text \<open>Every process owns its stack.\<close>

definition stacks_ok :: "'a sched_scheme \<Rightarrow> (nat \<times> nat) set \<Rightarrow> bool" where
  "stacks_ok s L \<longleftrightarrow>
     (\<forall>i < 8. \<not> proc_is s i PROC_UNUSED \<longrightarrow> stack_size (g_procs s i) = STACK_SIZE \<and>
        (\<exists>k \<ge> 0x4000. (unat (stack (g_procs s i)), k) \<in> L)) \<and>
     (\<forall>i < 8. \<forall>j < 8. i \<noteq> j \<longrightarrow> \<not> proc_is s i PROC_UNUSED \<longrightarrow> \<not> proc_is s j PROC_UNUSED \<longrightarrow>
        stack (g_procs s i) \<noteq> stack (g_procs s j))"

definition sched_inv :: "'a sched_scheme \<Rightarrow> (nat \<times> nat) set \<Rightarrow> bool" where
  "sched_inv s L \<longleftrightarrow> heap_owns s L \<and> table_ok s \<and> stacks_ok s L"

text \<open>The invariant reads these parts of the state only.\<close>

lemma table_ok_cong:
  "table_ok s \<Longrightarrow> g_procs s' = g_procs s \<Longrightarrow> g_current s' = g_current s \<Longrightarrow>
   g_next_pid s' = g_next_pid s \<Longrightarrow> g_scheduler_started s' = g_scheduler_started s \<Longrightarrow> table_ok s'"
  by (simp add: table_ok_defs)

lemma stacks_ok_cong:
  "stacks_ok s L \<Longrightarrow> (\<And>i. i < 8 \<Longrightarrow> proc_is s' i PROC_UNUSED = proc_is s i PROC_UNUSED) \<Longrightarrow>
   (\<And>i. i < 8 \<Longrightarrow> stack (g_procs s' i) = stack (g_procs s i)) \<Longrightarrow>
   (\<And>i. i < 8 \<Longrightarrow> stack_size (g_procs s' i) = stack_size (g_procs s i)) \<Longrightarrow> stacks_ok s' L"
  by (simp add: stacks_ok_def)

lemma heap_owns_cong:
  fixes s s' :: "'a kmem_scheme"
  shows "heap_owns s L \<Longrightarrow> same_globals s s' \<Longrightarrow> ram s' = ram s \<Longrightarrow> heap_owns s' L"
  by (erule heap.owns_write) simp_all

lemma sched_inv_printk [simp]: "sched_inv s L \<Longrightarrow> sched_inv (printk f as s) L"
  unfolding sched_inv_def by (auto intro: heap.owns_log table_ok_cong stacks_ok_cong)

section \<open>process_yield\<close>

lemma next_ready_spec:
  assumes "next_ready st s = Some n"
  shows "\<exists>i < 8. n = (st + i) mod 8 \<and> proc_is s n PROC_READY \<and>
    (\<forall>j < i. \<not> proc_is s ((st + j) mod 8) PROC_READY)"
  using assms by (auto simp: next_ready_def scan_Some_iff)

lemma slot_after: "c < 8 \<Longrightarrow> j < (8 :: nat) \<Longrightarrow> \<exists>i < 8. j = ((c + 1) mod 8 + i) mod 8"
  by (rule exI [of _ "if c < j then j - (c + 1) else j + 7 - c"]) (auto simp: mod_simps)

lemma next_ready_ex:
  assumes "c < 8" "j < 8" "proc_is s j PROC_READY"
  shows "\<exists>n. next_ready ((c + 1) mod 8) s = Some n"
proof -
  obtain i where "i < 8" "j = ((c + 1) mod 8 + i) mod 8" using slot_after assms(1,2) by blast
  then show ?thesis
    using scan_ex [of 0 i 8 "\<lambda>i. proc_is s (((c + 1) mod 8 + i) mod 8) PROC_READY"] assms(3)
    by (auto simp: next_ready_def)
qed

text \<open>What a yield does to a running system: the process stays, or the next one is entered.\<close>

lemma process_yield_cases:
  assumes ok: "table_ok s" and st: "g_scheduler_started s"
  defines "cur \<equiv> nat (g_current s)"
  defines "s1 \<equiv> set_proc cur (\<lambda>p. p\<lparr>state := PROC_READY\<rparr>) s"
  obtains (stay) "next_ready ((cur + 1) mod 8) s1 = Some cur" "process_yield s = s"
  | (switch) nxt where "next_ready ((cur + 1) mod 8) s1 = Some nxt" "nxt \<noteq> cur" "nxt < 8"
      "proc_is s nxt PROC_READY"
      "process_yield s = context_switch_asm (Some cur) nxt
         (set_proc nxt (\<lambda>p. p\<lparr>state := PROC_RUNNING\<rparr>) (s1\<lparr>g_current := int nxt\<rparr>))"
proof -
  have c: "cur < 8" "0 \<le> g_current s" "proc_is s cur PROC_RUNNING"
    using ok st by (auto simp: table_ok_defs cur_def)
  obtain n where n: "next_ready ((cur + 1) mod 8) s1 = Some n"
    using next_ready_ex [of cur cur s1] c(1) by (auto simp: s1_def)
  show thesis
  proof (cases "n = cur")
    case True
    have "(g_procs s cur)\<lparr>state := PROC_RUNNING\<rparr> = g_procs s cur" using c(3) by simp
    then have "set_proc cur (\<lambda>p. p\<lparr>state := PROC_RUNNING\<rparr>) s1 = s"
      by (simp add: s1_def set_proc_def)
    then show thesis using n True c st by (intro stay) (auto simp: process_yield_def Let_def cur_def s1_def)
  next
    case False
    note sp = next_ready_spec [OF n]
    show thesis
    proof (rule switch [OF n False])
      show "n < 8" "proc_is s n PROC_READY" using sp False by (auto simp: s1_def)
      show "process_yield s = context_switch_asm (Some cur) n
         (set_proc n (\<lambda>p. p\<lparr>state := PROC_RUNNING\<rparr>) (s1\<lparr>g_current := int n\<rparr>))"
        using n False c st by (auto simp: process_yield_def Let_def cur_def s1_def)
    qed
  qed
qed

lemma process_yield_idle: "\<not> g_scheduler_started s \<Longrightarrow> process_yield s = s"
  by (simp add: process_yield_def)

lemma yield_table: "table_ok s \<Longrightarrow> g_scheduler_started s \<Longrightarrow> table_ok (process_yield s)"
proof -
  assume ok: "table_ok s" and st: "g_scheduler_started s"
  define cur where "cur = nat (g_current s)"
  from ok st show ?thesis
  proof (cases rule: process_yield_cases)
    case (switch nxt)
    have c: "cur < 8" "g_current s = int cur" "proc_is s cur PROC_RUNNING"
      using ok st by (auto simp: table_ok_defs cur_def)
    let ?t = "process_yield s"
    have g: "g_current ?t = int nxt" "g_scheduler_started ?t" "g_next_pid ?t = g_next_pid s"
      "\<And>j. state (g_procs ?t j) = (if j = nxt then PROC_RUNNING else if j = cur then PROC_READY else state (g_procs s j))"
      "\<And>j. pid (g_procs ?t j) = pid (g_procs s j)"
      using switch(2) st by (simp_all add: switch(5) cur_def)
    show ?thesis
      using ok st switch(2,3,4) c g(2) unfolding table_ok_defs g
      by (auto simp: cur_def [symmetric] split: if_splits)
  qed (use ok in simp)
qed

lemma process_yield_inv:
  assumes inv: "sched_inv s L"
  shows "sched_inv (process_yield s) L"
proof (cases "g_scheduler_started s")
  case True
  have ok: "table_ok s" using inv by (simp add: sched_inv_def)
  from ok True show ?thesis
  proof (cases rule: process_yield_cases)
    case stay
    then show ?thesis using inv by simp
  next
    case (switch nxt)
    let ?t = "process_yield s"
    have cr: "proc_is s (nat (g_current s)) PROC_RUNNING" using ok True by (auto simp: table_ok_defs)
    have "stacks_ok ?t L"
      by (rule stacks_ok_cong [of s]) (use inv switch(4) cr in \<open>auto simp: sched_inv_def switch(5)\<close>)
    moreover have "same_globals s ?t" "ram ?t = ram s"
      by (simp_all add: switch(5) same_globals_def context_switch_asm_def save_context_def set_proc_def Let_def)
    ultimately show ?thesis
      using inv heap_owns_cong [of s L ?t] yield_table [OF ok True] by (simp add: sched_inv_def)
  qed
next
  case False
  then show ?thesis using inv by (simp add: process_yield_idle)
qed

text \<open>Fairness: the distance from the current slot to a ready slot shrinks with every yield.\<close>

definition dist :: "nat \<Rightarrow> nat \<Rightarrow> nat" where
  "dist c j = (if c < j then j - (c + 1) else j + 7 - c)"

lemma slot_at_dist: "c < 8 \<Longrightarrow> j < 8 \<Longrightarrow> ((c + 1) mod 8 + dist c j) mod 8 = j"
  by (auto simp: dist_def mod_simps)

lemma dist_step:
  assumes "c < 8" "j < 8" "i < dist c j" "n = ((c + 1) mod 8 + i) mod 8"
  shows "dist n j < dist c j" "n < 8"
proof -
  have n: "n = (c + 1 + i) mod 8" using assms(4) by (simp add: mod_simps)
  have "c + 1 + i < 16" using assms(1-3) by (auto simp: dist_def split: if_splits)
  then have "n = (if c + 1 + i < 8 then c + 1 + i else c + 1 + i - 8)"
    using n le_mod_geq [of 8 "c + 1 + i"] by simp
  then show "dist n j < dist c j" using assms(1-3) by (auto simp: dist_def split: if_splits)
  show "n < 8" using n by simp
qed

lemma yield_progress:
  assumes ok: "table_ok s" and st: "g_scheduler_started s" and j: "j < 8" "proc_is s j PROC_READY"
  shows "g_scheduler_started (process_yield s)"
    "g_current (process_yield s) = int j \<or>
     (proc_is (process_yield s) j PROC_READY \<and>
      dist (nat (g_current (process_yield s))) j < dist (nat (g_current s)) j)"
proof -
  define cur where "cur = nat (g_current s)"
  have c: "cur < 8" "proc_is s cur PROC_RUNNING" using ok st by (auto simp: table_ok_defs cur_def)
  have jc: "j \<noteq> cur" using j(2) c(2) by auto
  let ?s1 = "set_proc cur (\<lambda>p. p\<lparr>state := PROC_READY\<rparr>) s"
  have near: "i \<le> dist cur j \<and> (i = dist cur j \<longrightarrow> n = j)"
    if i: "i < 8" "n = ((cur + 1) mod 8 + i) mod 8" "\<forall>k < i. \<not> proc_is ?s1 (((cur + 1) mod 8 + k) mod 8) PROC_READY" for i n
  proof -
    have "proc_is ?s1 (((cur + 1) mod 8 + dist cur j) mod 8) PROC_READY"
      using j jc c(1) slot_at_dist by simp
    then have "\<not> dist cur j < i" using i(3) by blast
    then show ?thesis using i(2) slot_at_dist c(1) j(1) by auto
  qed
  from ok st show "g_scheduler_started (process_yield s)"
    by (cases rule: process_yield_cases) (simp_all add: st)
  from ok st show "g_current (process_yield s) = int j \<or> (proc_is (process_yield s) j PROC_READY \<and>
      dist (nat (g_current (process_yield s))) j < dist (nat (g_current s)) j)"
  proof (cases rule: process_yield_cases)
    case stay
    from next_ready_spec [OF stay(1), folded cur_def]
    obtain i where i: "i < 8" "cur = ((cur + 1) mod 8 + i) mod 8"
      "\<forall>k < i. \<not> proc_is ?s1 (((cur + 1) mod 8 + k) mod 8) PROC_READY" by blast
    have "i < dist cur j" using near [OF i] jc by auto
    then show ?thesis using dist_step(1) [OF c(1) j(1) _ i(2)] by simp
  next
    case (switch nxt)
    from next_ready_spec [OF switch(1), folded cur_def]
    obtain i where i: "i < 8" "nxt = ((cur + 1) mod 8 + i) mod 8"
      "\<forall>k < i. \<not> proc_is ?s1 (((cur + 1) mod 8 + k) mod 8) PROC_READY" by blast
    show ?thesis
    proof (cases "nxt = j")
      case False
      then have "i < dist cur j" using near [OF i] by auto
      then have "dist nxt j < dist cur j" by (rule dist_step(1) [OF c(1) j(1) _ i(2)])
      then show ?thesis using False jc j(2) by (simp add: switch(5) cur_def [symmetric])
    qed (simp add: switch(5))
  qed
qed

lemma yield_reaches:
  "table_ok s \<Longrightarrow> g_scheduler_started s \<Longrightarrow> j < 8 \<Longrightarrow> proc_is s j PROC_READY \<Longrightarrow>
   \<exists>k \<le> Suc (dist (nat (g_current s)) j). g_current ((process_yield ^^ k) s) = int j"
proof (induction "dist (nat (g_current s)) j" arbitrary: s rule: less_induct)
  case less
  note yp = yield_progress [OF less.prems]
  show ?case
  proof (cases "g_current (process_yield s) = int j")
    case True
    then show ?thesis by (intro exI [of _ 1]) simp
  next
    case False
    then have ready: "proc_is (process_yield s) j PROC_READY"
      and d: "dist (nat (g_current (process_yield s))) j < dist (nat (g_current s)) j" using yp(2) by auto
    from less.hyps [OF d yield_table [OF less.prems(1,2)] yp(1) less.prems(3) ready]
    obtain k where "k \<le> Suc (dist (nat (g_current (process_yield s))) j)"
      "g_current ((process_yield ^^ k) (process_yield s)) = int j" by blast
    then show ?thesis using d by (intro exI [of _ "Suc k"]) (simp add: funpow_swap1)
  qed
qed

section \<open>process_create\<close>

text \<open>The part of the invariant that does not speak about the current process.\<close>

definition procs_ok :: "'a sched_scheme \<Rightarrow> (nat \<times> nat) set \<Rightarrow> bool" where
  "procs_ok s L \<longleftrightarrow> heap_owns s L \<and> pids_ok s \<and> stacks_ok s L"

lemma sched_inv_split: "sched_inv s L \<longleftrightarrow> procs_ok s L \<and> current_ok s"
  by (auto simp: sched_inv_def procs_ok_def table_ok_def)

lemma procs_ok_cong:
  fixes s s' :: "'a sched_scheme"
  assumes "procs_ok s L" "heap_owns s' L" "g_next_pid s' = g_next_pid s"
    "\<And>i. i < 8 \<Longrightarrow> proc_is s' i PROC_UNUSED = proc_is s i PROC_UNUSED"
    "\<And>i. i < 8 \<Longrightarrow> pid (g_procs s' i) = pid (g_procs s i)"
    "\<And>i. i < 8 \<Longrightarrow> stack (g_procs s' i) = stack (g_procs s i)"
    "\<And>i. i < 8 \<Longrightarrow> stack_size (g_procs s' i) = stack_size (g_procs s i)"
  shows "procs_ok s' L"
  using assms by (simp add: procs_ok_def pids_ok_def stacks_ok_def)

definition fresh_process :: "u64 \<Rightarrow> u64 \<Rightarrow> u64 \<Rightarrow> u64 \<Rightarrow> u64 \<Rightarrow> process" where
  "fresh_process wrapper entry arg stk n = \<lparr>pid = n, state = PROC_READY,
     ctx = fresh_context wrapper entry arg ((stk + STACK_SIZE) AND NOT 0xF),
     stack = stk, stack_size = STACK_SIZE\<rparr>"

lemma fresh_process_update:
  "p\<lparr>stack := stk, stack_size := STACK_SIZE, pid := n, state := PROC_READY,
     ctx := fresh_context w e a ((stk + STACK_SIZE) AND NOT 0xF)\<rparr> = fresh_process w e a stk n"
  by (simp add: fresh_process_def)

lemma unat_pid_succ: "n \<noteq> (-1 :: u64) \<Longrightarrow> unat (n + 1) = unat n + 1"
proof -
  assume "n \<noteq> -1"
  then have "unat n \<noteq> unat (-1 :: u64)" using word_unat_eq_iff by blast
  then have "unat n + 1 < 2 ^ 64"
    using unat_64 [of n] by (simp add: unsigned_minus_1_eq_mask mask_eq_exp_minus_1)
  then show ?thesis by (intro trans [OF unat_plus]) simp_all
qed

lemma pid_succ: "n \<noteq> (-1 :: u64) \<Longrightarrow> n < n + 1 \<and> (x < n \<longrightarrow> x < n + 1) \<and> 0 < n + 1"
  using unat_pid_succ [of n] by (simp add: word_less_nat_alt)

lemma stack_in_use:
  assumes "procs_ok s L" "i < 8" "\<not> proc_is s i PROC_UNUSED"
  shows "\<exists>k \<ge> 0x4000. (unat (stack (g_procs s i)), k) \<in> L"
  using assms by (simp add: procs_ok_def stacks_ok_def)

lemma process_create_cases:
  assumes ok: "procs_ok s L" and np: "g_next_pid s \<noteq> -1"
  obtains (fail) s' where "process_create w e a s = Some (-1, s')" "procs_ok s' L"
      "kmem.more s' = kmem.more s"
  | (created) i stk k s' where "process_create w e a s = Some (int i, s')" "i < 8" "proc_is s i PROC_UNUSED"
      "alloc_slot s = int i" "stk \<noteq> 0" "k \<ge> 0x4000" "(unat stk, k) \<notin> L" "procs_ok s' (insert (unat stk, k) L)"
      "g_procs s' = (g_procs s)(i := fresh_process w e a stk (g_next_pid s))"
      "g_current s' = g_current s" "g_scheduler_started s' = g_scheduler_started s"
      "g_next_pid s' = g_next_pid s + 1" "cpu s' = cpu s"
proof (cases "alloc_slot s < 0")
  case True
  show thesis
    by (rule fail [of "printk ''[SCHED] ERROR: No free process slots\<newline>'' [] s"])
       (use True ok in \<open>auto simp: process_create_def procs_ok_def pids_ok_def intro: heap.owns_log stacks_ok_cong\<close>)
next
  case False
  define i where "i = nat (alloc_slot s)"
  have i: "i < 8" "proc_is s i PROC_UNUSED" "alloc_slot s = int i"
    using procs.found [of s i] False by (auto simp: i_def)
  have own: "heap_owns s L" using ok by (simp add: procs_ok_def)
  obtain stk s1 where m: "malloc STACK_SIZE s = Some (stk, s1)" using heap.alloc_total [OF own] by blast
  have more: "kmem.more s1 = kmem.more s" using heap.alloc_keeps [OF own m] by blast
  note same = more_keeps_sched [OF more]
  show thesis
  proof (cases "stk = 0")
    case True
    have "heap_owns s1 L" using heap.alloc_fail [OF own] m True by blast
    then have "procs_ok s1 L" by (intro procs_ok_cong [OF ok]) (simp_all add: same)
    then show thesis
      using m True False more same
      by (intro fail [of "printk ''[SCHED] ERROR: Failed to allocate stack\<newline>'' [] s1"])
         (auto simp: process_create_def Let_def procs_ok_def pids_ok_def intro: heap.owns_log stacks_ok_cong)
  next
    case nz: False
    obtain k where k: "unat STACK_SIZE \<le> k" "heap_owns s1 (insert (unat stk, k) L)" "(unat stk, k) \<notin> L"
      using heap.alloc_ok [OF own m nz] by blast
    have k': "0x4000 \<le> k" using k(1) by (simp add: STACK_SIZE_def)
    define s' where "s' = printk ''[SCHED] Created process PID=%d in slot %d\<newline>''
      [VNum (g_next_pid s), vint (int i)] ((s1\<lparr>g_procs := (g_procs s)(i := fresh_process w e a stk (g_next_pid s))\<rparr>)
        \<lparr>g_next_pid := g_next_pid s + 1\<rparr>)"
    have s': "process_create w e a s = Some (int i, s')"
      using m nz i(3) False same
      by (simp add: process_create_def Let_def s'_def set_proc_def fresh_process_update [simplified])
    have g: "g_procs s' = (g_procs s)(i := fresh_process w e a stk (g_next_pid s))" "g_next_pid s' = g_next_pid s + 1"
      "g_current s' = g_current s" "g_scheduler_started s' = g_scheduler_started s" "cpu s' = cpu s"
      by (simp_all add: s'_def same)
    have fp: "state (fresh_process w e a stk n) = PROC_READY" "pid (fresh_process w e a stk n) = n"
      "stack (fresh_process w e a stk n) = stk" "stack_size (fresh_process w e a stk n) = STACK_SIZE" for n
      by (simp_all add: fresh_process_def)
    have other: "stack (g_procs s j) \<noteq> stk" if j: "j < 8" "\<not> proc_is s j PROC_UNUSED" for j
    proof
      assume eq: "stack (g_procs s j) = stk"
      obtain n where n: "0x4000 \<le> n" "(unat stk, n) \<in> L" using stack_in_use [OF ok j] eq by auto
      then have "{unat stk ..< unat stk + k} \<inter> {unat stk ..< unat stk + n} = {}"
        using heap.owns_disjoint [OF k(2), of "unat stk" k "unat stk" n] k(3) by auto
      then show False using n(1) k' by simp
    qed
    have "heap_owns s' (insert (unat stk, k) L)"
      by (rule heap_owns_cong [OF k(2)]) (simp_all add: s'_def same_globals_def)
    moreover have "pids_ok s'"
      using ok pid_succ [OF np] unfolding procs_ok_def pids_ok_def g
      by (auto simp: fp split: if_splits)
    moreover have "stacks_ok s' (insert (unat stk, k) L)"
      using ok k' other unfolding procs_ok_def stacks_ok_def g
      by (auto simp: fp split: if_splits)
    ultimately have "procs_ok s' (insert (unat stk, k) L)" by (simp add: procs_ok_def)
    then show thesis using created [OF s' i nz k' k(3)] g by blast
  qed
qed

lemma process_create_inv:
  assumes inv: "sched_inv s L" and np: "g_next_pid s \<noteq> -1"
  shows "\<exists>r s' L'. process_create w e a s = Some (r, s') \<and> sched_inv s' L'"
proof -
  have ok: "procs_ok s L" "current_ok s" using inv by (simp_all add: sched_inv_split)
  from ok(1) np show ?thesis
  proof (cases rule: process_create_cases [where w = w and e = e and a = a])
    case (fail s')
    then show ?thesis using ok(2) more_keeps_sched [OF fail(3)]
      by (auto simp: sched_inv_split current_ok_def)
  next
    case (created i stk k s')
    have "current_ok s'"
      using ok(2) created(2,3) unfolding current_ok_def created(9-11)
      by (auto simp: fresh_process_def split: if_splits)
    then show ?thesis using created(1,8) by (auto simp: sched_inv_split)
  qed
qed

section \<open>process_exit\<close>

lemma switch_after_exit_facts:
  "g_procs (switch_after_exit n s) = (g_procs s)(n := (g_procs s n)\<lparr>state := PROC_RUNNING\<rparr>)"
  "g_current (switch_after_exit n s) = int n" "ram (switch_after_exit n s) = ram s"
  "g_scheduler_started (switch_after_exit n s) = g_scheduler_started s"
  "g_next_pid (switch_after_exit n s) = g_next_pid s" "same_globals s (switch_after_exit n s)"
  "cpu (switch_after_exit n s) = ctx (g_procs s n)"
  by (simp_all add: switch_after_exit_def Let_def context_switch_asm_def same_globals_def set_proc_def)

lemma switch_after_exit_inv:
  assumes ok: "procs_ok s L" and st: "g_scheduler_started s" and n: "n < 8" "\<not> proc_is s n PROC_UNUSED"
    and none: "\<forall>i < 8. i \<noteq> n \<longrightarrow> \<not> proc_is s i PROC_RUNNING"
  shows "sched_inv (switch_after_exit n s) L"
proof -
  note f = switch_after_exit_facts [where n = n and s = s]
  have "heap_owns (switch_after_exit n s) L"
    using ok f heap_owns_cong [of s L "switch_after_exit n s"] by (simp add: procs_ok_def)
  then have "procs_ok (switch_after_exit n s) L"
    by (intro procs_ok_cong [OF ok]) (use n in \<open>auto simp: f\<close>)
  moreover have "current_ok (switch_after_exit n s)"
    using st n none by (auto simp: current_ok_def f)
  ultimately show ?thesis by (simp add: sched_inv_split)
qed

text \<open>The first half of \<open>process_exit\<close>: the stack goes back to the heap and the slot is cleared.\<close>

lemma exit_release:
  assumes inv: "sched_inv s L" and st: "g_scheduler_started s"
  defines "cur \<equiv> nat (g_current s)"
  defines "s1 \<equiv> printk ''[SCHED] Process %d exiting\<newline>'' [VNum (pid (g_procs s cur))] s"
  obtains s2 k where "free (stack (g_procs s cur)) s1 = Some s2" "stack (g_procs s cur) \<noteq> 0"
    "(unat (stack (g_procs s cur)), k) \<in> L" "kmem.more s2 = kmem.more s"
    "procs_ok (set_proc cur clear_process s2) (L - {(unat (stack (g_procs s cur)), k)})"
proof -
  let ?p = "stack (g_procs s cur)"
  have ok: "procs_ok s L" and own: "heap_owns s1 L" and cur: "cur < 8" "proc_is s cur PROC_RUNNING"
    using inv st by (auto simp: sched_inv_split procs_ok_def current_ok_def cur_def s1_def intro: heap.owns_log)
  obtain k where k: "0x4000 \<le> k" "(unat ?p, k) \<in> L" using stack_in_use [OF ok cur(1)] cur(2) by auto
  have p0: "?p \<noteq> 0" using heap.owns_bounds [OF own k(2)] by auto
  obtain s2 where s2: "free ?p s1 = Some s2" "heap_owns s2 (L - {(unat ?p, k)})" "kmem.more s2 = kmem.more s1"
    using heap.dealloc_ok [OF own k(2)] by blast
  have more: "kmem.more s2 = kmem.more s" using s2(3) by (simp add: s1_def)
  note same = more_keeps_sched [OF more]
  let ?s3 = "set_proc cur clear_process s2"
  have owns3: "heap_owns ?s3 (L - {(unat ?p, k)})" by (rule heap_owns_cong [OF s2(2)]) simp_all
  have g: "g_procs ?s3 = (g_procs s)(cur := clear_process (g_procs s cur))" "g_next_pid ?s3 = g_next_pid s"
    by (simp_all add: same)
  have cl: "state (clear_process p) = PROC_UNUSED" for p by (simp add: clear_process_def)
  have pids: "pids_ok ?s3" using ok unfolding procs_ok_def pids_ok_def g by (auto simp: cl)
  have "stack (g_procs s i) \<noteq> ?p" if "i < 8" "i \<noteq> cur" "\<not> proc_is s i PROC_UNUSED" for i
    using ok that cur unfolding procs_ok_def stacks_ok_def by auto
  then have stk: "stacks_ok ?s3 (L - {(unat ?p, k)})"
    using ok unfolding procs_ok_def stacks_ok_def g by (auto simp: cl word_unat_eq_iff)
  show thesis
    by (rule that [OF s2(1) p0 k(2) more]) (use owns3 pids stk in \<open>simp add: procs_ok_def\<close>)
qed

text \<open>How \<open>process_exit\<close> leaves a running system: in the next ready process, in a new idle process,
  or, when that cannot be created, with the scheduler stopped. It is well-formed in each case.\<close>

lemma process_exit_cases:
  assumes inv: "sched_inv s L" and np: "g_next_pid s \<noteq> -1" and st: "g_scheduler_started s"
  defines "cur \<equiv> nat (g_current s)"
  defines "stk \<equiv> unat (stack (g_procs s cur))"
  obtains (switch) n s' k where "process_exit w idle s = Some s'" "(stk, k) \<in> L" "sched_inv s' (L - {(stk, k)})"
      "n < 8" "n \<noteq> cur" "proc_is s n PROC_READY" "g_current s' = int n" "g_scheduler_started s'"
      "g_procs s' = (g_procs s)(cur := clear_process (g_procs s cur), n := (g_procs s n)\<lparr>state := PROC_RUNNING\<rparr>)"
      "g_next_pid s' = g_next_pid s" "cpu s' = ctx (g_procs s n)"
  | (idles) n s' k x where "process_exit w idle s = Some s'" "(stk, k) \<in> L" "sched_inv s' (insert x (L - {(stk, k)}))"
      "\<forall>i < 8. i \<noteq> cur \<longrightarrow> \<not> proc_is s i PROC_READY" "n < 8" "n = cur \<or> proc_is s n PROC_UNUSED"
      "g_current s' = int n" "g_scheduler_started s'" "rbx (cpu s') = idle"
      "\<forall>i. i \<noteq> n \<longrightarrow> g_procs s' i = ((g_procs s)(cur := clear_process (g_procs s cur))) i"
  | (stops) s' k where "process_exit w idle s = Some s'" "(stk, k) \<in> L" "sched_inv s' (L - {(stk, k)})"
      "\<forall>i < 8. i \<noteq> cur \<longrightarrow> \<not> proc_is s i PROC_READY" "g_current s' = -1"
      "g_procs s' = (g_procs s)(cur := clear_process (g_procs s cur))"
proof -
  obtain s2 k where s2: "free (stack (g_procs s cur)) (printk ''[SCHED] Process %d exiting\<newline>''
      [VNum (pid (g_procs s cur))] s) = Some s2" "stack (g_procs s cur) \<noteq> 0" "kmem.more s2 = kmem.more s"
    and kL: "(stk, k) \<in> L" and ok3: "procs_ok (set_proc cur clear_process s2) (L - {(stk, k)})"
    unfolding stk_def cur_def using exit_release [OF inv st] by metis
  define s3 where "s3 = set_proc cur clear_process s2"
  note same = more_keeps_sched [OF s2(3)]
  have g3: "g_procs s3 = (g_procs s)(cur := clear_process (g_procs s cur))" "g_scheduler_started s3" "g_next_pid s3 = g_next_pid s"
    by (simp_all add: s3_def same st)
  have c: "0 \<le> g_current s" "cur < 8" and run: "\<forall>i < 8. proc_is s i PROC_RUNNING \<longleftrightarrow> i = cur"
    using inv st by (auto simp: sched_inv_split current_ok_def cur_def)
  have none3: "\<forall>i < 8. \<not> proc_is s3 i PROC_RUNNING" using run by (auto simp: g3 clear_process_def)
  let ?find = "scan (\<lambda>i. (proc_is s3 i PROC_READY \<or> proc_is s3 i PROC_RUNNING) \<and> i \<noteq> cur) 0 8"
  have pe: "process_exit w idle s = (case ?find of Some nxt \<Rightarrow> Some (switch_after_exit nxt s3)
      | None \<Rightarrow> do { (nxt, s4) \<leftarrow> process_create w idle 0
                       (printk ''[SCHED] No processes left, creating idle\<newline>'' [] s3);
              if nxt < 0 then Some ((printk ''[SCHED] FATAL: Cannot create idle process!\<newline>'' [] s4)
                        \<lparr>g_scheduler_started := False, g_current := -1\<rparr>)
              else Some (switch_after_exit (nat nxt) s4) })"
    unfolding s3_def using c(1) s2(1,2) by (simp add: process_exit_def cur_def [symmetric] Let_def)
  note f = switch_after_exit_facts
  show thesis
  proof (cases ?find)
    case (Some n)
    then have n: "n < 8" "n \<noteq> cur" "proc_is s3 n PROC_READY" using none3 by (auto simp: scan_Some_iff)
    have "sched_inv (switch_after_exit n s3) (L - {(stk, k)})"
      by (rule switch_after_exit_inv [OF ok3 [folded s3_def] g3(2)]) (use n none3 in auto)
    moreover have "process_exit w idle s = Some (switch_after_exit n s3)" using pe Some by simp
    ultimately show thesis using n kL by (intro switch [of "switch_after_exit n s3" k n]) (simp_all add: f g3)
  next
    case None
    have nr: "\<forall>i < 8. i \<noteq> cur \<longrightarrow> \<not> proc_is s i PROC_READY" using None by (auto simp: scan_None_iff g3)
    let ?s3 = "printk ''[SCHED] No processes left, creating idle\<newline>'' [] s3"
    have ok3': "procs_ok ?s3 (L - {(stk, k)})"
      by (rule procs_ok_cong [OF ok3 [folded s3_def]])
         (use ok3 in \<open>auto simp: procs_ok_def s3_def intro: heap.owns_log\<close>)
    have np3: "g_next_pid ?s3 \<noteq> -1" using np g3(3) by simp
    from ok3' np3 show thesis
    proof (cases rule: process_create_cases [where w = w and e = idle and a = 0])
      case (fail s4)
      let ?t = "(printk ''[SCHED] FATAL: Cannot create idle process!\<newline>'' [] s4)\<lparr>g_scheduler_started := False, g_current := -1\<rparr>"
      note m4 = more_keeps_sched [OF fail(3)]
      have "heap_owns s4 (L - {(stk, k)})" using fail(2) by (simp add: procs_ok_def)
      then have "heap_owns ?t (L - {(stk, k)})"
        by (rule heap_owns_cong) (simp_all add: same_globals_def)
      then have "procs_ok ?t (L - {(stk, k)})"
        by (intro procs_ok_cong [OF fail(2)]) simp_all
      moreover have "current_ok ?t" using none3 by (simp add: current_ok_def m4)
      moreover have "process_exit w idle s = Some ?t" using pe None fail(1) by simp
      ultimately show thesis using kL nr by (intro stops [of ?t k]) (simp_all add: sched_inv_split m4 g3)
    next
      case (created i stk' j s4)
      have "sched_inv (switch_after_exit i s4) (insert (unat stk', j) (L - {(stk, k)}))"
        by (rule switch_after_exit_inv [OF created(8)])
           (use created(2,9,11) g3(2) none3 in \<open>auto simp: fresh_process_def\<close>)
      moreover have "process_exit w idle s = Some (switch_after_exit i s4)" using pe None created(1) by simp
      moreover have "i = cur \<or> proc_is s i PROC_UNUSED" using created(3) by (auto simp: g3 split: if_splits)
      ultimately show thesis using kL nr created(2,9,11) g3(1,2)
        by (intro idles [of "switch_after_exit i s4" k "(unat stk', j)" i]) (simp_all add: f fresh_process_def fresh_context_def)
    qed
  qed
qed

lemma process_exit_running:
  assumes inv: "sched_inv s L" and np: "g_next_pid s \<noteq> -1" and st: "g_scheduler_started s"
  defines "stk \<equiv> unat (stack (g_procs s (nat (g_current s))))"
  shows "\<exists>s' L' k. process_exit w idle s = Some s' \<and> sched_inv s' L' \<and> (stk, k) \<in> L \<and>
    (L' = L - {(stk, k)} \<or> (\<exists>x. L' = insert x (L - {(stk, k)})))"
  unfolding stk_def by (rule process_exit_cases [OF inv np st, where w = w and idle = idle]) blast+

lemma process_exit_inv:
  assumes inv: "sched_inv s L" and np: "g_next_pid s \<noteq> -1"
  shows "\<exists>s' L'. process_exit w idle s = Some s' \<and> sched_inv s' L'"
proof (cases "g_scheduler_started s")
  case False
  then show ?thesis using inv by (auto simp: process_exit_def sched_inv_split current_ok_def)
next
  case True
  then show ?thesis using process_exit_running [OF inv np] by blast
qed

section \<open>scheduler_start\<close>

lemma report_ready_keeps:
  "procs_ok s L \<Longrightarrow> procs_ok (report_ready s) L \<and> g_procs (report_ready s) = g_procs s \<and>
     g_current (report_ready s) = g_current s \<and> g_next_pid (report_ready s) = g_next_pid s \<and>
     g_scheduler_started (report_ready s) = g_scheduler_started s"
  unfolding report_ready_def
  by (rule fold_invariant) (auto simp: procs_ok_def pids_ok_def intro: heap.owns_log stacks_ok_cong)

lemma enter_first_inv:
  assumes ok: "procs_ok s L" and none: "\<forall>j < 8. \<not> proc_is s j PROC_RUNNING"
    and i: "i < 8" "proc_is s i PROC_READY"
  shows "sched_inv (enter_first i s) L" "g_scheduler_started (enter_first i s)" "g_current (enter_first i s) = int i"
    "cpu (enter_first i s) = ctx (g_procs s i)"
proof -
  let ?t = "enter_first i s"
  have f: "g_procs ?t = (g_procs s)(i := (g_procs s i)\<lparr>state := PROC_RUNNING\<rparr>)" "g_current ?t = int i"
    "g_scheduler_started ?t" "g_next_pid ?t = g_next_pid s" "same_globals s ?t" "ram ?t = ram s"
    "cpu ?t = ctx (g_procs s i)"
    by (simp_all add: enter_first_def Let_def same_globals_def context_switch_asm_def set_proc_def)
  have "heap_owns ?t L" using ok f heap_owns_cong [of s L ?t] by (simp add: procs_ok_def)
  then have "procs_ok ?t L" by (intro procs_ok_cong [OF ok]) (use i in \<open>auto simp: f\<close>)
  moreover have "current_ok ?t" using i none f(3) by (auto simp: current_ok_def f)
  ultimately show "sched_inv ?t L" by (simp add: sched_inv_split)
  show "g_scheduler_started ?t" "g_current ?t = int i" "cpu ?t = ctx (g_procs s i)" by (simp_all add: f)
qed

lemma scheduler_start_inv:
  assumes inv: "sched_inv s L" and np: "g_next_pid s \<noteq> -1"
  shows "\<exists>s' L'. scheduler_start w idle s = Some s' \<and> sched_inv s' L'"
proof (cases "g_scheduler_started s")
  case True
  then show ?thesis using inv by (auto simp: scheduler_start_def)
next
  case False
  define s1 where "s1 = report_ready (printk ''[SCHED] Starting scheduler.. .\<newline>'' [] s)"
  have ok0: "procs_ok (printk ''[SCHED] Starting scheduler.. .\<newline>'' [] s) L" and cur: "current_ok s"
    using sched_inv_printk [OF inv] inv by (simp_all add: sched_inv_split)
  note r = report_ready_keeps [OF ok0, folded s1_def]
  have s1: "procs_ok s1 L" "g_procs s1 = g_procs s" "g_next_pid s1 \<noteq> -1" "g_current s1 = -1" "\<not> g_scheduler_started s1"
    using r np cur False by (simp_all add: current_ok_def)
  have inv1: "sched_inv s1 L" using s1 cur False by (simp add: sched_inv_split current_ok_def)
  define mid where "mid = (if ready_count s1 = 0 then map_option snd (process_create w idle 0
      (printk ''[SCHED] No processes ready, creating idle\<newline>'' [] s1)) else Some s1)"
  have ss: "scheduler_start w idle s = do { s2 \<leftarrow> mid;
      case scan (\<lambda>i. proc_is s2 i PROC_READY) 0 8 of
        None \<Rightarrow> Some (printk ''[SCHED] ERROR: No processes to run!\<newline>'' [] s2)
      | Some i \<Rightarrow> Some (enter_first i s2) }"
    unfolding mid_def s1_def using False by (simp add: scheduler_start_def Let_def)
  have "\<exists>s2 L2. mid = Some s2 \<and> sched_inv s2 L2 \<and> \<not> g_scheduler_started s2"
  proof (cases "ready_count s1 = 0")
    case True
    let ?s1 = "printk ''[SCHED] No processes ready, creating idle\<newline>'' [] s1"
    have ok1: "procs_ok ?s1 L" "g_next_pid ?s1 \<noteq> -1" "current_ok ?s1"
      using sched_inv_printk [OF inv1] s1(3) by (simp_all add: sched_inv_split)
    from ok1(1,2) show ?thesis
    proof (cases rule: process_create_cases [where w = w and e = idle and a = 0])
      case (fail s')
      then have "mid = Some s'" using True by (simp add: mid_def)
      moreover have "sched_inv s' L" using fail(2) ok1(3) s1(5) more_keeps_sched [OF fail(3)]
        by (simp add: sched_inv_split current_ok_def)
      moreover have "\<not> g_scheduler_started s'" using more_keeps_sched [OF fail(3)] s1(5) by simp
      ultimately show ?thesis by blast
    next
      case (created i stk k s')
      then have "mid = Some s'" using True by (simp add: mid_def)
      moreover have "current_ok s'"
        using ok1(3) created(3) s1(5) unfolding current_ok_def created(9-11)
        by (auto simp: fresh_process_def split: if_splits)
      then have "sched_inv s' (insert (unat stk, k) L)" using created(8) by (simp add: sched_inv_split)
      moreover have "\<not> g_scheduler_started s'" using created(11) s1(5) by simp
      ultimately show ?thesis by blast
    qed
  next
    case False
    then show ?thesis using inv1 s1(5) by (auto simp: mid_def)
  qed
  then obtain s2 L2 where s2: "mid = Some s2" "sched_inv s2 L2" "\<not> g_scheduler_started s2" by blast
  show ?thesis
  proof (cases "scan (\<lambda>i. proc_is s2 i PROC_READY) 0 8")
    case None
    then show ?thesis using ss s2(1) sched_inv_printk [OF s2(2)] by auto
  next
    case (Some i)
    then have "i < 8" "proc_is s2 i PROC_READY" by (auto simp: scan_Some_iff)
    moreover have "procs_ok s2 L2" "\<forall>j < 8. \<not> proc_is s2 j PROC_RUNNING"
      using s2 by (auto simp: sched_inv_split current_ok_def)
    ultimately have "sched_inv (enter_first i s2) L2" using enter_first_inv(1) by blast
    then show ?thesis using ss s2(1) Some by auto
  qed
qed

section \<open>The system as a whole\<close>

text \<open>
  The moves of the system: creating a process, yielding, exiting, starting the scheduler, and
  a process computing (its registers change, and memory inside its own stack).
\<close>

inductive sched_step :: "u64 \<Rightarrow> u64 \<Rightarrow> 'a sched_scheme \<Rightarrow> 'a sched_scheme \<Rightarrow> bool" for wrapper idle where
  create: "g_next_pid s \<noteq> -1 \<Longrightarrow> process_create wrapper entry arg s = Some (r, s') \<Longrightarrow> sched_step wrapper idle s s'"
| yield: "sched_step wrapper idle s (process_yield s)"
| exit: "g_next_pid s \<noteq> -1 \<Longrightarrow> process_exit wrapper idle s = Some s' \<Longrightarrow> sched_step wrapper idle s s'"
| start: "g_next_pid s \<noteq> -1 \<Longrightarrow> scheduler_start wrapper idle s = Some s' \<Longrightarrow> sched_step wrapper idle s s'"
| compute: "g_scheduler_started s \<Longrightarrow>
    same_on (- bytes_at (stack (g_procs s (nat (g_current s)))) 0x4000) m (ram s) \<Longrightarrow>
    sched_step wrapper idle s (s\<lparr>ram := m, cpu := c\<rparr>)"

inductive sched_reach :: "u64 \<Rightarrow> u64 \<Rightarrow> 'a sched_scheme \<Rightarrow> 'a sched_scheme \<Rightarrow> bool" for wrapper idle s0 where
  init: "sched_reach wrapper idle s0 s0"
| step: "sched_reach wrapper idle s0 s \<Longrightarrow> sched_step wrapper idle s s' \<Longrightarrow> sched_reach wrapper idle s0 s'"

inductive_cases sched_stepE: "sched_step w idle s s'"

lemma compute_inv:
  assumes inv: "sched_inv s L" and st: "g_scheduler_started s"
    and m: "same_on (- bytes_at (stack (g_procs s (nat (g_current s)))) 0x4000) m (ram s)"
  shows "sched_inv (s\<lparr>ram := m, cpu := c\<rparr>) L"
proof -
  let ?i = "nat (g_current s)" and ?t = "s\<lparr>ram := m, cpu := c\<rparr>"
  have ok: "procs_ok s L" "?i < 8" and "proc_is s ?i PROC_RUNNING"
    using inv st by (auto simp: sched_inv_split current_ok_def)
  then have used: "\<not> proc_is s ?i PROC_UNUSED" by simp
  obtain k where k: "0x4000 \<le> k" "(unat (stack (g_procs s ?i)), k) \<in> L" using stack_in_use [OF ok used] by blast
  have own: "heap_owns s L" using inv by (simp add: sched_inv_def)
  have "heap_owns (s\<lparr>ram := m\<rparr>) L"
    by (rule heap.write_block(1) [OF own k(2)]) (use m k(1) in \<open>auto simp: same_on_def\<close>)
  then have "heap_owns ?t L" by (rule heap_owns_cong) (simp_all add: same_globals_def)
  then show ?thesis
    using inv by (auto simp: sched_inv_def intro: table_ok_cong stacks_ok_cong)
qed

lemma sched_step_inv: "sched_step w idle s s' \<Longrightarrow> \<exists>L. sched_inv s L \<Longrightarrow> \<exists>L. sched_inv s' L"
proof (induction rule: sched_step.induct)
  case (create s entry arg r s')
  then obtain L where L: "sched_inv s L" by blast
  show ?case using process_create_inv [OF L create(1), of w entry arg] create(2) by auto
next
  case (yield s)
  then show ?case using process_yield_inv by blast
next
  case (exit s s')
  then obtain L where L: "sched_inv s L" by blast
  show ?case using process_exit_inv [OF L exit(1), of w idle] exit(2) by auto
next
  case (start s s')
  then obtain L where L: "sched_inv s L" by blast
  show ?case using scheduler_start_inv [OF L start(1), of w idle] start(2) by auto
next
  case (compute s m c)
  then show ?case using compute_inv by blast
qed

lemma sched_reach_inv: "sched_reach w idle s0 s \<Longrightarrow> \<exists>L. sched_inv s0 L \<Longrightarrow> \<exists>L. sched_inv s L"
  by (induction rule: sched_reach.induct) (auto dest: sched_step_inv)

section \<open>Properties\<close>

definition idle_machine :: sched where
  "idle_machine = kmem.extend one_page \<lparr>g_procs = (\<lambda>_. \<lparr>pid = 0, state = PROC_UNUSED,
       ctx = fresh_context 0 0 0 0, stack = 0, stack_size = 0\<rparr>),
     g_current = -1, g_next_pid = 1, g_last_switch_ticks = 0, g_scheduler_started = False,
     cpu = fresh_context 0 0 0 0\<rparr>"

lemma heap_inv_extend: "heap_inv s base ps bs \<Longrightarrow> heap_inv (kmem.extend s x) base ps bs"
  by (simp add: heap_inv_def pages_inv_def kmem.extend_def kmem.defs)

lemma idle_machine_inv: "sched_inv idle_machine {}"
proof -
  have "heap_inv idle_machine 0xffff800000200000 [0xffff800000000000] []"
    unfolding idle_machine_def by (rule heap_inv_extend [OF one_page_heap])
  then have "heap_owns idle_machine {}" unfolding heap_owns_def by fastforce
  then show ?thesis
    by (simp add: sched_inv_def table_ok_defs stacks_ok_def) (simp add: idle_machine_def kmem.extend_def)
qed

text \<open>C3: in every reachable state of the system the scheduler's table is well-formed: while the
  scheduler runs exactly the current slot is \<open>PROC_RUNNING\<close>, process ids in use are distinct,
  positive and below \<open>g_next_pid\<close>, and every process owns a stack of its own on the heap.\<close>

theorem reachable_schedules_well_formed:
  assumes "sched_reach w idle s0 s" "sched_inv s0 L"
  shows "\<exists>L'. sched_inv s L'"
  using sched_reach_inv [OF assms(1)] assms(2) by blast

theorem reachable_schedules_well_formed_witness:
  "\<exists>r s L'. process_create 1 2 3 idle_machine = Some (r, s) \<and> sched_inv (process_yield s) L'"
proof -
  have np: "g_next_pid idle_machine \<noteq> -1" by (simp add: idle_machine_def kmem.extend_def)
  obtain r s where s: "process_create 1 2 3 idle_machine = Some (r, s)"
    using process_create_inv [OF idle_machine_inv np] by blast
  have "sched_reach 1 4 idle_machine (process_yield s)"
    using sched_reach.step [OF sched_reach.step [OF sched_reach.init sched_step.create [OF np s]] sched_step.yield]
    by blast
  then show ?thesis using reachable_schedules_well_formed [OF _ idle_machine_inv] s by blast
qed

text \<open>C4: yielding is fair: a process that is ready becomes the current process after at most
  seven yields, whichever processes yield.\<close>

theorem ready_process_runs_within_seven_yields:
  assumes "table_ok s" "g_scheduler_started s" "j < 8" "proc_is s j PROC_READY"
  shows "\<exists>k \<le> 7. g_current ((process_yield ^^ k) s) = int j"
proof -
  have c: "proc_is s (nat (g_current s)) PROC_RUNNING" "nat (g_current s) < 8"
    using assms(1,2) by (auto simp: table_ok_defs)
  then have "nat (g_current s) \<noteq> j" using assms(4) by auto
  then have "Suc (dist (nat (g_current s)) j) \<le> 7" using c(2) assms(3) by (auto simp: dist_def)
  then show ?thesis using yield_reaches [OF assms] le_trans by blast
qed

definition two_ready :: sched where
  "two_ready = idle_machine\<lparr>g_procs := (\<lambda>i. (g_procs idle_machine i)
       \<lparr>pid := of_nat i + 1, state := if i = 2 then PROC_RUNNING else if i = 1 then PROC_READY else PROC_UNUSED\<rparr>),
     g_current := 2, g_next_pid := 9, g_scheduler_started := True\<rparr>"

theorem ready_process_runs_within_seven_yields_witness:
  "\<exists>k \<le> 7. g_current ((process_yield ^^ k) two_ready) = 1"
proof -
  have "table_ok two_ready" "g_scheduler_started two_ready" "proc_is two_ready 1 PROC_READY"
    by (auto simp: table_ok_defs two_ready_def)
  then show ?thesis using ready_process_runs_within_seven_yields [of two_ready 1] by simp
qed



text \<open>A switch resumes a process with \<open>rsp\<close> still pointing at the return address that was
  consumed, eight below the stack pointer the caller has after an ordinary return: \<open>rip\<close> is the
  word that \<open>rsp\<close> points at.\<close>

theorem resumed_rsp_keeps_return_address:
  "rip (ctx (g_procs (save_context i s) i)) = load_le 8 (ram s) (rsp (ctx (g_procs (save_context i s) i)))"
  by (simp add: save_context_def set_proc_def)

lemma mask16: "unat (x AND NOT 0xF :: u64) = unat x div 16 * 16"
proof -
  have M: "NOT 0xF = NOT (mask 4 :: u64)" by (simp add: mask_eq_exp_minus_1)
  have "x AND NOT 0xF = push_bit 4 (drop_bit 4 x)"
    unfolding M by (rule bit_word_eqI) (auto simp: bit_simps)
  moreover have "unat x div 16 * 16 < 2 ^ 64"
    using unat_64 [of x] by (intro le_less_trans [OF div_times_less_eq_dividend])
  ultimately show ?thesis
    by (simp add: push_bit_eq_mult drop_bit_eq_div unat_word_ariths unat_div_distrib mult.commute)
qed

lemma stack_top_facts:
  assumes "unat stk + 0x4000 < 2 ^ 64"
  shows "16 dvd unat ((stk + STACK_SIZE) AND NOT 0xF)" "unat stk < unat ((stk + STACK_SIZE) AND NOT 0xF)"
    "unat ((stk + STACK_SIZE) AND NOT 0xF) \<le> unat stk + 0x4000"
proof -
  have "unat (stk + STACK_SIZE) = unat stk + 0x4000"
    unfolding STACK_SIZE_def using assms by (intro trans [OF unat_plus]) simp_all
  then have u: "unat ((stk + STACK_SIZE) AND NOT 0xF) = (unat stk + 0x4000) div 16 * 16"
    unfolding mask16 by simp
  show "16 dvd unat ((stk + STACK_SIZE) AND NOT 0xF)" "unat stk < unat ((stk + STACK_SIZE) AND NOT 0xF)"
    "unat ((stk + STACK_SIZE) AND NOT 0xF) \<le> unat stk + 0x4000"
    unfolding u by presburger+
qed

text \<open>C19: \<open>process_create\<close> always returns. It either changes no slot, or it fills the lowest unused
  slot with a ready process that has the next pid, its entry point and argument in the saved
  registers, and an initial stack pointer that is 16-byte aligned and inside its own stack.\<close>

theorem process_create_fills_lowest_slot:
  assumes "sched_inv s L" "g_next_pid s \<noteq> -1"
  shows "\<exists>r s'. process_create w e a s = Some (r, s') \<and>
    (r = -1 \<and> g_procs s' = g_procs s \<or>
     (\<exists>i stk. r = int i \<and> i < 8 \<and> proc_is s i PROC_UNUSED \<and> (\<forall>j < i. \<not> proc_is s j PROC_UNUSED) \<and>
        g_procs s' = (g_procs s)(i := fresh_process w e a stk (g_next_pid s)) \<and>
        g_next_pid s' = g_next_pid s + 1 \<and>
        (let top = rsp (ctx (g_procs s' i)) in 16 dvd unat top \<and> unat stk < unat top \<and> unat top \<le> unat stk + 0x4000)))"
proof -
  have ok: "procs_ok s L" using assms(1) by (simp add: sched_inv_split)
  from ok assms(2) show ?thesis
  proof (cases rule: process_create_cases [where w = w and e = e and a = a])
    case (fail s')
    then show ?thesis using more_keeps_sched(1) [OF fail(3)] by blast
  next
    case (created i stk k s')
    have low: "\<forall>j < i. \<not> proc_is s j PROC_UNUSED" using procs.found [of s i] created(4) by auto
    have own: "heap_owns s' (insert (unat stk, k) L)" using created(8) by (simp add: procs_ok_def)
    have "unat stk + 0x4000 < 2 ^ 64"
      using heap.owns_bounds [OF own, of "unat stk" k] created(6) by simp
    note top = stack_top_facts [OF this]
    have "rsp (ctx (g_procs s' i)) = (stk + STACK_SIZE) AND NOT 0xF"
      using created(9) by (simp add: fresh_process_def fresh_context_def)
    then show ?thesis using created(1-3,9,12) low top by (auto simp: Let_def)
  qed
qed

theorem process_create_fills_lowest_slot_witness:
  "\<exists>r s'. process_create 1 2 3 idle_machine = Some (r, s') \<and> (r = -1 \<or> r = 0)"
proof -
  have np: "g_next_pid idle_machine \<noteq> -1" by (simp add: idle_machine_def kmem.extend_def)
  have un: "proc_is idle_machine i PROC_UNUSED" for i by (simp add: idle_machine_def kmem.extend_def)
  obtain r s' where s': "process_create 1 2 3 idle_machine = Some (r, s')" and
    "r = -1 \<or> (\<exists>i. r = int i \<and> (\<forall>j < i. \<not> proc_is idle_machine j PROC_UNUSED))"
    using process_create_fills_lowest_slot [OF idle_machine_inv np, of 1 2 3] by blast
  then have "r = -1 \<or> r = 0" using un by auto
  then show ?thesis using s' by blast
qed


lemma one_running: "\<exists>s L. sched_inv s L \<and> g_next_pid s = 2 \<and> g_scheduler_started (s :: sched) \<and> g_current s = 0 \<and>
    (\<forall>i > 0. proc_is s i PROC_UNUSED)"
proof -
  have own: "heap_owns idle_machine {}" using idle_machine_inv by (simp add: sched_inv_def)
  have inv: "heap_inv idle_machine 0xffff800000200000 [0xffff800000000000] []"
    unfolding idle_machine_def by (rule heap_inv_extend [OF one_page_heap])
  have am: "amalloc (round8 (unat STACK_SIZE)) 0xffff800000200000 (length [0xffff800000000000 :: u64], [])
      = (Some 0xffff800000200018, 0, [(16384, False), (2080720, True)])"
    by (simp add: amalloc_def aopen_def awalk_def round8_def carve_def STACK_SIZE_def)
  obtain t where t: "malloc STACK_SIZE idle_machine = Some (0xffff800000200018, t)"
    using malloc_refines [OF inv _ _ am] by (auto simp: max_allowed_def sizeof_header_def STACK_SIZE_def ptr_of_def)
  obtain k where k: "unat STACK_SIZE \<le> k" "heap_owns t {(unat (0xffff800000200018 :: u64), k)}"
    using heap.alloc_ok [OF own t] by auto
  let ?s = "t\<lparr>g_procs := (\<lambda>i. if i = 0 then (fresh_process 0 0 0 0xffff800000200018 1)\<lparr>state := PROC_RUNNING\<rparr>
      else \<lparr>pid = 0, state = PROC_UNUSED, ctx = fresh_context 0 0 0 0, stack = 0, stack_size = 0\<rparr>),
      g_current := 0, g_next_pid := 2, g_scheduler_started := True\<rparr>"
  have "heap_owns ?s {(unat (0xffff800000200018 :: u64), k)}"
    by (rule heap_owns_cong [OF k(2)]) (simp_all add: same_globals_def)
  moreover have "table_ok ?s" by (auto simp: table_ok_defs fresh_process_def)
  moreover have "stacks_ok ?s {(unat (0xffff800000200018 :: u64), k)}"
    using k(1) by (auto simp: stacks_ok_def fresh_process_def STACK_SIZE_def)
  ultimately have "sched_inv ?s {(unat (0xffff800000200018 :: u64), k)}" by (simp add: sched_inv_def)
  then show ?thesis by (intro exI [of _ ?s] exI [of _ "{(unat (0xffff800000200018 :: u64), k)}"] conjI) simp_all
qed


end
