(* ===== verification/Devices.thy ===== *)
theory Devices
  imports Shell Sched
begin

text \<open>
  The devices: \<open>keyboard.c\<close>, \<open>timer.c\<close>, the interrupt controller and the two interrupt descriptor
  tables of \<open>interrupt.c\<close> and \<open>interrupts.c\<close>, with the panic screen.

  The keyboard controller is hardware. \<open>inb\<close> is the read of an I/O port, an argument of the
  definitions that use it: it maps a port and a device state to a byte and the next device state.
  \<open>ps2_queue\<close> states the documented behaviour of the controller: bit 0 of the status port tells
  whether scan codes are pending, and a read of the data port takes the oldest one. Writes to
  ports are logged in \<open>ports\<close>. The addresses of assembly routines are arguments as well.
\<close>

section \<open>Keyboard\<close>

type_synonym 'd inb = "u16 \<Rightarrow> 'd \<Rightarrow> u8 \<times> 'd"

definition PS2_DATA :: u16 where "PS2_DATA = 0x60"
definition PS2_STATUS :: u16 where "PS2_STATUS = 0x64"
definition PIC_MASTER_CMD :: u16 where "PIC_MASTER_CMD = 0x20"

definition scancode_map :: string where
  "scancode_map =
     [CHR 0x00, CHR 0x1B] @ ''1234567890-='' @ [CHR 0x08] @
     [CHR 0x09] @ ''qwertyuiop[]'' @ [CHR 0x0A, CHR 0x00] @
     ''asdfghjkl;'' @ [CHR 0x27, CHR 0x60, CHR 0x00, CHR 0x5C] @
     ''zxcvbnm,./'' @ [CHR 0x00, CHR 0x00, CHR 0x00, CHR 0x20]"

definition scancode_to_char :: "u8 \<Rightarrow> char" where
  "scancode_to_char scancode =
     (if unat scancode < length scancode_map then scancode_map ! unat scancode else CHR 0x00)"

fun kbd_flush_loop :: "'d inb \<Rightarrow> nat \<Rightarrow> 'd \<Rightarrow> 'd" where
  "kbd_flush_loop inb 0 d = d"
| "kbd_flush_loop inb (Suc n) d =
     (let (status, d1) = inb PS2_STATUS d
      in if status AND 0x01 \<noteq> 0 then kbd_flush_loop inb n (snd (inb PS2_DATA d1)) else d1)"

definition kbd_flush :: "'d inb \<Rightarrow> 'd \<Rightarrow> 'd" where
  "kbd_flush inb d = kbd_flush_loop inb 256 d"

definition keyboard_init :: "'d inb \<Rightarrow> 'd \<Rightarrow> 'd" where
  "keyboard_init inb d = kbd_flush inb d"

text \<open>The body of the handler's loop after the scan code is read, with the shell running.\<close>

definition shell_key :: "u8 \<Rightarrow> 'a shell_scheme \<Rightarrow> 'a shell_scheme option" where
  "shell_key scancode s =
     (if scancode = 0x48 then shell_process_input (CHR 0x01) s
      else if scancode = 0x50 then shell_process_input (CHR 0x02) s
      else if scancode = 0x4B then shell_process_input (CHR 0x03) s
      else if scancode = 0x4D then shell_process_input (CHR 0x04) s
      else if scancode = 0x47 then shell_process_input (CHR 0x05) s
      else if scancode = 0x4F then shell_process_input (CHR 0x06) s
      else if scancode = 0x53 then shell_process_input (CHR 0x07) s
      else let c = scancode_to_char scancode in if c \<noteq> CHR 0x00 then shell_process_input c s else Some s)"

text \<open>Without the shell, characters go to the console.\<close>

definition console_backspace :: "'a console_scheme \<Rightarrow> 'a console_scheme" where
  "console_backspace s =
     (let col = get_cursor_col s
      in if col > 0 then set_cursor_col (col - 1) (print_char (CHR '' '') (set_cursor_col (col - 1) s)) else s)"

definition console_key :: "u8 \<Rightarrow> 'a console_scheme \<Rightarrow> 'a console_scheme" where
  "console_key scancode s =
     (let s1 = (if scancode = 0x0E then console_backspace s
                else let c = scancode_to_char scancode in if c \<noteq> CHR 0x00 then print_char c s else s)
      in if scancode = 0x48 then move_cursor_up s1
         else if scancode = 0x50 then move_cursor_down s1
         else if scancode = 0x4B then move_cursor_left s1
         else if scancode = 0x4D then move_cursor_right s1
         else s1)"

definition handle_scancode :: "u8 \<Rightarrow> 'a shell_scheme \<Rightarrow> 'a shell_scheme option" where
  "handle_scancode scancode s =
     (if scancode AND 0x80 \<noteq> 0 then Some s
      else if scancode \<ge> 0x3B \<and> scancode \<le> 0x3E then Some (vt_switch (uint scancode - 0x3B) s)
      else if shell_is_active s then shell_key scancode s
      else Some (console_key scancode s))"

partial_function (option) kbd_loop ::
    "'d inb \<Rightarrow> 'd \<Rightarrow> 'a shell_scheme \<Rightarrow> ('d \<times> 'a shell_scheme) option" where
  "kbd_loop inb d s =
     (let (status, d1) = inb PS2_STATUS d
      in if status AND 0x01 \<noteq> 0 then
           (let (scancode, d2) = inb PS2_DATA d1
            in Option.bind (handle_scancode scancode s) (kbd_loop inb d2))
         else Some (d1, s))"

definition keyboard_handler_c :: "'d inb \<Rightarrow> 'd \<Rightarrow> 'a shell_scheme \<Rightarrow> ('d \<times> 'a shell_scheme) option" where
  "keyboard_handler_c inb d s = do {
     (d1, s1) \<leftarrow> kbd_loop inb d s;
     Some (d1, outb PIC_MASTER_CMD 0x20 (update_cursor (get_cursor_row s1) (get_cursor_col s1) s1))
   }"

section \<open>Timer\<close>

definition PIT_CHANNEL0 :: u16 where "PIT_CHANNEL0 = 0x40"
definition PIT_COMMAND :: u16 where "PIT_COMMAND = 0x43"
definition PIT_FREQUENCY :: u32 where "PIT_FREQUENCY = 1193182"

definition pit_divisor :: "u32 \<Rightarrow> u32" where
  "pit_divisor frequency = PIT_FREQUENCY div (if frequency = 0 then 100 else frequency)"

text \<open>The result is the new tick count and the console with the port writes.\<close>

definition timer_init :: "u32 \<Rightarrow> 'a console_scheme \<Rightarrow> u64 \<times> 'a console_scheme" where
  "timer_init frequency c =
     (let divisor = pit_divisor frequency
      in (0, outb PIT_CHANNEL0 (ucast (drop_bit 8 divisor AND 0xFF))
               (outb PIT_CHANNEL0 (ucast (divisor AND 0xFF)) (outb PIT_COMMAND 0x36 c))))"

definition timer_ticks :: "u64 \<Rightarrow> u64" where "timer_ticks g_ticks = g_ticks"

definition timer_handler_c ::
    "u64 \<Rightarrow> 'a sched_scheme \<Rightarrow> 'b console_scheme \<Rightarrow> u64 \<times> 'a sched_scheme \<times> 'b console_scheme" where
  "timer_handler_c g_ticks s c = (g_ticks + 1, scheduler_tick s, outb 0x20 0x20 c)"

section \<open>Interrupt descriptor tables\<close>

record idt_entry =
  offset_low :: u16
  selector :: u16
  ist :: u8
  type_attr :: u8
  offset_mid :: u16
  offset_high :: u32
  zero_field :: u32

type_synonym idt = "idt_entry array"

text \<open>The processor's IDT register.\<close>

record idt_ptr =
  limit :: u16
  base :: u64

definition KERNEL_CS :: u16 where "KERNEL_CS = 0x18"
definition IDT_ENTRIES :: nat where "IDT_ENTRIES = 256"

definition zero_entry :: idt_entry where
  "zero_entry = \<lparr>offset_low = 0, selector = 0, ist = 0, type_attr = 0, offset_mid = 0, offset_high = 0, zero_field = 0\<rparr>"

text \<open>\<open>idt_set_gate\<close> of \<open>interrupts.c\<close>.\<close>

definition idt_set_gate :: "nat \<Rightarrow> u64 \<Rightarrow> u8 \<Rightarrow> idt \<Rightarrow> idt" where
  "idt_set_gate n addr attr idt = idt(n := \<lparr>offset_low = ucast (addr AND 0xFFFF), selector = KERNEL_CS, ist = 0,
     type_attr = attr, offset_mid = ucast (drop_bit 16 addr AND 0xFFFF),
     offset_high = ucast (drop_bit 32 addr AND 0xFFFFFFFF), zero_field = 0\<rparr>)"

text \<open>\<open>idt_init\<close> of \<open>interrupts.c\<close>: \<open>isr n\<close> is the address of the stub of exception \<open>n\<close>.\<close>

definition idt_init :: "(nat \<Rightarrow> u64) \<Rightarrow> u64 \<Rightarrow> idt \<Rightarrow> idt \<times> idt_ptr" where
  "idt_init isr idt_addr idt =
     (let cleared = fold (\<lambda>i t. t(i := zero_entry)) [0..<IDT_ENTRIES] idt;
          filled = fold (\<lambda>i. idt_set_gate i (isr i) 0x8E) [0..<32] cleared
      in (filled, \<lparr>limit = of_nat (16 * IDT_ENTRIES - 1), base = idt_addr\<rparr>))"

text \<open>\<open>idt_set_gate\<close>, \<open>idt_init\<close> and \<open>idt_register_handler\<close> of \<open>interrupt.c\<close>.\<close>

definition irq_set_gate :: "nat \<Rightarrow> u64 \<Rightarrow> idt \<Rightarrow> idt" where
  "irq_set_gate vector addr idt = idt(vector := \<lparr>offset_low = ucast (addr AND 0xFFFF), selector = 0x18, ist = 0,
     type_attr = 0x8E, offset_mid = ucast (drop_bit 16 addr AND 0xFFFF),
     offset_high = ucast (drop_bit 32 addr AND 0xFFFFFFFF), zero_field = 0\<rparr>)"

definition irq_idt_init :: "u64 \<Rightarrow> u64 \<Rightarrow> u64 \<Rightarrow> idt \<Rightarrow> idt \<times> idt_ptr" where
  "irq_idt_init timer_handler keyboard_handler idt_addr idt =
     (irq_set_gate 33 keyboard_handler (irq_set_gate 32 timer_handler idt),
      \<lparr>limit = of_nat (16 * 256 - 1), base = idt_addr\<rparr>)"

definition idt_register_handler :: "int \<Rightarrow> u64 \<Rightarrow> idt \<Rightarrow> idt" where
  "idt_register_handler vector handler idt =
     (if vector \<ge> 0 \<and> vector < 256 then irq_set_gate (nat vector) handler idt else idt)"

definition pic_init :: "'a console_scheme \<Rightarrow> 'a console_scheme" where
  "pic_init c = fold (\<lambda>(port, data). outb port data)
     [(0x21, 0xFF), (0xA1, 0xFF), (0x20, 0x11), (0xA0, 0x11), (0x21, 0x20), (0xA1, 0x28),
      (0x21, 0x04), (0xA1, 0x02), (0x21, 0x01), (0xA1, 0x01), (0x21, 0xFC), (0xA1, 0xFF)] c"

definition interrupt_init ::
    "u64 \<Rightarrow> u64 \<Rightarrow> u64 \<Rightarrow> idt \<Rightarrow> 'a console_scheme \<Rightarrow> idt \<times> idt_ptr \<times> 'a console_scheme" where
  "interrupt_init timer_handler keyboard_handler idt_addr idt c =
     (let (idt', idtr) = irq_idt_init timer_handler keyboard_handler idt_addr idt in (idt', idtr, pic_init c))"

section \<open>The panic screen\<close>

definition exception_messages :: "string list" where
  "exception_messages =
     [''0: Divide-by-zero'', ''1: Debug'', ''2: NMI'', ''3: Breakpoint'', ''4: Overflow'', ''5: Bound-Range'',
      ''6: Invalid Opcode'', ''7: Device Not Available'', ''8: Double Fault'', ''9: Coprocessor Segment Overrun'',
      ''10: Invalid TSS'', ''11: Segment Not Present'', ''12: Stack-Segment Fault'', ''13: General Protection Fault'',
      ''14: Page Fault'', ''15: Reserved'', ''16: x87 Floating-Point'', ''17: Alignment Check'', ''18: Machine Check'',
      ''19: SIMD Floating-Point'', ''20: Virtualization'', ''21: Control Protection'', ''22: Reserved'', ''23: Reserved'',
      ''24: Reserved'', ''25: Reserved'', ''26: Reserved'', ''27: Reserved'', ''28: Hypervisor Injection'',
      ''29: VMM Communication'', ''30: Security Exception'', ''31: Reserved'']"

definition panic_attr :: u8 where "panic_attr = push_bit 4 0x4 OR 0xF"

definition vga_clear_panic :: "u16 array \<Rightarrow> u16 array" where
  "vga_clear_panic v = fold (\<lambda>i v. v(i := vga_cell panic_attr (CHR '' ''))) [0..<80 * 25] v"

fun vga_puts_from :: "nat \<Rightarrow> nat \<Rightarrow> string \<Rightarrow> u16 array \<Rightarrow> u16 array" where
  "vga_puts_from row col [] v = v"
| "vga_puts_from row col (c # cs) v =
     (if row \<ge> 25 then v
      else if c = CHR 0x0A then vga_puts_from (row + 1) 0 cs v
      else if col < 80 then vga_puts_from row (col + 1) cs (v(row * 80 + col := vga_cell panic_attr c))
      else vga_puts_from row col cs v)"

definition vga_puts_at :: "nat \<Rightarrow> string \<Rightarrow> u16 array \<Rightarrow> u16 array" where
  "vga_puts_at row s v = vga_puts_from row 0 s v"

definition hex_digit :: "u64 \<Rightarrow> nat \<Rightarrow> char" where
  "hex_digit val i = ''0123456789ABCDEF'' ! unat (drop_bit ((15 - i) * 4) val AND 0xF)"

definition vga_print_hex64 :: "nat \<Rightarrow> nat \<Rightarrow> u64 \<Rightarrow> u16 array \<Rightarrow> u16 array" where
  "vga_print_hex64 row col val v =
     fold (\<lambda>i v. v(row * 80 + (col + i) := vga_cell panic_attr (hex_digit val i))) [0..<16] v"

text \<open>The fields of \<open>regs_t\<close> that the handler reads.\<close>

record regs_t =
  int_no :: u64
  err_code :: u64
  r_rip :: u64
  r_rflags :: u64
  r_rsp :: u64

text \<open>The screen when the handler reaches its halting loop.\<close>

definition isr_handler :: "regs_t \<Rightarrow> u16 array \<Rightarrow> u16 array" where
  "isr_handler r v =
     (let v1 = vga_puts_at 3 ''Exception:'' (vga_puts_at 1 ''CPU exception occurred.''
                 (vga_puts_at 0 ''KERNEL PANIC'' (vga_clear_panic v)));
          v2 = (if int_no r < 32 then vga_puts_at 4 (exception_messages ! unat (int_no r)) v1
                else vga_puts_at 4 ''Unknown'' v1);
          v3 = vga_print_hex64 6 5 (r_rip r) (vga_puts_at 6 ''RIP:'' v2);
          v4 = vga_print_hex64 7 5 (r_rsp r) (vga_puts_at 7 ''RSP:'' v3);
          v5 = vga_print_hex64 8 9 (r_rflags r) (vga_puts_at 8 ''RFLAGS:'' v4);
          v6 = vga_print_hex64 9 5 (err_code r) (vga_puts_at 9 ''ERR:'' v5)
      in vga_puts_at 11 ''System halted.'' v6)"

section \<open>The keyboard handler\<close>

text \<open>The documented behaviour of the keyboard controller; \<open>q d\<close> are the scan codes pending in \<open>d\<close>.\<close>

definition ps2_queue :: "'d inb \<Rightarrow> ('d \<Rightarrow> u8 list) \<Rightarrow> bool" where
  "ps2_queue inb q \<longleftrightarrow>
     (\<forall>d. (fst (inb PS2_STATUS d) AND 0x01 \<noteq> 0 \<longleftrightarrow> q d \<noteq> []) \<and> q (snd (inb PS2_STATUS d)) = q d) \<and>
     (\<forall>d. q d \<noteq> [] \<longrightarrow> fst (inb PS2_DATA d) = hd (q d) \<and> q (snd (inb PS2_DATA d)) = tl (q d))"

primrec handle_all :: "u8 list \<Rightarrow> 'a shell_scheme \<Rightarrow> 'a shell_scheme option" where
  "handle_all [] s = Some s"
| "handle_all (k # ks) s = do { s' \<leftarrow> handle_scancode k s; handle_all ks s' }"

lemma kbd_loop_handles:
  assumes "ps2_queue inb q" "handle_all (q d) s = Some t"
  shows "\<exists>d'. kbd_loop inb d s = Some (d', t) \<and> q d' = []"
  using assms(2)
proof (induction "q d" arbitrary: d s)
  case Nil
  then have "fst (inb PS2_STATUS d) AND 0x01 = 0" "q (snd (inb PS2_STATUS d)) = []"
    using assms(1) by (simp_all add: ps2_queue_def)
  then show ?case using Nil by (subst kbd_loop.simps) (simp add: Let_def split_beta Nil.hyps [symmetric])
next
  case (Cons k ks)
  let ?d1 = "snd (inb PS2_STATUS d)"
  let ?d2 = "snd (inb PS2_DATA ?d1)"
  have st: "fst (inb PS2_STATUS d) AND 0x01 \<noteq> 0" "q ?d1 = k # ks"
    using assms(1) Cons.hyps(2) by (auto simp: ps2_queue_def)
  then have rd: "fst (inb PS2_DATA ?d1) = k" "q ?d2 = ks" using assms(1) by (auto simp: ps2_queue_def)
  obtain s' where s': "handle_scancode k s = Some s'" "handle_all ks s' = Some t"
    using Cons.prems unfolding Cons.hyps(2) [symmetric] by (auto simp: bind_eq_Some_conv)
  then obtain d' where "kbd_loop inb ?d2 s' = Some (d', t)" "q d' = []" using Cons.hyps(1) [of ?d2 s'] rd(2) by auto
  then show ?case using st(1) rd(1) s'(1) by (subst kbd_loop.simps) (simp add: Let_def split_beta)
qed

lemma keeps_shell_ops: "f \<in> con_ops \<Longrightarrow> shell_inv s \<Longrightarrow> shell_inv (f s)"
  using keeps_shell_inv con.keeps_op by blast

lemma console_key_keeps: "con.keeps s (console_key k s)"
proof -
  have b: "con.keeps s (console_backspace s)"
  proof -
    have "con.keeps s (set_cursor_col j (print_char ch (set_cursor_col j s)))" for j ch
      by (rule con.keeps_trans [OF con.keeps_trans [OF con.keeps_op con.keeps_op] con.keeps_op])
        (rule con_ops.intros print_char_op)+
    then show ?thesis by (simp add: console_backspace_def Let_def)
  qed
  define s1 where "s1 = (if k = 0x0E then console_backspace s
    else if scancode_to_char k \<noteq> CHR 0x00 then print_char (scancode_to_char k) s else s)"
  have s1: "con.keeps s s1" using b con.keeps_op by (auto simp: s1_def)
  have "con.keeps s1 (move_cursor_up s1)" "con.keeps s1 (move_cursor_down s1)"
    "con.keeps s1 (move_cursor_left s1)" "con.keeps s1 (move_cursor_right s1)"
    by (rule con.keeps_op, rule con_ops.intros)+
  then have "con.keeps s1 (console_key k s)"
    unfolding console_key_def Let_def s1_def [symmetric] by simp
  then show ?thesis using s1 con.keeps_trans by blast
qed

lemma shell_key_total: "shell_inv s \<Longrightarrow> \<exists>s'. shell_key k s = Some s' \<and> shell_inv s'"
  using shell_input_total by (auto simp: shell_key_def Let_def)

lemma handle_scancode_total:
  assumes "shell_inv s"
  shows "\<exists>s'. handle_scancode k s = Some s' \<and> shell_inv s'"
  using assms shell_key_total [OF assms] keeps_shell_inv [OF console_key_keeps assms]
    keeps_shell_ops [OF con_ops.intros(3) assms]
  by (simp add: handle_scancode_def)

lemma handle_all_total: "shell_inv s \<Longrightarrow> \<exists>s'. handle_all ks s = Some s' \<and> shell_inv s'"
proof (induction ks arbitrary: s)
  case (Cons k ks)
  obtain t where "handle_scancode k s = Some t" "shell_inv t" using handle_scancode_total [OF Cons.prems] by blast
  then show ?case using Cons.IH [of t] by simp
qed simp

lemma outb_shell [simp]:
  "shell_inv (outb p v s) = shell_inv s" "edited (outb p v s) = edited s" "shell_active (outb p v s) = shell_active s"
  by (simp_all add: outb_def shell_inv_def editor_ok_def cmd_history_ok_def line_def edited_def con_inv_defs
    active_def backed_up_def TBUF_def)

lemma update_cursor_shell [simp]:
  "shell_inv (update_cursor r k s) = shell_inv s" "edited (update_cursor r k s) = edited s"
  "shell_active (update_cursor r k s) = shell_active s"
  unfolding update_cursor_def Let_def by simp_all

lemma keyboard_handler_result:
  assumes "ps2_queue inb q" "handle_all (q d) s = Some t"
  shows "\<exists>d'. keyboard_handler_c inb d s =
      Some (d', outb PIC_MASTER_CMD 0x20 (update_cursor (get_cursor_row t) (get_cursor_col t) t)) \<and> q d' = []"
  using kbd_loop_handles [OF assms] by (auto simp: keyboard_handler_c_def)

text \<open>C31: the keyboard handler returns: on a controller that queues scan codes it takes all pending
  ones, handles them in order, ends the interrupt, and keeps the shell and the console well
  formed, whatever the codes are.\<close>

theorem keyboard_handler_drains_controller:
  assumes "ps2_queue inb q" "shell_inv s"
  shows "\<exists>d' s' t. keyboard_handler_c inb d s = Some (d', s') \<and> q d' = [] \<and> shell_inv s' \<and>
    handle_all (q d) s = Some t \<and> s' = outb 0x20 0x20 (update_cursor (cursor_row t) (cursor_col t) t)"
proof -
  obtain t where t: "handle_all (q d) s = Some t" "shell_inv t" using handle_all_total [OF assms(2)] by blast
  obtain d' where "keyboard_handler_c inb d s =
      Some (d', outb PIC_MASTER_CMD 0x20 (update_cursor (get_cursor_row t) (get_cursor_col t) t))" "q d' = []"
    using keyboard_handler_result [OF assms(1) t(1)] by blast
  then show ?thesis using t by (simp add: PIC_MASTER_CMD_def get_cursor_row_def get_cursor_col_def)
qed

text \<open>A controller as a list of pending codes.\<close>

definition list_inb :: "u8 list inb" where
  "list_inb port d = (if port = PS2_STATUS then (if d = [] then 0x1C else 0x1D, d)
     else if port = PS2_DATA then (if d = [] then (0, []) else (hd d, tl d)) else (0, d))"

lemma list_inb_queue: "ps2_queue list_inb (\<lambda>d. d)"
  by (simp add: ps2_queue_def list_inb_def PS2_STATUS_def PS2_DATA_def)

theorem keyboard_handler_drains_controller_witness:
  "\<exists>s'. keyboard_handler_c list_inb [0x12, 0x92, 0x3C, 0x0E, 0x48, 0x1C] idle_shell = Some ([], s') \<and> shell_inv s'"
  using keyboard_handler_drains_controller [OF list_inb_queue idle_shell_inv(1), of "[0x12, 0x92, 0x3C, 0x0E, 0x48, 0x1C]"]
  by auto

text \<open>Typing.\<close>

definition printable_key :: "u8 \<Rightarrow> bool" where
  "printable_key k \<longleftrightarrow> k < 0x3B \<and> 32 \<le> (of_char (scancode_to_char k) :: nat) \<and> (of_char (scancode_to_char k) :: nat) \<le> 126"

lemma code_below_3B: "k < (0x3B :: u8) \<Longrightarrow> k AND 0x80 = 0"
proof -
  assume "k < 0x3B"
  then have "take_bit 7 k = k"
    by (simp add: word_uint_eq_iff take_bit_eq_mod word_less_def uint_mod_distrib)
  moreover have "take_bit 7 k AND push_bit 7 1 = 0" by (rule bit_word_eqI) (simp only: bit_and_iff bit_take_bit_iff bit_push_bit_iff bit_0_eq, auto)
  ultimately show ?thesis by simp
qed

lemma printable_key_types:
  assumes "printable_key k" "shell_inv s" "shell_active s" "length (line s) < 127"
  shows "\<exists>s'. handle_scancode k s = Some s' \<and> shell_inv s' \<and> shell_active s' \<and>
    edited s' = (take (nat (cursor_pos s)) (line s) @ of_char (scancode_to_char k) # drop (nat (cursor_pos s)) (line s),
      nat (cursor_pos s) + 1)"
proof -
  let ?c = "scancode_to_char k"
  have p: "32 \<le> (of_char ?c :: nat)" "(of_char ?c :: nat) \<le> 126" "k < 0x3B" using assms(1) by (auto simp: printable_key_def)
  have ch: "?c \<notin> {KEY_UP, KEY_DOWN, CHR 0x0A}" "?c \<noteq> CHR 0x00" "?c \<noteq> CHR 0x08" using p(1) by auto
  have "handle_scancode k s = shell_process_input ?c s"
    using p(3) ch(2) assms(3) code_below_3B [OF p(3)]
    by (auto simp: handle_scancode_def shell_is_active_def shell_key_def Let_def)
  moreover have "edit ?c (edited s) = (take (nat (cursor_pos s)) (line s) @ of_char ?c # drop (nat (cursor_pos s)) (line s),
      nat (cursor_pos s) + 1)"
    using p assms(4) ch(3) by (simp add: edited_def edit_no_key)
  ultimately show ?thesis using shell_edit_step [OF assms(2,3) ch(1)] assms(3) by (auto simp: edits_to_def)
qed

lemma typing_types:
  assumes "\<forall>k \<in> set ks. printable_key k" "shell_inv s" "shell_active s" "length (line s) + length ks \<le> 127"
    and "edited s = (xs @ ys, length xs)"
  shows "\<exists>t. handle_all ks s = Some t \<and> edited t = (xs @ map (\<lambda>k. of_char (scancode_to_char k)) ks @ ys, length xs + length ks)"
  using assms
proof (induction ks arbitrary: s xs)
  case (Cons k ks)
  have e: "line s = xs @ ys" "nat (cursor_pos s) = length xs" using Cons.prems(5) by (auto simp: edited_def)
  obtain s1 where s1: "handle_scancode k s = Some s1" "shell_inv s1" "shell_active s1"
      "edited s1 = ((xs @ [of_char (scancode_to_char k)]) @ ys, length (xs @ [of_char (scancode_to_char k) :: u8]))"
    using printable_key_types [of k s] Cons.prems e by auto
  moreover have "length (line s1) + length ks \<le> 127"
    using s1(4) Cons.prems(4) e(1) by (auto simp: edited_def simp del: line_length)
  ultimately show ?case using Cons.IH [OF _ s1(2,3) _ s1(4)] Cons.prems(1) by auto
qed simp

text \<open>C32: typing printable keys at the shell inserts their characters at the caret, in the order of the
  scan codes, from the controller through the handler and the shell into the command line.\<close>

theorem typed_keys_reach_command_line:
  assumes "ps2_queue inb q" "shell_inv s" "shell_active s"
    and "\<forall>k \<in> set (q d). printable_key k" "length (line s) + length (q d) \<le> 127"
  shows "\<exists>d' s'. keyboard_handler_c inb d s = Some (d', s') \<and> q d' = [] \<and>
    edited s' = (take (nat (cursor_pos s)) (line s) @ map (\<lambda>k. of_char (scancode_to_char k)) (q d) @ drop (nat (cursor_pos s)) (line s),
      nat (cursor_pos s) + length (q d))"
proof -
  let ?p = "nat (cursor_pos s)"
  have "?p \<le> nat (cmd_pos s)" using assms(2) by (auto simp: shell_inv_def editor_ok_def)
  then have "edited s = (take ?p (line s) @ drop ?p (line s), length (take ?p (line s)))" by (simp add: edited_def min_def)
  from typing_types [OF assms(4,2,3,5) this] obtain t where t: "handle_all (q d) s = Some t"
      "edited t = (take ?p (line s) @ map (\<lambda>k. of_char (scancode_to_char k)) (q d) @ drop ?p (line s), ?p + length (q d))"
    using \<open>?p \<le> nat (cmd_pos s)\<close> by (auto simp: min_def)
  then show ?thesis using keyboard_handler_result [OF assms(1) t(1)] by auto
qed

theorem typed_keys_reach_command_line_witness:
  "\<exists>s'. keyboard_handler_c list_inb [0x12, 0x2E, 0x23, 0x18] idle_shell = Some ([], s') \<and> edited s' = (map of_char ''echo'', 4)"
proof -
  have "\<forall>k \<in> set [0x12, 0x2E, 0x23, 0x18 :: u8]. printable_key k"
    by (simp add: printable_key_def scancode_to_char_def scancode_map_def)
  moreover have "edited idle_shell = ([], 0)" by (simp add: edited_def idle_shell_def line_def console.defs)
  ultimately show ?thesis
    using typed_keys_reach_command_line [OF list_inb_queue idle_shell_inv, of "[0x12, 0x2E, 0x23, 0x18]"]
    by (auto simp: edited_def scancode_to_char_def scancode_map_def simp del: line_length)
qed

section \<open>The timer rate\<close>

lemma low_byte: "unat (ucast (w AND 0xFF :: u32) :: u8) = unat w mod 256"
proof -
  have "w AND 0xFF = take_bit 8 w" by (simp add: take_bit_eq_mask mask_eq_exp_minus_1)
  then have "(ucast (w AND 0xFF) :: u8) = ucast w" by (intro bit_word_eqI) (simp add: bit_simps)
  then show ?thesis by (simp add: unsigned_ucast_eq take_bit_eq_mod)
qed

lemma pit_bytes:
  "unat (ucast (w AND 0xFF :: u32) :: u8) + 256 * unat (ucast (drop_bit 8 w AND 0xFF :: u32) :: u8) = unat w mod 65536"
proof -
  have "unat (drop_bit 8 w) = unat w div 256" by (simp add: drop_bit_eq_div unat_div_distrib)
  then show ?thesis using mod_mult2_eq [of "unat w" 256 256] by (simp add: low_byte)
qed

lemma pit_divisor_value: "unat (pit_divisor f) = 1193182 div (if f = 0 then 100 else unat f)"
  by (simp add: pit_divisor_def PIT_FREQUENCY_def unat_div_distrib)

text \<open>C33: \<open>timer_init\<close> sends the command byte and then the two bytes of the divisor, low byte first,
  and resets the tick count. The counter gets the divisor of the requested frequency exactly when
  the frequency is 0 (the default of 100 Hz) or at least 19 Hz: below, the divisor does not fit 16
  bits and its high part is lost.\<close>

theorem timer_init_programs_divisor:
  "\<exists>lo hi. ports (snd (timer_init f c)) = ports c @ [(0x43, 0x36), (0x40, lo), (0x40, hi)] \<and>
    fst (timer_init f c) = 0 \<and>
    unat lo + 256 * unat hi = unat (pit_divisor f) mod 65536 \<and>
    (unat lo + 256 * unat hi = 1193182 div (if f = 0 then 100 else unat f) \<longleftrightarrow> f = 0 \<or> 19 \<le> f)"
proof -
  let ?d = "pit_divisor f"
  let ?lo = "ucast (?d AND 0xFF) :: u8" and ?hi = "ucast (drop_bit 8 ?d AND 0xFF) :: u8"
  have p: "ports (snd (timer_init f c)) = ports c @ [(0x43, 0x36), (0x40, ?lo), (0x40, ?hi)]"
    by (simp add: timer_init_def Let_def outb_def PIT_COMMAND_def PIT_CHANNEL0_def)
  have "1193182 div unat f < 65536 \<longleftrightarrow> 19 \<le> unat f" if "f \<noteq> 0"
  proof -
    have "0 < unat f" using that by (simp add: unat_gt_0)
    then have "1193182 div unat f < 65536 \<longleftrightarrow> 1193182 < 65536 * unat f" by (simp add: div_less_iff_less_mult)
    also have "\<dots> \<longleftrightarrow> 19 \<le> unat f" by auto
    finally show ?thesis .
  qed
  then have "f = 0 \<or> 19 \<le> f \<longleftrightarrow> unat ?d mod 65536 = unat ?d"
    by (auto simp: pit_divisor_value word_le_nat_alt mod_eq_self_iff_div_eq_0 div_eq_0_iff)
  then show ?thesis using p pit_bytes [of ?d] pit_divisor_value [of f]
    by (intro exI [of _ ?lo] exI [of _ ?hi]) (auto simp: timer_init_def Let_def)
qed

section \<open>Gates\<close>

text \<open>The handler address the processor reads from an entry, and its present bit.\<close>

definition gate_address :: "idt_entry \<Rightarrow> u64" where
  "gate_address e = ucast (offset_low e) OR push_bit 16 (ucast (offset_mid e)) OR push_bit 32 (ucast (offset_high e))"

definition present :: "idt_entry \<Rightarrow> bool" where
  "present e \<longleftrightarrow> type_attr e AND 0x80 \<noteq> 0"

lemma mask_consts: "(0xFFFF :: u64) = mask 16" "(0xFFFFFFFF :: u64) = mask 32"
  by (simp_all add: mask_eq_exp_minus_1)

lemma address_split: "(ucast (ucast (addr AND 0xFFFF) :: u16) :: u64) OR push_bit 16 (ucast (ucast (drop_bit 16 addr AND 0xFFFF) :: u16))
    OR push_bit 32 (ucast (ucast (drop_bit 32 addr AND 0xFFFFFFFF) :: u32)) = addr" (is "?w = _")
proof (rule bit_word_eqI)
  fix n assume "n < LENGTH(64)"
  then consider "n < 16" | "16 \<le> n" "n < 32" | "32 \<le> n" "n < 64" by fastforce
  then show "bit ?w n = bit addr n" unfolding mask_consts by cases (auto simp: bit_simps)
qed

lemma gate_roundtrip:
  "gate_address (idt_set_gate n addr attr idt n) = addr" "gate_address (irq_set_gate n addr idt n) = addr"
  using address_split [of addr] by (simp_all add: gate_address_def idt_set_gate_def irq_set_gate_def)

lemma idt_init_entries:
  assumes "n < 256"
  shows "fst (idt_init isr a idt) n = (if n < 32 then idt_set_gate n (isr n) 0x8E (\<lambda>_. zero_entry) n else zero_entry)"
proof -
  have "fold (\<lambda>i. idt_set_gate i (isr i) 0x8E) [0..<k] t = (\<lambda>i. if i < k then idt_set_gate i (isr i) 0x8E (\<lambda>_. zero_entry) i else t i)" for k t
    by (induction k) (auto simp: fun_eq_iff idt_set_gate_def less_Suc_eq)
  then show ?thesis using assms by (simp add: idt_init_def Let_def fold_array_fill IDT_ENTRIES_def)
qed

text \<open>C34: the order of \<open>kernel_init\<close> leaves the processor without exception gates: \<open>idt_init\<close> fills a
  table with the 32 exception stubs and loads it, then \<open>interrupt_init\<close> loads a different table
  in which only the timer and the keyboard gate are present. Every gate set reads back the
  address of its handler.\<close>

theorem interrupt_init_drops_exception_gates:
  fixes idt2 :: idt
  assumes "idt2 = (\<lambda>_. zero_entry)"
  shows "let (t1, r1) = idt_init isr a1 idt1; (t2, r2, c') = interrupt_init timer kbd a2 idt2 c in
    base r1 = a1 \<and> (\<forall>n < 32. present (t1 n) \<and> gate_address (t1 n) = isr n) \<and>
    base r2 = a2 \<and> limit r2 = 4095 \<and> (\<forall>n < 256. present (t2 n) \<longleftrightarrow> n = 32 \<or> n = 33) \<and>
    gate_address (t2 32) = timer \<and> gate_address (t2 33) = kbd"
proof -
  have t1: "present (fst (idt_init isr a1 idt1) n) \<and> gate_address (fst (idt_init isr a1 idt1) n) = isr n" if "n < 32" for n
    using that idt_init_entries [of n isr a1 idt1] gate_roundtrip(1) by (simp add: present_def idt_set_gate_def)
  have t2: "present (fst (irq_idt_init timer kbd a2 idt2) n) \<longleftrightarrow> n = 32 \<or> n = 33" for n
    by (auto simp: irq_idt_init_def irq_set_gate_def present_def assms zero_entry_def)
  have "gate_address (fst (irq_idt_init timer kbd a2 idt2) 32) = timer" "gate_address (fst (irq_idt_init timer kbd a2 idt2) 33) = kbd"
    using gate_roundtrip(2) [of 33 kbd "irq_set_gate 32 timer idt2"] gate_roundtrip(2) [of 32 timer idt2]
    by (simp_all add: irq_idt_init_def) (simp add: irq_set_gate_def)
  then show ?thesis using t1 t2
    by (simp add: interrupt_init_def idt_init_def irq_idt_init_def Let_def split: prod.splits)
qed

theorem interrupt_init_drops_exception_gates_witness:
  "\<not> present (fst (interrupt_init 0x1000 0x2000 0x9000 (\<lambda>_. zero_entry) (con_boot (\<lambda>_. 0))) 13)"
  using interrupt_init_drops_exception_gates [OF refl, where timer = "0x1000" and kbd = "0x2000" and ?a2.0 = "0x9000"
      and c = "con_boot (\<lambda>_. 0)"
    and ?a1.0 = "0" and isr = "\<lambda>_. 0" and ?idt1.0 = "\<lambda>_. zero_entry"]
  by (auto simp: Let_def split: prod.splits)

section \<open>What the panic screen shows\<close>

lemma vga_puts_plain:
  assumes "row < 25" "CHR 0x0A \<notin> set s" "col + length s \<le> 80"
  shows "vga_puts_from row col s v =
    (\<lambda>i. if row * 80 + col \<le> i \<and> i < row * 80 + col + length s then vga_cell panic_attr (s ! (i - (row * 80 + col))) else v i)"
  using assms
proof (induction s arbitrary: col v)
  case (Cons c s)
  then have "vga_puts_from row (Suc col) s (v(row * 80 + col := vga_cell panic_attr c)) =
      (\<lambda>i. if row * 80 + Suc col \<le> i \<and> i < row * 80 + Suc col + length s then vga_cell panic_attr (s ! (i - (row * 80 + Suc col)))
        else (v(row * 80 + col := vga_cell panic_attr c)) i)" by simp
  then show ?case using Cons.prems by (auto simp: fun_eq_iff nth_Cons' intro!: arg_cong [where f = "vga_cell panic_attr"])
qed (auto simp: fun_eq_iff)

lemma vga_hex_cells:
  "vga_print_hex64 row col val v = (\<lambda>i. if row * 80 + col \<le> i \<and> i < row * 80 + col + 16
     then vga_cell panic_attr (hex_digit val (i - (row * 80 + col))) else v i)"
proof -
  have "fold (\<lambda>i v. v(row * 80 + (col + i) := vga_cell panic_attr (hex_digit val i))) [0..<n] v =
    (\<lambda>i. if row * 80 + col \<le> i \<and> i < row * 80 + col + n then vga_cell panic_attr (hex_digit val (i - (row * 80 + col))) else v i)" for n
    by (induction n) (auto simp: fun_eq_iff less_Suc_eq)
  then show ?thesis by (simp add: vga_print_hex64_def)
qed

lemma low_nibble: "unat (x AND 0xF :: u64) = unat x mod 16"
proof -
  have "x AND 0xF = take_bit 4 x" by (simp add: take_bit_eq_mask mask_eq_exp_minus_1)
  then have "unat (x AND 0xF) = take_bit 4 (unat x)" by (simp only: unsigned_take_bit_eq)
  then show ?thesis by (simp add: take_bit_eq_mod)
qed

lemma unat_nibble_shift: "unat (drop_bit (j * 4) x :: u64) = unat x div 16 ^ j"
proof -
  have "unat x < 2 ^ LENGTH(64)" by (rule unsigned_less)
  moreover have "2 ^ (j * 4) = (16 :: nat) ^ j" by (simp add: power_mult mult.commute [of j])
  ultimately show ?thesis by (simp only: unsigned_drop_bit_eq) (simp add: take_bit_eq_mod drop_bit_eq_div)
qed

lemma hex_digit_value: "digit_of (hex_digit val i) = unat (drop_bit ((15 - i) * 4) val AND 0xF)"
proof -
  have m: "map digit_of ''0123456789ABCDEF'' = [0..<16]" by (simp add: digit_of_def is_digit_def upt_rec)
  have "unat (drop_bit ((15 - i) * 4) val AND 0xF) < 16" unfolding low_nibble by simp
  then show ?thesis
    using nth_map [of "unat (drop_bit ((15 - i) * 4) val AND 0xF)" "''0123456789ABCDEF''" digit_of]
    unfolding m hex_digit_def by simp
qed

text \<open>Sixteen hexadecimal digits spell the value.\<close>

lemma hex_prefix: "k \<le> 16 \<Longrightarrow> read_number 16 (map (hex_digit val) [0..<k]) = unat val div 16 ^ (16 - k)"
proof (induction k)
  case 0
  have "unat val < 2 ^ LENGTH(64)" by (rule unsigned_less)
  then show ?case by (simp add: read_number_def)
next
  case (Suc k)
  let ?q = "unat val div 16 ^ (15 - k)"
  have "digit_of (hex_digit val k) = ?q mod 16"
    by (simp only: hex_digit_value low_nibble unat_nibble_shift)
  moreover have "16 - k = Suc (15 - k)" using Suc.prems by simp
  then have "unat val div 16 ^ (16 - k) = ?q div 16" by (simp add: div_mult2_eq [symmetric] mult.commute)
  ultimately show ?case using Suc by simp
qed

lemma hex_reads_back: "read_number 16 (map (hex_digit val) [0..<16]) = unat val"
  using hex_prefix [of 16 val] by simp

lemma messages_short: "\<forall>m \<in> set exception_messages. CHR 0x0A \<notin> set m \<and> length m \<le> 80" "length exception_messages = 32"
  by (simp_all add: exception_messages_def)

text \<open>The characters of a stretch of the screen, without the attribute.\<close>

definition text_at :: "u16 array \<Rightarrow> nat \<Rightarrow> nat \<Rightarrow> nat \<Rightarrow> u16 list" where
  "text_at v row col n = map v [row * 80 + col..<row * 80 + col + n]"

definition cells :: "string \<Rightarrow> u16 list" where
  "cells str = map (vga_cell panic_attr) str"

text \<open>Sixteen hexadecimal digits that read back as the value.\<close>

definition shows_hex :: "u16 array \<Rightarrow> nat \<Rightarrow> nat \<Rightarrow> u64 \<Rightarrow> bool" where
  "shows_hex v row col val \<longleftrightarrow> (\<exists>str. text_at v row col 16 = cells str \<and> read_number 16 str = unat val)"

definition message_of :: "regs_t \<Rightarrow> string" where
  "message_of r = (if int_no r < 32 then exception_messages ! unat (int_no r) else ''Unknown'')"

lemma message_ok: "CHR 0x0A \<notin> set (message_of r)" "length (message_of r) \<le> 80"
proof -
  have "message_of r \<in> insert ''Unknown'' (set exception_messages)"
    using messages_short(2) by (auto simp: message_of_def word_less_nat_alt)
  then show "CHR 0x0A \<notin> set (message_of r)" "length (message_of r) \<le> 80" using messages_short(1) by auto
qed

lemma text_at_eqI: "length xs = n \<Longrightarrow> (\<And>i. i < n \<Longrightarrow> v (row * 80 + col + i) = xs ! i) \<Longrightarrow> text_at v row col n = xs"
  by (auto simp: text_at_def intro!: nth_equalityI)

text \<open>C35: the panic screen names the exception and shows the interrupted \<open>RIP\<close>, \<open>RSP\<close>, flags and error
  code: the message of the vector (or \<open>Unknown\<close> from 32 on) is in row 4, and sixteen hexadecimal
  digits that read back as the register are behind each label.\<close>

theorem panic_screen_shows_registers:
  "let v' = isr_handler r v in
    text_at v' 4 0 (length (message_of r)) = cells (message_of r) \<and>
    shows_hex v' 6 5 (r_rip r) \<and> shows_hex v' 7 5 (r_rsp r) \<and>
    shows_hex v' 8 9 (r_rflags r) \<and> shows_hex v' 9 5 (err_code r)"
proof -
  let ?v = "isr_handler r v"
  have h: "isr_handler r v = vga_puts_at 11 ''System halted.'' (vga_print_hex64 9 5 (err_code r) (vga_puts_at 9 ''ERR:''
      (vga_print_hex64 8 9 (r_rflags r) (vga_puts_at 8 ''RFLAGS:'' (vga_print_hex64 7 5 (r_rsp r) (vga_puts_at 7 ''RSP:''
      (vga_print_hex64 6 5 (r_rip r) (vga_puts_at 6 ''RIP:'' (vga_puts_at 4 (message_of r) (vga_puts_at 3 ''Exception:''
      (vga_puts_at 1 ''CPU exception occurred.'' (vga_puts_at 0 ''KERNEL PANIC'' (vga_clear_panic v)))))))))))))"
    by (simp add: isr_handler_def Let_def message_of_def)
  note puts = vga_puts_plain [where col = 0, folded vga_puts_at_def]
  have cell: "?v (4 * 80 + 0 + i) = cells (message_of r) ! i" if "i < length (message_of r)" for i
    using that message_ok [of r] unfolding h by (simp add: puts vga_hex_cells cells_def)
  have hex: "?v (6 * 80 + 5 + i) = cells (map (hex_digit (r_rip r)) [0..<16]) ! i"
    "?v (7 * 80 + 5 + i) = cells (map (hex_digit (r_rsp r)) [0..<16]) ! i"
    "?v (8 * 80 + 9 + i) = cells (map (hex_digit (r_rflags r)) [0..<16]) ! i"
    "?v (9 * 80 + 5 + i) = cells (map (hex_digit (err_code r)) [0..<16]) ! i" if "i < 16" for i
    using that unfolding h by (simp_all add: puts vga_hex_cells cells_def)
  have "text_at ?v 4 0 (length (message_of r)) = cells (message_of r)"
    by (rule text_at_eqI) (use cell in \<open>auto simp: cells_def\<close>)
  moreover have "text_at ?v 6 5 16 = cells (map (hex_digit (r_rip r)) [0..<16])"
    "text_at ?v 7 5 16 = cells (map (hex_digit (r_rsp r)) [0..<16])"
    "text_at ?v 8 9 16 = cells (map (hex_digit (r_rflags r)) [0..<16])"
    "text_at ?v 9 5 16 = cells (map (hex_digit (err_code r)) [0..<16])"
    by (rule text_at_eqI; use hex in \<open>simp add: cells_def\<close>)+
  ultimately show ?thesis using hex_reads_back unfolding shows_hex_def Let_def by blast
qed

end
