(* ===== verification/Structs.thy ===== *)
theory Structs
  imports Heap
begin

text \<open>
  Tables of C structures in memory: the inode table and the two caches of the file system.

  \<open>cell T R i off\<close> is the address of the field at offset \<open>off\<close> of the \<open>i\<close>-th structure of \<open>R\<close>
  bytes in the table at \<open>T\<close>; \<open>rd32\<close>, \<open>wr32\<close>, \<open>rd64\<close>, \<open>wr64\<close> are the accesses to \<open>uint32_t\<close> and
  pointer fields. The lemmas: a field reads back what was written to it, and a write to one field
  leaves every other field of the table, and all memory outside the table, alone.
\<close>

definition cell :: "u64 \<Rightarrow> nat \<Rightarrow> nat \<Rightarrow> nat \<Rightarrow> u64" where
  "cell T R i off = T + of_nat (R * i + off)"

definition rd32 :: "memory \<Rightarrow> u64 \<Rightarrow> u32" where
  "rd32 m a = ucast (load_le 4 m a)"

definition wr32 :: "u64 \<Rightarrow> u32 \<Rightarrow> memory \<Rightarrow> memory" where
  "wr32 a v m = store_le 4 m a (ucast v)"

definition rd64 :: "memory \<Rightarrow> u64 \<Rightarrow> u64" where
  "rd64 m a = load_le 8 m a"

definition wr64 :: "u64 \<Rightarrow> u64 \<Rightarrow> memory \<Rightarrow> memory" where
  "wr64 a v m = store_le 8 m a v"

text \<open>A table of \<open>N\<close> structures of \<open>R\<close> bytes at \<open>T\<close> that does not wrap around.\<close>

definition fits :: "u64 \<Rightarrow> nat \<Rightarrow> nat \<Rightarrow> bool" where
  "fits T R N \<longleftrightarrow> unat T + R * N \<le> 2 ^ 64"

lemma cell_bound:
  fixes i N R off w :: nat
  assumes "i < N" "off + w \<le> R"
  shows "R * i + off + w \<le> R * N"
proof -
  have "R * i + R \<le> R * N" using mult_le_mono2 [of "Suc i" N R] assms(1) by simp
  then show ?thesis using assms(2) by linarith
qed

lemma unat_cell:
  assumes "fits T R N" "i < N" "off + w \<le> R" "0 < w"
  shows "unat (cell T R i off) = unat T + (R * i + off)" "unat (cell T R i off) + w \<le> 2 ^ 64"
    "unat (cell T R i off) + w \<le> unat T + R * N"
proof -
  note b = cell_bound [OF assms(2,3)]
  have "unat T + (R * i + off) < 2 ^ 64" using b assms(1,4) by (simp add: fits_def)
  then show u: "unat (cell T R i off) = unat T + (R * i + off)"
    unfolding cell_def by (rule unat_add_of_nat)
  show "unat (cell T R i off) + w \<le> 2 ^ 64" "unat (cell T R i off) + w \<le> unat T + R * N"
    using u b assms(1) by (simp_all add: fits_def)
qed

text \<open>Two fields of a table share no byte unless they are the same field.\<close>

lemma cells_apart:
  assumes "fits T R N" "i < N" "j < N" "o1 + w1 \<le> R" "o2 + w2 \<le> R" "0 < w1" "0 < w2"
    and "i \<noteq> j \<or> o1 + w1 \<le> o2 \<or> o2 + w2 \<le> o1"
  shows "bytes_at (cell T R i o1) w1 \<inter> bytes_at (cell T R j o2) w2 = {}"
proof -
  note ui = unat_cell(1) [OF assms(1,2,4,6)] and uj = unat_cell(1) [OF assms(1,3,5,7)]
  consider "i = j" | "i < j" | "j < i" by linarith
  then have "R * i + o1 + w1 \<le> R * j + o2 \<or> R * j + o2 + w2 \<le> R * i + o1"
  proof cases
    case 2
    then have "R * i + R \<le> R * j" using mult_le_mono2 [of "Suc i" j R] by simp
    then show ?thesis using assms(4) by linarith
  next
    case 3
    then have "R * j + R \<le> R * i" using mult_le_mono2 [of "Suc j" i R] by simp
    then show ?thesis using assms(5) by linarith
  qed (use assms(8) in auto)
  then show ?thesis unfolding ui uj by auto
qed

lemma rd_wr_same [simp]:
  "unat a + 4 \<le> 2 ^ 64 \<Longrightarrow> rd32 (wr32 a v m) a = v" "unat a + 8 \<le> 2 ^ 64 \<Longrightarrow> rd64 (wr64 a x m) a = x"
  by (auto simp: rd32_def wr32_def rd64_def wr64_def load_store_same intro!: bit_word_eqI simp: bit_simps)

lemma rd_cong:
  "unat a + 4 \<le> 2 ^ 64 \<Longrightarrow> same_on (bytes_at a 4) m m' \<Longrightarrow> rd32 m a = rd32 m' a"
  "unat a + 8 \<le> 2 ^ 64 \<Longrightarrow> same_on (bytes_at a 8) m m' \<Longrightarrow> rd64 m a = rd64 m' a"
  using load_le_cong [of a 4 m m'] load_le_cong [of a 8 m m'] by (simp_all add: rd32_def rd64_def)

lemma wr_same_on:
  "unat a + 4 \<le> 2 ^ 64 \<Longrightarrow> S \<inter> bytes_at a 4 = {} \<Longrightarrow> same_on S (wr32 a v m) m"
  "unat a + 8 \<le> 2 ^ 64 \<Longrightarrow> S \<inter> bytes_at a 8 = {} \<Longrightarrow> same_on S (wr64 a x m) m"
  by (simp_all add: wr32_def wr64_def same_on_store_le)

text \<open>The four read-over-write laws of a table.\<close>

lemma rd_wr_cell_same:
  assumes "fits T R N" "i < N"
  shows "off + 4 \<le> R \<Longrightarrow> rd32 (wr32 (cell T R i off) v m) (cell T R i off) = v"
    "off + 8 \<le> R \<Longrightarrow> rd64 (wr64 (cell T R i off) x m) (cell T R i off) = x"
  using unat_cell(2) [OF assms] by simp_all

lemma rd_wr_cell_other:
  assumes "fits T R N" "i < N" "j < N"
  shows "o1 + 4 \<le> R \<Longrightarrow> o2 + 4 \<le> R \<Longrightarrow> i \<noteq> j \<or> o1 + 4 \<le> o2 \<or> o2 + 4 \<le> o1 \<Longrightarrow>
      rd32 (wr32 (cell T R j o2) v m) (cell T R i o1) = rd32 m (cell T R i o1)"
    and "o1 + 4 \<le> R \<Longrightarrow> o2 + 8 \<le> R \<Longrightarrow> i \<noteq> j \<or> o1 + 4 \<le> o2 \<or> o2 + 8 \<le> o1 \<Longrightarrow>
      rd32 (wr64 (cell T R j o2) x m) (cell T R i o1) = rd32 m (cell T R i o1)"
    and "o1 + 8 \<le> R \<Longrightarrow> o2 + 4 \<le> R \<Longrightarrow> i \<noteq> j \<or> o1 + 8 \<le> o2 \<or> o2 + 4 \<le> o1 \<Longrightarrow>
      rd64 (wr32 (cell T R j o2) v m) (cell T R i o1) = rd64 m (cell T R i o1)"
    and "o1 + 8 \<le> R \<Longrightarrow> o2 + 8 \<le> R \<Longrightarrow> i \<noteq> j \<or> o1 + 8 \<le> o2 \<or> o2 + 8 \<le> o1 \<Longrightarrow>
      rd64 (wr64 (cell T R j o2) x m) (cell T R i o1) = rd64 m (cell T R i o1)"
  using unat_cell(2) [OF assms(1,2)] unat_cell(2) [OF assms(1,3)] cells_apart [OF assms]
  by (intro rd_cong wr_same_on; simp)+

text \<open>Writes to a field stay inside the table.\<close>

lemma wr_cell_same_on:
  assumes "fits T R N" "i < N" "S \<inter> {unat T ..< unat T + R * N} = {}"
  shows "off + 4 \<le> R \<Longrightarrow> same_on S (wr32 (cell T R i off) v m) m"
    "off + 8 \<le> R \<Longrightarrow> same_on S (wr64 (cell T R i off) x m) m"
proof -
  have in_table: "S \<inter> bytes_at (cell T R i off) w = {}" if "off + w \<le> R" "0 < w" for w
    using unat_cell [OF assms(1,2) that] assms(3) by fastforce
  show "off + 4 \<le> R \<Longrightarrow> same_on S (wr32 (cell T R i off) v m) m"
    "off + 8 \<le> R \<Longrightarrow> same_on S (wr64 (cell T R i off) x m) m"
    using unat_cell(2) [OF assms(1,2)] in_table by (intro wr_same_on; simp)+
qed

section \<open>Tables with keys\<close>

text \<open>
  The tables of open files, of cached inodes and of cached blocks are searched by a number: the
  descriptor, the inode number, the block number. The contract on top of \<open>slot_table\<close>: \<open>fetch\<close>
  finds the first used slot with the key. While the keys of the used slots differ, \<open>fetch\<close> is a
  finite map from keys to slots: filling the free slot is a map update, clearing a slot a removal.
\<close>

definition distinct_keys :: "('s \<Rightarrow> nat \<Rightarrow> bool) \<Rightarrow> nat \<Rightarrow> ('s \<Rightarrow> nat \<Rightarrow> u32) \<Rightarrow> 's \<Rightarrow> bool" where
  "distinct_keys used n key s \<longleftrightarrow> (\<forall>i < n. \<forall>j < n. used s i \<and> used s j \<and> key s i = key s j \<longrightarrow> i = j)"

locale keyed_table = slot_table used capacity find_slot
  for used :: "'s \<Rightarrow> nat \<Rightarrow> bool" and capacity :: nat and find_slot :: "'s \<Rightarrow> nat option" +
  fixes key :: "'s \<Rightarrow> nat \<Rightarrow> u32" and fetch :: "'s \<Rightarrow> u32 \<Rightarrow> nat option"
  assumes fetch_scan: "fetch s k = scan (\<lambda>i. key s i = k \<and> used s i) 0 capacity"
begin

lemma fetch_SomeD: "fetch s k = Some i \<Longrightarrow> i < capacity \<and> used s i \<and> key s i = k"
  by (auto simp: fetch_scan scan_Some_iff)

lemma fetch_None: "fetch s k = None \<longleftrightarrow> (\<forall>i < capacity. used s i \<longrightarrow> key s i \<noteq> k)"
  by (auto simp: fetch_scan scan_None_iff)

lemma fetch_Some:
  assumes "distinct_keys used capacity key s"
  shows "fetch s k = Some i \<longleftrightarrow> i < capacity \<and> used s i \<and> key s i = k"
proof
  assume i: "i < capacity \<and> used s i \<and> key s i = k"
  then obtain j where j: "fetch s k = Some j" using fetch_None [of s k] by (cases "fetch s k") auto
  then have "j = i" using fetch_SomeD [OF j] i assms unfolding distinct_keys_def by blast
  then show "fetch s k = Some i" using j by simp
qed (rule fetch_SomeD)

lemma fetch_same:
  assumes "\<And>j. j < capacity \<Longrightarrow> used s' j = used s j \<and> (used s j \<longrightarrow> key s' j = key s j)"
  shows "fetch s' = fetch s" "distinct_keys used capacity key s' = distinct_keys used capacity key s"
proof -
  show "fetch s' = fetch s" unfolding fetch_scan fun_eq_iff by (intro allI scan_cong) (use assms in auto)
  show "distinct_keys used capacity key s' = distinct_keys used capacity key s"
    unfolding distinct_keys_def using assms by metis
qed

lemma fetch_fill:
  assumes d: "distinct_keys used capacity key s" and "find_slot s = Some i" "fetch s k = None"
    and new: "used s' i" "key s' i = k"
    and old: "\<And>j. j < capacity \<Longrightarrow> j \<noteq> i \<Longrightarrow> used s' j = used s j \<and> (used s j \<longrightarrow> key s' j = key s j)"
  shows "distinct_keys used capacity key s'" "fetch s' = (fetch s)(k \<mapsto> i)"
proof -
  have i: "i < capacity" "\<not> used s i" using found [OF assms(2)] by blast+
  have k: "key s j \<noteq> k" if "j < capacity" "used s j" for j using assms(3) that fetch_None by blast
  show d': "distinct_keys used capacity key s'"
    unfolding distinct_keys_def
  proof (intro allI impI)
    fix a b assume ab: "a < capacity" "b < capacity" "used s' a \<and> used s' b \<and> key s' a = key s' b"
    show "a = b"
    proof (rule ccontr)
      assume ne: "a \<noteq> b"
      consider "a = i" "b \<noteq> i" | "b = i" "a \<noteq> i" | "a \<noteq> i" "b \<noteq> i" using ne by blast
      then show False
      proof cases
        case 1
        then show ?thesis using ab old [OF ab(2)] k [OF ab(2)] new(2) by auto
      next
        case 2
        then show ?thesis using ab old [OF ab(1)] k [OF ab(1)] new(2) by auto
      next
        case 3
        then have "used s a \<and> used s b \<and> key s a = key s b" using ab(3) old [OF ab(1)] old [OF ab(2)] by metis
        then show ?thesis using d ab(1,2) ne unfolding distinct_keys_def by blast
      qed
    qed
  qed
  have "fetch s' x = Some j \<longleftrightarrow> ((fetch s)(k \<mapsto> i)) x = Some j" for x j
    unfolding fetch_Some [OF d'] fun_upd_apply
    by (cases "j = i"; cases "x = k") (use i k new old [of j] fetch_Some [OF d, of x j] in auto)
  then show "fetch s' = (fetch s)(k \<mapsto> i)" by (metis ext not_Some_eq)
qed

lemma fetch_clear:
  assumes d: "distinct_keys used capacity key s" and f: "fetch s k = Some i" and "\<not> used s' i"
    and old: "\<And>j. j < capacity \<Longrightarrow> j \<noteq> i \<Longrightarrow> used s' j = used s j \<and> (used s j \<longrightarrow> key s' j = key s j)"
  shows "distinct_keys used capacity key s'" "fetch s' = (fetch s)(k := None)"
proof -
  note i = fetch_SomeD [OF f]
  have prev: "used s j \<and> key s' j = key s j" if "j < capacity" "used s' j" for j
    using that old [of j] assms(3) by (cases "j = i") auto
  show d': "distinct_keys used capacity key s'"
    unfolding distinct_keys_def
  proof (intro allI impI)
    fix a b assume "a < capacity" "b < capacity" "used s' a \<and> used s' b \<and> key s' a = key s' b"
    then show "a = b" using prev [of a] prev [of b] d unfolding distinct_keys_def by metis
  qed
  have "fetch s' x = Some j \<longleftrightarrow> ((fetch s)(k := None)) x = Some j" for x j
    unfolding fetch_Some [OF d'] fun_upd_apply
    by (cases "j = i"; cases "x = k") (use i assms(3) old [of j] fetch_Some [OF d, of x j] fetch_Some [OF d, of k j] f in auto)
  then show "fetch s' = (fetch s)(k := None)" by (metis ext not_Some_eq)
qed

text \<open>The map has as many keys as there are used slots.\<close>

lemma card_fetch:
  assumes "distinct_keys used capacity key s"
  shows "card (dom (fetch s)) = card {i. i < capacity \<and> used s i}"
proof -
  have "dom (fetch s) = key s ` {i. i < capacity \<and> used s i}"
    by (auto simp: dom_def fetch_Some [OF assms])
  moreover have "inj_on (key s) {i. i < capacity \<and> used s i}"
    using assms by (auto simp: distinct_keys_def inj_on_def)
  ultimately show ?thesis by (simp add: card_image)
qed

end

end
