(* ===== verification/Fs.thy ===== *)
theory Fs
  imports Sched Structs
begin

text \<open>
  The file system of \<open>src/src/kernel/fs/fs.c\<close> and \<open>fs.h\<close>.

  \<open>fsys\<close> extends the state by the globals of \<open>fs.c\<close>. The bitmaps and the inode table are on the
  kernel heap and are reached through their pointers; an \<open>inode_t\<close> is 104 bytes (\<open>data\<close> is
  aligned to 96). The table of open files is a static array. A file name is \<open>None\<close> for a null
  pointer; \<open>int32_t\<close> results are integers. \<open>None\<close> as a result of a call stands for a heap walk
  that never ends.
\<close>

section \<open>Data\<close>

definition FS_MAX_INODES :: nat where "FS_MAX_INODES = 2048"
definition FS_MAX_BLOCKS :: nat where "FS_MAX_BLOCKS = 10240"
definition FS_BLOCK_SIZE :: nat where "FS_BLOCK_SIZE = 4096"
definition FS_MAX_NAME_LEN :: nat where "FS_MAX_NAME_LEN = 256"
definition FS_MAX_OPEN_FILES :: nat where "FS_MAX_OPEN_FILES = 128"
definition FS_TYPE_FILE :: u32 where "FS_TYPE_FILE = 1"
definition FS_TYPE_DIR :: u32 where "FS_TYPE_DIR = 2"

record superblock =
  block_size :: u32
  total_blocks :: u32
  total_inodes :: u32
  free_blocks :: u32
  free_inodes :: u32
  block_bitmap_start :: u32
  inode_bitmap_start :: u32
  inode_table_start :: u32
  data_blocks_start :: u32

record file_descriptor =
  fd_num :: u32
  fd_inode :: u32
  fd_offset :: u32
  fd_mode :: u32
  fd_refs :: u32

record fsys = sched +
  fs_superblock :: superblock
  inode_table :: u64
  block_bitmap :: u64
  inode_bitmap :: u64
  open_files :: "file_descriptor array"
  next_fd :: u32
  last_created_inode :: u32

text \<open>\<open>inode_t\<close>: the offsets of its fields.\<close>

definition sizeof_inode :: nat where "sizeof_inode = 104"
definition I_ID :: nat where "I_ID = 0"
definition I_TYPE :: nat where "I_TYPE = 4"
definition I_SIZE :: nat where "I_SIZE = 8"
definition I_PERM :: nat where "I_PERM = 12"
definition I_OWNER :: nat where "I_OWNER = 16"
definition I_LINKS :: nat where "I_LINKS = 32"
definition I_BLOCKS :: nat where "I_BLOCKS = 36"
definition I_DIRECT :: nat where "I_DIRECT = 40"
definition I_INDIRECT :: nat where "I_INDIRECT = 88"
definition I_DATA :: nat where "I_DATA = 96"

definition ino :: "nat \<Rightarrow> 'a fsys_scheme \<Rightarrow> nat \<Rightarrow> u32" where
  "ino f s i = rd32 (ram s) (cell (inode_table s) sizeof_inode i f)"

definition ino_data :: "'a fsys_scheme \<Rightarrow> nat \<Rightarrow> u64" where
  "ino_data s i = rd64 (ram s) (cell (inode_table s) sizeof_inode i I_DATA)"

definition set_ino :: "nat \<Rightarrow> nat \<Rightarrow> u32 \<Rightarrow> 'a fsys_scheme \<Rightarrow> 'a fsys_scheme" where
  "set_ino f i v s = s\<lparr>ram := wr32 (cell (inode_table s) sizeof_inode i f) v (ram s)\<rparr>"

definition set_ino_data :: "nat \<Rightarrow> u64 \<Rightarrow> 'a fsys_scheme \<Rightarrow> 'a fsys_scheme" where
  "set_ino_data i v s = s\<lparr>ram := wr64 (cell (inode_table s) sizeof_inode i I_DATA) v (ram s)\<rparr>"

definition set_open :: "nat \<Rightarrow> (file_descriptor \<Rightarrow> file_descriptor) \<Rightarrow> 'a fsys_scheme \<Rightarrow> 'a fsys_scheme" where
  "set_open i f s = s\<lparr>open_files := (open_files s)(i := f (open_files s i))\<rparr>"

text \<open>A \<open>uint32_t\<close> returned as \<open>int32_t\<close>.\<close>

definition ret32 :: "u32 \<Rightarrow> int" where "ret32 v = sint v"

section \<open>Initialization\<close>

definition init_superblock :: superblock where
  "init_superblock = \<lparr>block_size = 4096, total_blocks = 10240, total_inodes = 2048,
     free_blocks = 10240, free_inodes = 2048, block_bitmap_start = 0, inode_bitmap_start = 4096,
     inode_table_start = 4096 * 2, data_blocks_start = 4096 * (2 + (2048 div 512))\<rparr>"

definition clear_bitmaps :: "'a fsys_scheme \<Rightarrow> 'a fsys_scheme" where
  "clear_bitmaps s = s\<lparr>ram := fold (\<lambda>i m. m(block_bitmap s + of_nat i := 0, inode_bitmap s + of_nat i := 0))
     [0..<FS_BLOCK_SIZE] (ram s)\<rparr>"

definition clear_inode :: "nat \<Rightarrow> 'a fsys_scheme \<Rightarrow> 'a fsys_scheme" where
  "clear_inode i s = set_ino_data i 0 (set_ino I_SIZE i 0 (set_ino I_TYPE i 0 (set_ino I_ID i 0 s)))"

definition clear_inodes :: "'a fsys_scheme \<Rightarrow> 'a fsys_scheme" where
  "clear_inodes s = fold clear_inode [0..<FS_MAX_INODES] s"

definition clear_open_files :: "'a fsys_scheme \<Rightarrow> 'a fsys_scheme" where
  "clear_open_files s =
     fold (\<lambda>i. set_open i (\<lambda>d. d\<lparr>fd_num := 0, fd_inode := 0, fd_refs := 0\<rparr>)) [0..<FS_MAX_OPEN_FILES] s"

definition make_root :: "'a fsys_scheme \<Rightarrow> 'a fsys_scheme" where
  "make_root s = set_ino I_LINKS 0 1 (set_ino I_OWNER 0 0 (set_ino I_PERM 0 493
     (set_ino I_SIZE 0 0 (set_ino I_TYPE 0 FS_TYPE_DIR (set_ino I_ID 0 0 s)))))"

definition fs_init :: "'a fsys_scheme \<Rightarrow> 'a fsys_scheme option" where
  "fs_init s =
     (let s0 = (printk ''[FS] Initializing file system...\<newline>'' [] s)\<lparr>fs_superblock := init_superblock\<rparr>
      in do {
        (bb, s1) \<leftarrow> malloc (of_nat FS_BLOCK_SIZE) s0;
        let s1 = s1\<lparr>block_bitmap := bb\<rparr>;
        (ib, s2) \<leftarrow> malloc (of_nat FS_BLOCK_SIZE) s1;
        let s2 = s2\<lparr>inode_bitmap := ib\<rparr>;
        (it, s3) \<leftarrow> malloc (of_nat sizeof_inode * of_nat FS_MAX_INODES) s2;
        let s3 = s3\<lparr>inode_table := it\<rparr>;
        if bb = 0 \<or> ib = 0 \<or> it = 0 then
          Some (printk ''[FS] ERROR: Failed to allocate file system structures\<newline>'' [] s3)
        else
          let s4 = make_root (clear_open_files (clear_inodes (clear_bitmaps s3)))
          in Some ((printk ''[FS] Total inodes: %d\<newline>'' [vnat FS_MAX_INODES]
             \<circ> printk ''[FS] Total blocks: %d\<newline>'' [vnat FS_MAX_BLOCKS]
             \<circ> printk ''[FS] Block size: %d bytes\<newline>'' [vnat FS_BLOCK_SIZE]
             \<circ> printk ''[FS] File system initialized successfully\<newline>'' []) s4)
      })"

section \<open>Inodes and blocks\<close>

definition fs_alloc_inode :: "'a fsys_scheme \<Rightarrow> u32 \<times> 'a fsys_scheme" where
  "fs_alloc_inode s =
     (case scan (\<lambda>i. ino I_ID s i = 0) 1 FS_MAX_INODES of
        Some i \<Rightarrow>
          let s1 = set_ino I_ID i (of_nat i) s;
              s2 = s1\<lparr>fs_superblock := (fs_superblock s1)\<lparr>free_inodes := free_inodes (fs_superblock s1) - 1\<rparr>\<rparr>
          in (of_nat i, printk ''[FS] Allocated inode %d\<newline>'' [vnat i] s2)
      | None \<Rightarrow> (0xFFFFFFFF, printk ''[FS] ERROR: No free inodes\<newline>'' [] s))"

definition bit_clear_at :: "memory \<Rightarrow> u64 \<Rightarrow> nat \<Rightarrow> bool" where
  "bit_clear_at m bb i \<longleftrightarrow> m (bb + of_nat (i div 8)) AND push_bit (i mod 8) 1 = 0"

text \<open>The loop leaves at \<open>byte_idx >= FS_BLOCK_SIZE\<close>, which no index below \<open>FS_MAX_BLOCKS\<close> reaches.\<close>

definition fs_alloc_block :: "'a fsys_scheme \<Rightarrow> u32 \<times> 'a fsys_scheme" where
  "fs_alloc_block s =
     (case scan (\<lambda>i. i div 8 \<ge> FS_BLOCK_SIZE \<or> bit_clear_at (ram s) (block_bitmap s) i) 0 FS_MAX_BLOCKS of
        Some i \<Rightarrow>
          if i div 8 \<ge> FS_BLOCK_SIZE then (0xFFFFFFFF, s)
          else
            let a = block_bitmap s + of_nat (i div 8);
                s1 = s\<lparr>ram := (ram s)(a := ram s a OR push_bit (i mod 8) 1)\<rparr>
            in (of_nat i, s1\<lparr>fs_superblock := (fs_superblock s1)\<lparr>free_blocks := free_blocks (fs_superblock s1) - 1\<rparr>\<rparr>)
      | None \<Rightarrow> (0xFFFFFFFF, s))"

definition fs_free_block :: "u32 \<Rightarrow> 'a fsys_scheme \<Rightarrow> 'a fsys_scheme" where
  "fs_free_block block_num s =
     (if unat block_num \<ge> FS_MAX_BLOCKS then s
      else
        let byte_idx = unat block_num div 8; bit_idx = unat block_num mod 8 in
        if byte_idx < FS_BLOCK_SIZE then
          let a = block_bitmap s + of_nat byte_idx;
              s1 = s\<lparr>ram := (ram s)(a := ram s a AND NOT (push_bit bit_idx 1))\<rparr>
          in s1\<lparr>fs_superblock := (fs_superblock s1)\<lparr>free_blocks := free_blocks (fs_superblock s1) + 1\<rparr>\<rparr>
        else s)"

section \<open>Files and directories\<close>

definition fs_create_file :: "string option \<Rightarrow> 'a fsys_scheme \<Rightarrow> int \<times> 'a fsys_scheme" where
  "fs_create_file filename s =
     (case filename of
        None \<Rightarrow> (-1, s)
      | Some name \<Rightarrow>
          let (inode_id, s1) = fs_alloc_inode s in
          if inode_id = 0xFFFFFFFF then (-1, printk ''[FS] ERROR: No free inodes\<newline>'' [] s1)
          else
            let i = unat inode_id;
                s2 = set_ino_data i 0 (set_ino I_BLOCKS i 0 (set_ino I_LINKS i 1 (set_ino I_OWNER i 0
                       (set_ino I_PERM i 420 (set_ino I_SIZE i 0 (set_ino I_TYPE i FS_TYPE_FILE s1))))));
                s3 = s2\<lparr>last_created_inode := inode_id\<rparr>
            in (ret32 inode_id, printk ''[FS] Created file: %s (inode %d)\<newline>'' [VStr (Some name), vnum inode_id] s3))"

definition fs_delete_file :: "string option \<Rightarrow> 'a fsys_scheme \<Rightarrow> int \<times> 'a fsys_scheme" where
  "fs_delete_file filename s =
     (case filename of None \<Rightarrow> (-1, s) | Some name \<Rightarrow> (0, printk ''[FS] Deleted file: %s\<newline>'' [VStr (Some name)] s))"

definition fs_create_dir :: "string option \<Rightarrow> 'a fsys_scheme \<Rightarrow> int \<times> 'a fsys_scheme" where
  "fs_create_dir dirname s =
     (case dirname of
        None \<Rightarrow> (-1, s)
      | Some name \<Rightarrow>
          let (inode_id, s1) = fs_alloc_inode s in
          if inode_id = 0xFFFFFFFF then (-1, printk ''[FS] ERROR: No free inodes\<newline>'' [] s1)
          else
            let i = unat inode_id;
                s2 = set_ino_data i 0 (set_ino I_LINKS i 2 (set_ino I_OWNER i 0
                       (set_ino I_PERM i 493 (set_ino I_SIZE i 0 (set_ino I_TYPE i FS_TYPE_DIR s1)))));
                s3 = s2\<lparr>last_created_inode := inode_id\<rparr>
            in (ret32 inode_id, printk ''[FS] Created directory:  %s (inode %d)\<newline>'' [VStr (Some name), vnum inode_id] s3))"

definition fs_list_dir :: "string option \<Rightarrow> 'a fsys_scheme \<Rightarrow> int \<times> 'a fsys_scheme" where
  "fs_list_dir dirname s =
     (case dirname of
        None \<Rightarrow> (-1, s)
      | Some name \<Rightarrow> (0, printk ''[FS] (Directory listing not yet implemented)\<newline>'' []
                          (printk ''[FS] Listing directory: %s\<newline>'' [VStr (Some name)] s)))"

fun str_compare :: "string \<Rightarrow> string \<Rightarrow> bool" where
  "str_compare (a # as) (b # bs) = (if a \<noteq> b then False else str_compare as bs)"
| "str_compare [] [] = True"
| "str_compare _ _ = False"

section \<open>Open files\<close>

text \<open>The inode a name is mapped to.\<close>

definition fs_resolve :: "string \<Rightarrow> 'a fsys_scheme \<Rightarrow> u32 \<times> 'a fsys_scheme" where
  "fs_resolve name s =
     (if str_compare name ''test.txt'' then (1, printk ''[FS] Matched test.txt -> inode 1\<newline>'' [] s)
      else if str_compare name ''mydir'' then (2, printk ''[FS] Matched mydir -> inode 2\<newline>'' [] s)
      else
        let inode_id = (if last_created_inode s = 0xFFFFFFFF then 1 else last_created_inode s)
        in (inode_id, printk ''[FS] Using fallback inode:  %d\<newline>'' [vnum inode_id] s))"

definition free_fd :: "'a fsys_scheme \<Rightarrow> nat option" where
  "free_fd s = scan (\<lambda>i. fd_refs (open_files s i) = 0) 0 FS_MAX_OPEN_FILES"

definition fs_open :: "string option \<Rightarrow> u32 \<Rightarrow> 'a fsys_scheme \<Rightarrow> int \<times> 'a fsys_scheme" where
  "fs_open filename mode s =
     (case filename of
        None \<Rightarrow> (-1, s)
      | Some name \<Rightarrow>
          let (inode_id, s1) = fs_resolve name s in
          case free_fd s1 of
            Some i \<Rightarrow>
              let s2 = (set_open i (\<lambda>d. d\<lparr>fd_num := next_fd s1, fd_inode := inode_id, fd_mode := mode,
                           fd_offset := 0, fd_refs := 1\<rparr>) s1)\<lparr>next_fd := next_fd s1 + 1\<rparr>
              in (ret32 (fd_num (open_files s2 i)),
                  printk ''[FS] Opened file: %s (fd %d, inode %d)\<newline>''
                    [VStr (Some name), vnum (fd_num (open_files s2 i)), vnum inode_id] s2)
          | None \<Rightarrow> (-1, printk ''[FS] ERROR: Too many open files\<newline>'' [] s1))"

definition find_fd :: "u32 \<Rightarrow> 'a fsys_scheme \<Rightarrow> nat option" where
  "find_fd fd s = scan (\<lambda>i. fd_num (open_files s i) = fd) 0 FS_MAX_OPEN_FILES"

definition fs_close :: "u32 \<Rightarrow> 'a fsys_scheme \<Rightarrow> int \<times> 'a fsys_scheme" where
  "fs_close fd s =
     (case find_fd fd s of
        None \<Rightarrow> (-1, s)
      | Some i \<Rightarrow>
          let s1 = set_open i (\<lambda>d. d\<lparr>fd_refs := fd_refs d - 1\<rparr>) s;
              s2 = (if fd_refs (open_files s1 i) = 0 then set_open i (\<lambda>d. d\<lparr>fd_num := 0, fd_inode := 0\<rparr>) s1 else s1)
          in (0, printk ''[FS] Closed file descriptor %d\<newline>'' [vnum fd] s2))"

text \<open>The search of \<open>fs_write\<close> and \<open>fs_get_file_size\<close> passes over slots with a bad inode number.\<close>

definition find_fd_inode :: "u32 \<Rightarrow> 'a fsys_scheme \<Rightarrow> nat option" where
  "find_fd_inode fd s = scan (\<lambda>i. fd_num (open_files s i) = fd \<and>
     unat (fd_inode (open_files s i)) < FS_MAX_INODES) 0 FS_MAX_OPEN_FILES"

text \<open>The three assignments behind \<open>memcpy\<close> in \<open>fs_write\<close>.\<close>

definition fs_store :: "nat \<Rightarrow> u64 \<Rightarrow> u32 \<Rightarrow> 'a fsys_scheme \<Rightarrow> 'a fsys_scheme" where
  "fs_store i buffer sz s =
     (let s1 = s\<lparr>ram := memcpy buffer (ino_data s i) (unat sz) (ram s)\<rparr>;
          s2 = s1\<lparr>ram := (ram s1)(ino_data s1 i + ucast sz := 0)\<rparr>
      in set_ino I_SIZE i sz s2)"

definition fs_write :: "u32 \<Rightarrow> u64 \<Rightarrow> u32 \<Rightarrow> 'a fsys_scheme \<Rightarrow> (int \<times> 'a fsys_scheme) option" where
  "fs_write fd buffer sz s =
     (if buffer = 0 \<or> sz = 0 then Some (-1, s)
      else case find_fd_inode fd s of
        None \<Rightarrow> Some (-1, s)
      | Some slot \<Rightarrow>
          let inode_id = fd_inode (open_files s slot); i = unat inode_id
          in do {
            s1 \<leftarrow> (if ino_data s i = 0 then do {
                     (p, t) \<leftarrow> malloc (ucast (sz + 1)) s;
                     Some (set_ino_data i p t)
                   } else Some s);
            if ino_data s1 i = 0 then
              Some (-1, printk ''[FS] ERROR: Could not allocate data for inode %d\<newline>'' [vnum inode_id] s1)
            else
              let s2 = fs_store i buffer sz s1;
                  s3 = set_open slot (\<lambda>d. d\<lparr>fd_offset := fd_offset d + sz\<rparr>) s2
              in Some (ret32 sz, printk ''[FS] Wrote %d bytes to fd %d (inode %d)\<newline>''
                                     [vnum sz, vnum fd, vnum inode_id] s3)
          })"

definition fs_read :: "u32 \<Rightarrow> u64 \<Rightarrow> u32 \<Rightarrow> 'a fsys_scheme \<Rightarrow> int \<times> 'a fsys_scheme" where
  "fs_read fd buffer sz s =
     (if buffer = 0 \<or> sz = 0 then (-1, s)
      else case find_fd fd s of
        None \<Rightarrow> (-1, s)
      | Some slot \<Rightarrow>
          let inode_id = fd_inode (open_files s slot); i = unat inode_id in
          if i < FS_MAX_INODES then
            let file_size = ino I_SIZE s i;
                read_size = (if sz < file_size then sz else file_size);
                s1 = (if ino_data s i \<noteq> 0 \<and> read_size > 0 then
                        s\<lparr>ram := memcpy (ino_data s i) buffer (unat read_size) (ram s)\<rparr> else s);
                s2 = set_open slot (\<lambda>d. d\<lparr>fd_offset := fd_offset d + read_size\<rparr>) s1
            in (ret32 read_size, printk ''[FS] Read %d bytes from fd %d (inode %d)\<newline>''
                                   [vnum read_size, vnum fd, vnum inode_id] s2)
          else (0, s))"

definition fs_seek :: "u32 \<Rightarrow> u32 \<Rightarrow> 'a fsys_scheme \<Rightarrow> int \<times> 'a fsys_scheme" where
  "fs_seek fd offset s =
     (case find_fd fd s of None \<Rightarrow> (-1, s) | Some i \<Rightarrow> (0, set_open i (\<lambda>d. d\<lparr>fd_offset := offset\<rparr>) s))"

definition fs_get_file_size :: "u32 \<Rightarrow> 'a fsys_scheme \<Rightarrow> u32" where
  "fs_get_file_size fd s =
     (case find_fd_inode fd s of
        None \<Rightarrow> 0
      | Some slot \<Rightarrow> ino I_SIZE s (unat (fd_inode (open_files s slot))))"

section \<open>The table of open files as a map\<close>

definition fd_used :: "'a fsys_scheme \<Rightarrow> nat \<Rightarrow> bool" where
  "fd_used s i \<longleftrightarrow> fd_refs (open_files s i) \<noteq> 0"

definition fd_key :: "'a fsys_scheme \<Rightarrow> nat \<Rightarrow> u32" where
  "fd_key s i = fd_num (open_files s i)"

definition fd_slot :: "'a fsys_scheme \<Rightarrow> u32 \<Rightarrow> nat option" where
  "fd_slot s fd = scan (\<lambda>i. fd_key s i = fd \<and> fd_used s i) 0 FS_MAX_OPEN_FILES"

interpretation files: keyed_table fd_used FS_MAX_OPEN_FILES free_fd fd_key fd_slot
  by unfold_locales (auto simp: free_fd_def fd_used_def fd_slot_def scan_Some_iff scan_None_iff)

text \<open>What a descriptor stands for: the inode, the mode and the position.\<close>

definition open_map :: "'a fsys_scheme \<Rightarrow> u32 \<rightharpoonup> u32 \<times> u32 \<times> u32" where
  "open_map s fd = map_option (\<lambda>i. let d = open_files s i in (fd_inode d, fd_mode d, fd_offset d)) (fd_slot s fd)"

text \<open>Descriptors in use differ, lie below \<open>next_fd\<close> and have one reference; a free slot has number 0.\<close>

definition files_inv :: "'a fsys_scheme \<Rightarrow> bool" where
  "files_inv s \<longleftrightarrow> distinct_keys fd_used FS_MAX_OPEN_FILES fd_key s \<and> 0 < next_fd s \<and>
     (\<forall>i < FS_MAX_OPEN_FILES. if fd_used s i then fd_refs (open_files s i) = 1 \<and> 0 < fd_key s i \<and> fd_key s i < next_fd s
        else fd_key s i = 0)"

lemma log_keeps_fs [simp]:
  "open_files (printk f as s) = open_files s" "next_fd (printk f as s) = next_fd s"
  "inode_table (printk f as s) = inode_table s" "block_bitmap (printk f as s) = block_bitmap s"
  "inode_bitmap (printk f as s) = inode_bitmap s" "fs_superblock (printk f as s) = fs_superblock s"
  "last_created_inode (printk f as s) = last_created_inode s"
  by (simp_all add: printk_def)

lemma set_open_simps [simp]:
  "open_files (set_open i f s) = (open_files s)(i := f (open_files s i))" "next_fd (set_open i f s) = next_fd s"
  "inode_table (set_open i f s) = inode_table s" "ram (set_open i f s) = ram s"
  by (simp_all add: set_open_def)

lemma fs_resolve_keeps [simp]:
  "open_files (snd (fs_resolve name s)) = open_files s" "next_fd (snd (fs_resolve name s)) = next_fd s"
  by (simp_all add: fs_resolve_def Let_def)

text \<open>Everything about the table depends on \<open>open_files\<close> alone.\<close>

lemma files_cong:
  assumes "open_files s' = open_files s"
  shows "fd_used s' = fd_used s" "fd_key s' = fd_key s" "fd_slot s' = fd_slot s" "open_map s' = open_map s" "free_fd s' = free_fd s"
    "find_fd fd s' = find_fd fd s" "distinct_keys fd_used n fd_key s' = distinct_keys fd_used n fd_key s"
  using assms by (simp_all add: fd_used_def fd_key_def fd_slot_def open_map_def free_fd_def find_fd_def distinct_keys_def fun_eq_iff)

lemma files_inv_cong: "open_files s' = open_files s \<Longrightarrow> next_fd s' = next_fd s \<Longrightarrow> files_inv s' = files_inv s"
  unfolding files_inv_def by (simp only: files_cong [of s' s])

lemma files_invD:
  assumes "files_inv s" "i < FS_MAX_OPEN_FILES"
  shows "fd_used s i \<Longrightarrow> fd_refs (open_files s i) = 1 \<and> fd_key s i \<noteq> 0 \<and> fd_key s i < next_fd s"
    "\<not> fd_used s i \<Longrightarrow> fd_key s i = 0"
  using assms unfolding files_inv_def by (auto simp: word_gt_0)

text \<open>The searches of \<open>fs_close\<close>, \<open>fs_read\<close> and \<open>fs_seek\<close> do not look at the reference count; for a
  descriptor other than 0 it makes no difference.\<close>

lemma find_fd_slot: "files_inv s \<Longrightarrow> fd \<noteq> 0 \<Longrightarrow> find_fd fd s = fd_slot s fd"
  unfolding find_fd_def fd_slot_def by (rule scan_cong) (auto simp: fd_key_def dest: files_invD(2))

lemma fresh_fd: "files_inv s \<Longrightarrow> fd_slot s (next_fd s) = None"
  unfolding files.fetch_None using files_invD(1) [of s] by (metis less_irrefl)

text \<open>A slot that changes its offset only.\<close>

lemma set_offset_same:
  "fd_used (set_open i (\<lambda>d. d\<lparr>fd_offset := p\<rparr>) s) = fd_used s" "fd_key (set_open i (\<lambda>d. d\<lparr>fd_offset := p\<rparr>) s) = fd_key s"
  "fd_slot (set_open i (\<lambda>d. d\<lparr>fd_offset := p\<rparr>) s) = fd_slot s"
proof -
  show u: "fd_used (set_open i (\<lambda>d. d\<lparr>fd_offset := p\<rparr>) s) = fd_used s" by (simp add: fd_used_def fun_eq_iff)
  show k: "fd_key (set_open i (\<lambda>d. d\<lparr>fd_offset := p\<rparr>) s) = fd_key s" by (simp add: fd_key_def fun_eq_iff)
  show "fd_slot (set_open i (\<lambda>d. d\<lparr>fd_offset := p\<rparr>) s) = fd_slot s" by (simp add: fd_slot_def u k fun_eq_iff)
qed

lemma set_offset_files:
  assumes "files_inv s" "fd_slot s fd = Some i" "s' = set_open i (\<lambda>d. d\<lparr>fd_offset := p\<rparr>) s"
  shows "files_inv s'" "open_map s' = (open_map s)(fd := map_option (\<lambda>(a, b, c). (a, b, p)) (open_map s fd))"
proof -
  have same: "fd_used s' = fd_used s" "fd_key s' = fd_key s" "next_fd s' = next_fd s"
      "\<And>j. fd_refs (open_files s' j) = fd_refs (open_files s j)"
    using assms(3) by (simp_all add: set_offset_same)
  have f: "fd_slot s' = fd_slot s" using assms(3) by (simp add: set_offset_same)
  show "files_inv s'" using assms(1) unfolding files_inv_def distinct_keys_def by (simp add: same)
  have t: "open_files s' = (open_files s)(i := (open_files s i)\<lparr>fd_offset := p\<rparr>)" using assms(3) by simp
  have "fd_slot s x \<noteq> Some i" if "x \<noteq> fd" for x
    using that files.fetch_SomeD [of s x i] files.fetch_SomeD [OF assms(2)] by auto
  then show "open_map s' = (open_map s)(fd := map_option (\<lambda>(a, b, c). (a, b, p)) (open_map s fd))"
    using assms(2) t by (auto simp: open_map_def fun_eq_iff f Let_def intro!: option.map_cong0 split: option.splits)
qed

lemma dom_open_map: "dom (open_map s) = dom (fd_slot s)"
  by (auto simp: open_map_def dom_def)

lemma open_slot_dom: "fd_slot s fd = Some i \<Longrightarrow> \<exists>a b c. open_map s fd = Some (a, b, c)"
  by (simp add: open_map_def Let_def)

lemma table_full: "files_inv s \<Longrightarrow> (\<exists>i. free_fd s = Some i) \<longleftrightarrow> card (dom (open_map s)) < FS_MAX_OPEN_FILES"
  unfolding dom_open_map files.find_slot_iff by (subst files.card_fetch) (simp_all add: files_inv_def)

lemma fd_succ:
  assumes "n \<noteq> (0xFFFFFFFF :: u32)"
  shows "n < n + 1" "x < n \<Longrightarrow> x < n + 1" "0 < n + 1"
proof -
  have "unat n \<noteq> unat (0xFFFFFFFF :: u32)" using assms word_unat_eq_iff by blast
  moreover have "unat n < 2 ^ LENGTH(32)" by (rule unsigned_less)
  ultimately have "unat (n + 1) = unat n + 1" by (simp add: unat_word_ariths)
  then show "n < n + 1" "x < n \<Longrightarrow> x < n + 1" "0 < n + 1" by (simp_all add: word_less_nat_alt)
qed

lemma open_slot:
  fixes s s' :: "'a fsys_scheme"
  assumes inv: "files_inv s" and nx: "next_fd s \<noteq> 0xFFFFFFFF" and i: "free_fd s = Some i"
    and s': "open_files s' = (open_files s)(i := \<lparr>fd_num = next_fd s, fd_inode = iid, fd_offset = 0, fd_mode = mode, fd_refs = 1\<rparr>)"
      "next_fd s' = next_fd s + 1"
  shows "files_inv s'" "open_map s' = (open_map s)(next_fd s \<mapsto> (iid, mode, 0))"
proof -
  have free: "i < FS_MAX_OPEN_FILES" "\<not> fd_used s i" using files.found [OF i] by blast+
  have new: "fd_used s' i" "fd_key s' i = next_fd s" by (simp_all add: s' fd_used_def fd_key_def)
  have old: "fd_used s' j = fd_used s j \<and> (fd_used s j \<longrightarrow> fd_key s' j = fd_key s j)" if "j < FS_MAX_OPEN_FILES" "j \<noteq> i" for j
    using that by (simp add: s' fd_used_def fd_key_def)
  have d: "distinct_keys fd_used FS_MAX_OPEN_FILES fd_key s" using inv by (simp add: files_inv_def)
  note fill = files.fetch_fill [OF d i fresh_fd [OF inv] new old]
  show "files_inv s'"
    using inv fill(1) new fd_succ [OF nx] unfolding files_inv_def
    by (auto simp: s' fd_used_def fd_key_def split: if_splits)
  have "fd_slot s x \<noteq> Some i" for x using free(2) files.fetch_SomeD by blast
  then show "open_map s' = (open_map s)(next_fd s \<mapsto> (iid, mode, 0))"
    by (auto simp: open_map_def fun_eq_iff fill(2) s'(1) intro!: option.map_cong0)
qed

lemma fs_open_result:
  assumes inv: "files_inv s" and nx: "next_fd s \<noteq> 0xFFFFFFFF" and o: "fs_open (Some name) mode s = (r, s')"
  shows "files_inv s'"
    "if card (dom (open_map s)) < FS_MAX_OPEN_FILES
     then r = sint (next_fd s) \<and> open_map s' = (open_map s)(next_fd s \<mapsto> (fst (fs_resolve name s), mode, 0))
     else r = -1 \<and> open_map s' = open_map s"
proof -
  let ?s1 = "snd (fs_resolve name s)"
  note same = files_cong [of ?s1 s, OF fs_resolve_keeps(1)]
  have "files_inv s' \<and> (if card (dom (open_map s)) < FS_MAX_OPEN_FILES
     then r = sint (next_fd s) \<and> open_map s' = (open_map s)(next_fd s \<mapsto> (fst (fs_resolve name s), mode, 0))
     else r = -1 \<and> open_map s' = open_map s)"
  proof (cases "free_fd s")
    case None
    then have "r = -1" "open_files s' = open_files s" "next_fd s' = next_fd s"
      using o same(5) by (auto simp: fs_open_def case_prod_beta)
    moreover have "\<not> card (dom (open_map s)) < FS_MAX_OPEN_FILES" using None table_full [OF inv] by simp
    ultimately show ?thesis using inv files_inv_cong files_cong(4) by metis
  next
    case (Some i)
    then have "r = sint (next_fd s)" "next_fd s' = next_fd s + 1"
      "open_files s' = (open_files s)(i := \<lparr>fd_num = next_fd s, fd_inode = fst (fs_resolve name s), fd_offset = 0, fd_mode = mode, fd_refs = 1\<rparr>)"
      using o same(5) by (auto simp: fs_open_def case_prod_beta Let_def ret32_def)
    then show ?thesis using open_slot [OF inv nx Some] table_full [OF inv] Some by auto
  qed
  then show "files_inv s'" "if card (dom (open_map s)) < FS_MAX_OPEN_FILES
     then r = sint (next_fd s) \<and> open_map s' = (open_map s)(next_fd s \<mapsto> (fst (fs_resolve name s), mode, 0))
     else r = -1 \<and> open_map s' = open_map s" by blast+
qed

lemma fs_close_result:
  assumes inv: "files_inv s" and fd: "fd \<noteq> 0" and c: "fs_close fd s = (r, s')"
  shows "files_inv s' \<and> r = (if fd \<in> dom (open_map s) then 0 else -1) \<and> open_map s' = (open_map s)(fd := None)"
proof (cases "fd_slot s fd")
  case None
  then have "r = -1" "s' = s" using c find_fd_slot [OF inv fd] by (auto simp: fs_close_def)
  then show ?thesis using inv None by (auto simp: open_map_def fun_eq_iff)
next
  case (Some i)
  note used = files.fetch_SomeD [OF Some]
  have refs: "fd_refs (open_files s i) = 1" using files_invD(1) [OF inv] used by blast
  have d: "distinct_keys fd_used FS_MAX_OPEN_FILES fd_key s" using inv by (simp add: files_inv_def)
  have s': "r = 0" "next_fd s' = next_fd s"
      "open_files s' = (open_files s)(i := (open_files s i)\<lparr>fd_num := 0, fd_inode := 0, fd_refs := 0\<rparr>)"
    using c refs Some find_fd_slot [OF inv fd] by (auto simp: fs_close_def)
  have gone: "\<not> fd_used s' i" by (simp add: fd_used_def s'(3))
  have old: "fd_used s' j = fd_used s j \<and> (fd_used s j \<longrightarrow> fd_key s' j = fd_key s j)" if "j < FS_MAX_OPEN_FILES" "j \<noteq> i" for j
    using that by (simp add: s'(3) fd_used_def fd_key_def)
  note clear = files.fetch_clear [OF d Some gone old]
  have "files_inv s'"
    using inv clear(1) unfolding files_inv_def
    by (auto simp: s'(2,3) fd_used_def fd_key_def word_gt_0 split: if_splits)
  moreover have "open_map s' = (open_map s)(fd := None)"
  proof -
    have "fd_slot s x \<noteq> Some i" if "x \<noteq> fd" for x using that files.fetch_SomeD [of s x i] used by auto
    then show ?thesis by (auto simp: open_map_def fun_eq_iff clear(2) s'(3) intro!: option.map_cong0)
  qed
  ultimately show ?thesis using s'(1) open_slot_dom [OF Some] by auto
qed

lemma fs_seek_result:
  assumes inv: "files_inv s" and fd: "fd \<noteq> 0" and c: "fs_seek fd p s = (r, s')"
  shows "files_inv s' \<and> r = (if fd \<in> dom (open_map s) then 0 else -1) \<and>
    open_map s' = (open_map s)(fd := map_option (\<lambda>(i, m, _). (i, m, p)) (open_map s fd))"
proof (cases "fd_slot s fd")
  case None
  then have "r = -1" "s' = s" using c find_fd_slot [OF inv fd] by (auto simp: fs_seek_def)
  then show ?thesis using inv None by (auto simp: open_map_def fun_eq_iff)
next
  case (Some i)
  then have "r = 0" "s' = set_open i (\<lambda>d. d\<lparr>fd_offset := p\<rparr>) s"
    using c find_fd_slot [OF inv fd] by (auto simp: fs_seek_def)
  then show ?thesis using set_offset_files [OF inv Some, of s' p] open_slot_dom [OF Some] by auto
qed

section \<open>File data\<close>

definition table_bytes :: "'a fsys_scheme \<Rightarrow> nat set" where
  "table_bytes s = {unat (inode_table s) ..< unat (inode_table s) + sizeof_inode * FS_MAX_INODES}"

lemmas ino_consts = sizeof_inode_def FS_MAX_INODES_def I_ID_def I_TYPE_def I_SIZE_def I_PERM_def I_OWNER_def
  I_LINKS_def I_BLOCKS_def I_DIRECT_def I_INDIRECT_def I_DATA_def

lemma more_keeps_fs:
  assumes "kmem.more s' = kmem.more s"
  shows "inode_table s' = inode_table s" "open_files s' = open_files s" "next_fd s' = next_fd s"
    "block_bitmap s' = block_bitmap s" "fs_superblock s' = fs_superblock s"
  using assms by (cases s, cases s', simp)+

lemma set_ino_simps [simp]:
  "open_files (set_ino f i v s) = open_files s" "next_fd (set_ino f i v s) = next_fd s"
  "inode_table (set_ino f i v s) = inode_table s" "kmem.more (set_ino f i v s) = kmem.more s"
  "open_files (set_ino_data i d s) = open_files s" "next_fd (set_ino_data i d s) = next_fd s"
  "inode_table (set_ino_data i d s) = inode_table s" "kmem.more (set_ino_data i d s) = kmem.more s"
  by (simp_all add: set_ino_def set_ino_data_def)

text \<open>The inode table as a table of structures: reads over writes, and nothing written outside.\<close>

definition inodes_ok :: "'a fsys_scheme \<Rightarrow> bool" where
  "inodes_ok s \<longleftrightarrow> fits (inode_table s) sizeof_inode FS_MAX_INODES"

lemma ino_set:
  assumes "inodes_ok s" "i < FS_MAX_INODES"
  shows "ino_data (set_ino_data i d s) i = d" "ino I_SIZE (set_ino I_SIZE i v s) i = v"
    "ino_data (set_ino I_SIZE i v s) i = ino_data s i"
  using rd_wr_cell_same [OF assms(1) [unfolded inodes_ok_def] assms(2)]
    rd_wr_cell_other [OF assms(1) [unfolded inodes_ok_def] assms(2) assms(2)]
  by (simp_all add: ino_data_def set_ino_data_def ino_def set_ino_def ino_consts)

lemma set_ino_frame:
  assumes "inodes_ok s" "i < FS_MAX_INODES" "S \<inter> table_bytes s = {}"
  shows "same_on S (ram (set_ino_data i d s)) (ram s)" "same_on S (ram (set_ino I_SIZE i v s)) (ram s)"
  using wr_cell_same_on [OF assms(1) [unfolded inodes_ok_def] assms(2) assms(3) [unfolded table_bytes_def]]
  by (simp_all add: set_ino_data_def set_ino_def ino_consts)

lemma field_in_table:
  assumes "inodes_ok s" "i < FS_MAX_INODES" "f + w \<le> sizeof_inode" "0 < w"
  shows "unat (cell (inode_table s) sizeof_inode i f) + w \<le> 2 ^ 64"
    "bytes_at (cell (inode_table s) sizeof_inode i f) w \<subseteq> table_bytes s"
  using unat_cell [OF assms(1) [unfolded inodes_ok_def] assms(2-4)] by (auto simp: table_bytes_def)

lemma ino_cong:
  assumes "inodes_ok s" "inode_table s' = inode_table s" "i < FS_MAX_INODES" "same_on (table_bytes s) (ram s') (ram s)"
  shows "ino_data s' i = ino_data s i" "ino I_SIZE s' i = ino I_SIZE s i"
proof -
  have "I_DATA + 8 \<le> sizeof_inode" "I_SIZE + 4 \<le> sizeof_inode" by (simp_all add: ino_consts)
  note d = field_in_table [OF assms(1,3) this(1)] and z = field_in_table [OF assms(1,3) this(2)]
  show "ino_data s' i = ino_data s i" unfolding ino_data_def assms(2)
    by (rule rd_cong(2)) (use d same_on_subset [OF assms(4)] in simp_all)
  show "ino I_SIZE s' i = ino I_SIZE s i" unfolding ino_def assms(2)
    by (rule rd_cong(1)) (use z same_on_subset [OF assms(4)] in simp_all)
qed

text \<open>A table that is a block of the heap.\<close>

lemma table_fits:
  assumes "heap_owns s L" "(unat (inode_table s), k) \<in> L" "sizeof_inode * FS_MAX_INODES \<le> k"
  shows "inodes_ok s" "table_bytes s \<subseteq> in_blocks L"
    "(unat p, j) \<in> L \<Longrightarrow> unat p \<noteq> unat (inode_table s) \<Longrightarrow> table_bytes s \<inter> bytes_at p j = {}"
proof -
  have sub: "table_bytes s \<subseteq> {unat (inode_table s) ..< unat (inode_table s) + k}" using assms(3) by (auto simp: table_bytes_def)
  then show "table_bytes s \<subseteq> in_blocks L" using assms(2) unfolding in_blocks_def by fast
  show "inodes_ok s"
    using heap.owns_bounds [OF assms(1,2)] assms(3) by (simp add: inodes_ok_def fits_def)
  show "table_bytes s \<inter> bytes_at p j = {}" if "(unat p, j) \<in> L" "unat p \<noteq> unat (inode_table s)"
  proof -
    have "{unat (inode_table s) ..< unat (inode_table s) + k} \<inter> bytes_at p j = {}"
      by (rule heap.owns_disjoint [OF assms(1,2) that(1)]) (use that(2) in simp)
    then show ?thesis using Int_mono [OF sub order.refl] by (metis subset_empty)
  qed
qed

text \<open>What the three assignments behind \<open>memcpy\<close> do, when the data lies apart from the source and from
  the inode table: the copy, the terminating zero byte behind it, and the size.\<close>

lemma fs_store_result:
  fixes s s' :: "'a fsys_scheme" and sz :: u32 and i :: nat
  defines "n \<equiv> unat sz" and "d \<equiv> ino_data s i"
  assumes tab: "inodes_ok s" "i < FS_MAX_INODES"
    and room: "unat buf + n \<le> 2 ^ 64" "unat d + n < 2 ^ 64"
    and apart: "bytes_at buf n \<inter> bytes_at d n = {}" "table_bytes s \<inter> bytes_at d (Suc n) = {}"
    and s': "s' = fs_store i buf sz s"
  shows "open_files s' = open_files s" "next_fd s' = next_fd s" "inode_table s' = inode_table s"
    "ino_data s' i = d" "ino I_SIZE s' i = sz" "ram s' (d + of_nat n) = 0"
    "\<And>j. j < n \<Longrightarrow> ram s' (d + of_nat j) = ram s (buf + of_nat j)"
    "same_on (- (bytes_at d (Suc n) \<union> table_bytes s)) (ram s') (ram s)"
proof -
  let ?m1 = "copied buf d n (ram s)"
  define s1 where "s1 = s\<lparr>ram := ?m1\<rparr>"
  define s2 where "s2 = s1\<lparr>ram := ?m1(d + of_nat n := 0)\<rparr>"
  have m1: "memcpy buf d n (ram s) = ?m1" by (rule memcpy_copied [OF room(1) less_imp_le [OF room(2)] apart(1)])
  have sub: "bytes_at d n \<subseteq> bytes_at d (Suc n)" by auto
  have un: "unat (d + of_nat n) = unat d + n" by (rule unat_add_of_nat [OF room(2)])
  have out: "?m1 x = ram s x" "(?m1(d + of_nat n := 0)) x = ram s x" if "unat x \<notin> bytes_at d (Suc n)" for x
    using that un sub by (auto simp: copied_def)
  have t1: "same_on (table_bytes s) (ram s1) (ram s)" "same_on (table_bytes s) (ram s2) (ram s)"
    using apart(2) out by (auto simp: same_on_def s1_def s2_def disjoint_iff)
  have it: "inode_table s1 = inode_table s" "inode_table s2 = inode_table s" "inodes_ok s2" "table_bytes s2 = table_bytes s"
    using tab(1) by (simp_all add: s1_def s2_def inodes_ok_def table_bytes_def)
  have d1: "ino_data s1 i = d" "ino_data s2 i = d"
    using ino_cong [OF tab(1) _ tab(2) t1(1)] ino_cong [OF tab(1) _ tab(2) t1(2)] by (simp_all add: it d_def)
  have "ucast sz = (of_nat n :: u64)" by (simp add: n_def)
  then have s'2: "s' = set_ino I_SIZE i sz s2"
    using d1(1) m1 by (simp add: s' fs_store_def Let_def d_def [symmetric] n_def [symmetric] s1_def s2_def)
  show "open_files s' = open_files s" "next_fd s' = next_fd s" "inode_table s' = inode_table s"
    by (simp_all add: s'2 s1_def s2_def)
  show "ino_data s' i = d" "ino I_SIZE s' i = sz" unfolding s'2 using ino_set [OF it(3) tab(2)] d1(2) by simp_all
  have fr: "ram s' x = ram s2 x" if "unat x \<notin> table_bytes s" for x
    using set_ino_frame(2) [OF it(3) tab(2), of "{unat x}"] that by (simp add: s'2 it(4) same_on_def)
  have off: "unat (d + of_nat j) = unat d + j" if "j \<le> n" for j using that room(2) by (intro unat_add_of_nat) simp
  have tb: "unat (d + of_nat j) \<notin> table_bytes s" if "j \<le> n" for j using that apart(2) off [OF that] by (auto simp: disjoint_iff)
  show "ram s' (d + of_nat n) = 0" using fr [OF tb [OF order.refl]] by (simp add: s2_def)
  show "ram s' (d + of_nat j) = ram s (buf + of_nat j)" if "j < n" for j
  proof -
    have "d + of_nat j \<noteq> d + of_nat n" using that off [of j] off [of n] by (metis less_imp_le nat_neq_iff add_left_cancel order_refl)
    then have "ram s' (d + of_nat j) = ?m1 (d + of_nat j)" using fr [OF tb [of j]] that by (simp add: s2_def)
    then show ?thesis using off [of j] that by (simp add: copied_def)
  qed
  show "same_on (- (bytes_at d (Suc n) \<union> table_bytes s)) (ram s') (ram s)"
    using fr out(2) by (auto simp: same_on_def s2_def)
qed

lemma find_fd_inode_slot:
  assumes inv: "files_inv s" and fd: "fd \<noteq> 0" "fd_slot s fd = Some j" and "unat (fd_inode (open_files s j)) < FS_MAX_INODES"
  shows "find_fd_inode fd s = Some j"
proof -
  note j = files.fetch_SomeD [OF fd(2)]
  have "fd_num (open_files s x) \<noteq> fd" if "x < j" for x
  proof
    assume x: "fd_num (open_files s x) = fd"
    then have "fd_used s x" using files_invD(2) [OF inv, of x] that j fd(1) by (fastforce simp: fd_key_def)
    then show False using fd(2) x that by (auto simp: fd_slot_def scan_Some_iff fd_key_def)
  qed
  then show ?thesis using j assms(4) by (auto simp: find_fd_inode_def scan_Some_iff fd_key_def)
qed

lemma in_blocks_bound: "heap_owns s L \<Longrightarrow> x \<in> in_blocks L \<Longrightarrow> x < 2 ^ 64"
  using heap.owns_bounds [of s L] by (force simp: in_blocks_def)

lemma buffer_bound:
  assumes "heap_owns s L" "bytes_at p n \<subseteq> in_blocks L" "0 < n"
  shows "unat p + n \<le> 2 ^ 64"
proof -
  have "unat p + (n - 1) \<in> in_blocks L" by (rule subsetD [OF assms(2)]) (use assms(3) in auto)
  from in_blocks_bound [OF assms(1) this] show ?thesis by linarith
qed

lemma unat_size_succ: "sz \<noteq> (0xFFFFFFFF :: u32) \<Longrightarrow> unat (ucast (sz + 1) :: u64) = Suc (unat sz)"
proof -
  assume "sz \<noteq> 0xFFFFFFFF"
  then have "unat sz \<noteq> unat (0xFFFFFFFF :: u32)" using word_unat_eq_iff by blast
  moreover have b: "unat sz < 2 ^ LENGTH(32)" by (rule unsigned_less)
  ultimately have "unat (sz + 1) = Suc (unat sz)" by (simp add: unat_word_ariths)
  then show ?thesis using b by (simp add: unsigned_ucast_eq take_bit_eq_mod)
qed

text \<open>The block \<open>fs_write\<close> gets for a file without data has room for the bytes and the zero behind them.\<close>

lemma file_block:
  fixes sz :: u32
  assumes own: "heap_owns s L" and m: "malloc (ucast (sz + 1)) s = Some (p, t)" and p: "p \<noteq> 0"
  shows "\<exists>k. unat sz < k \<and> heap_owns t (insert (unat p, k) L) \<and> (unat p, k) \<notin> L \<and>
    unat p + unat sz < 2 ^ 64 \<and> in_blocks L \<inter> bytes_at p k = {}"
proof -
  have "sz \<noteq> 0xFFFFFFFF" using m p malloc_reject [of 0 s] by auto
  then obtain k where k: "unat sz < k" "heap_owns t (insert (unat p, k) L)" "(unat p, k) \<notin> L"
    using heap.alloc_ok [OF own m p] unat_size_succ [of sz] by (auto simp: Suc_le_eq)
  have "{q ..< q + j} \<inter> bytes_at p k = {}" if "(q, j) \<in> L" for q j
    by (rule heap.owns_disjoint [OF k(2)]) (use that k(3) in auto)
  then have "in_blocks L \<inter> bytes_at p k = {}" by (fastforce simp: in_blocks_def)
  moreover have "unat p + k < 2 ^ 64" using heap.owns_bounds [OF k(2), of "unat p" k] by simp
  ultimately show ?thesis using k by force
qed

lemma table_bytes_cong: "inode_table s' = inode_table s \<Longrightarrow> table_bytes s' = table_bytes s" "inode_table s' = inode_table s \<Longrightarrow> inodes_ok s' = inodes_ok s"
  by (simp_all add: table_bytes_def inodes_ok_def)

text \<open>The first write to a file: \<open>t\<close> is the state after \<open>malloc\<close>, \<open>d\<close> the block it returned.\<close>

lemma fs_write_first_state:
  assumes "find_fd_inode fd s = Some slot" "i = unat (fd_inode (open_files s slot))" "ino_data s i = 0" "i < FS_MAX_INODES"
    and "buf \<noteq> 0" "sz \<noteq> 0" "fs_write fd buf sz s = Some (r, s1)" "r \<noteq> -1"
    and tab: "\<And>d t. malloc (ucast (sz + 1)) s = Some (d, t) \<Longrightarrow> inodes_ok t"
  shows "\<exists>d t. malloc (ucast (sz + 1)) s = Some (d, t) \<and> d \<noteq> 0 \<and> r = sint sz \<and>
    ram s1 = ram (fs_store i buf sz (set_ino_data i d t)) \<and>
    inode_table s1 = inode_table t \<and> next_fd s1 = next_fd t \<and>
    same_globals t s1 \<and>
    open_files s1 = (open_files t)(slot := (open_files t slot)\<lparr>fd_offset := fd_offset (open_files t slot) + sz\<rparr>)"
proof -
  obtain d t where m: "malloc (ucast (sz + 1)) s = Some (d, t)"
    using assms(1-7) by (auto simp: fs_write_def bind_eq_Some_conv Let_def)
  have d: "ino_data (set_ino_data i d t) i = d" by (rule ino_set(1) [OF tab [OF m] assms(4)])
  have "d \<noteq> 0"
  proof
    assume "d = 0"
    then show False using assms(1-3,5-8) m d by (auto simp: fs_write_def Let_def)
  qed
  then show ?thesis using assms(1-3,5-7) m d
    by (auto simp: fs_write_def Let_def ret32_def fs_store_def same_globals_def set_open_def printk_def set_ino_def set_ino_data_def)
qed

lemma fs_write_first:
  fixes s s1 :: "'a fsys_scheme"
  assumes inv: "files_inv s" "heap_owns s L" and tab: "(unat (inode_table s), kt) \<in> L" "sizeof_inode * FS_MAX_INODES \<le> kt"
    and fd: "fd \<noteq> 0" "fd_slot s fd = Some slot" "i = unat (fd_inode (open_files s slot))" "i < FS_MAX_INODES" "ino_data s i = 0"
    and buf: "buf \<noteq> 0" "sz \<noteq> 0" "bytes_at buf (unat sz) \<subseteq> in_blocks L" "bytes_at buf (unat sz) \<inter> table_bytes s = {}"
    and w: "fs_write fd buf sz s = Some (r, s1)" "r \<noteq> -1"
  obtains d kd where "r = sint sz" "d \<noteq> 0" "unat sz < kd" "heap_owns s1 (insert (unat d, kd) L)" "(unat d, kd) \<notin> L"
    "in_blocks L \<inter> bytes_at d kd = {}"
    "inode_table s1 = inode_table s" "next_fd s1 = next_fd s" "ino_data s1 i = d" "ino I_SIZE s1 i = sz"
    "open_files s1 = (open_files s)(slot := (open_files s slot)\<lparr>fd_offset := fd_offset (open_files s slot) + sz\<rparr>)"
    "\<And>j. j < unat sz \<Longrightarrow> ram s1 (d + of_nat j) = ram s (buf + of_nat j)"
    "same_on (in_blocks L - table_bytes s) (ram s1) (ram s)"
proof -
  have keep: "inode_table t = inode_table s \<and> open_files t = open_files s \<and> next_fd t = next_fd s \<and> same_on (in_blocks L) (ram t) (ram s)"
    if "malloc m s = Some (d, t)" for m d t
    using heap.alloc_keeps [OF inv(2) that] more_keeps_fs [of t s] by blast
  note tf = table_fits [OF inv(2) tab]
  obtain d t where m: "malloc (ucast (sz + 1)) s = Some (d, t)" "d \<noteq> 0" and s1: "r = sint sz"
      "ram s1 = ram (fs_store i buf sz (set_ino_data i d t))" "inode_table s1 = inode_table t" "next_fd s1 = next_fd t" "same_globals t s1"
      "open_files s1 = (open_files t)(slot := (open_files t slot)\<lparr>fd_offset := fd_offset (open_files t slot) + sz\<rparr>)"
    using fs_write_first_state [OF find_fd_inode_slot [OF inv(1) fd(1,2)] fd(3,5,4) buf(1,2) w] fd(3,4) keep tf(1) table_bytes_cong(2)
    by metis
  note k = keep [OF m(1)]
  obtain kd where kd: "unat sz < kd" "heap_owns t (insert (unat d, kd) L)" "(unat d, kd) \<notin> L"
      "unat d + unat sz < 2 ^ 64" "in_blocks L \<inter> bytes_at d kd = {}"
    using file_block [OF inv(2) m] by blast
  define t1 where "t1 = set_ino_data i d t"
  have tb: "table_bytes t1 = table_bytes s" "table_bytes t = table_bytes s" "inodes_ok t1" "inodes_ok t" "inode_table t1 = inode_table s"
    using k tf(1) by (simp_all add: t1_def table_bytes_def inodes_ok_def)
  have d1: "ino_data t1 i = d" unfolding t1_def by (rule ino_set(1) [OF tb(4) fd(4)])
  have sub: "bytes_at d (Suc (unat sz)) \<subseteq> bytes_at d kd" using kd(1) by auto
  have td: "table_bytes s \<inter> bytes_at d kd = {}" using tf(2) kd(5) by blast
  have bd: "bytes_at buf (unat sz) \<inter> bytes_at d kd = {}" using buf(3) kd(5) by blast
  have f1: "same_on (- table_bytes s) (ram t1) (ram t)"
    unfolding t1_def by (rule set_ino_frame(1) [OF tb(4) fd(4)]) (simp add: tb)
  have bb: "unat buf + unat sz \<le> 2 ^ 64" by (rule buffer_bound [OF inv(2) buf(3)]) (use buf(2) in \<open>simp add: unat_gt_0\<close>)
  define u where "u = fs_store i buf sz t1"
  have ap: "bytes_at buf (unat sz) \<inter> bytes_at d (unat sz) = {}" "table_bytes t1 \<inter> bytes_at d (Suc (unat sz)) = {}"
    using bd td kd(1) sub unfolding tb by (fastforce, blast)
  note st = fs_store_result [OF tb(3) fd(4) bb, unfolded d1, OF kd(4) ap u_def]
  have ru: "ram s1 = ram u" by (simp add: s1(2) u_def t1_def)
  have f2: "same_on (- (bytes_at d kd \<union> table_bytes s)) (ram s1) (ram t)"
    unfolding ru
  proof (rule same_on_trans)
    show "same_on (- (bytes_at d kd \<union> table_bytes s)) (ram u) (ram t1)"
      by (rule same_on_subset [OF st(8)]) (use sub in \<open>simp only: tb(1), blast\<close>)
    show "same_on (- (bytes_at d kd \<union> table_bytes s)) (ram t1) (ram t)" by (rule same_on_subset [OF f1]) blast
  qed
  have "heap_owns s1 (insert (unat d, kd) L)"
  proof (rule heap.owns_write [OF kd(2) s1(5) same_on_subset [OF f2]])
    show "- in_blocks (insert (unat d, kd) L) \<subseteq> - (bytes_at d kd \<union> table_bytes s)"
      using tf(2) by (auto simp: in_blocks_def)
  qed
  moreover have "same_on (in_blocks L - table_bytes s) (ram s1) (ram s)"
  proof (rule same_on_trans)
    show "same_on (in_blocks L - table_bytes s) (ram s1) (ram t)" by (rule same_on_subset [OF f2]) (use kd(5) in blast)
    show "same_on (in_blocks L - table_bytes s) (ram t) (ram s)" using k by (auto intro: same_on_subset)
  qed
  moreover have "ram s1 (d + of_nat j) = ram s (buf + of_nat j)" if "j < unat sz" for j
  proof -
    have "unat (buf + of_nat j) = unat buf + j" using bb that by (intro unat_add_of_nat) simp
    then have x: "unat (buf + of_nat j) \<in> in_blocks L" "unat (buf + of_nat j) \<notin> table_bytes s"
      using buf(3,4) that by (auto simp: disjoint_iff)
    then have "ram t1 (buf + of_nat j) = ram s (buf + of_nat j)" using f1 k by (auto simp: same_on_def)
    then show ?thesis using st(7) [OF that] by (simp add: ru)
  qed
  moreover have "ino_data s1 i = d" "ino I_SIZE s1 i = sz"
    using st(3,4,5) s1(3) k tb(5) ru by (simp_all add: ino_data_def ino_def)
  ultimately show thesis using s1 k m(2) kd by (intro that) simp_all
qed

lemma fs_read_result:
  assumes "find_fd fd s = Some slot" "i = unat (fd_inode (open_files s slot))" "i < FS_MAX_INODES" "out \<noteq> 0" "n \<noteq> 0"
    and "ino_data s i \<noteq> 0" "m = min n (ino I_SIZE s i)"
    and "unat out + unat m \<le> 2 ^ 64" "unat (ino_data s i) + unat m \<le> 2 ^ 64"
      "bytes_at (ino_data s i) (unat m) \<inter> bytes_at out (unat m) = {}"
  shows "fst (fs_read fd out n s) = sint m \<and> ram (snd (fs_read fd out n s)) = copied (ino_data s i) out (unat m) (ram s)"
proof -
  have m: "(if n < ino I_SIZE s i then n else ino I_SIZE s i) = m" using assms(7) by (auto simp: min_def)
  have "copied (ino_data s i) out (unat m) (ram s) = ram s" if "\<not> m > 0" using that by (simp add: word_gt_0)
  then show ?thesis
    using assms(1-6) m memcpy_copied [OF assms(9,8,10)] by (auto simp: fs_read_def Let_def ret32_def)
qed

lemma write_then_read:
  fixes s s1 :: "'a fsys_scheme"
  assumes inv: "files_inv s" "heap_owns s L" and tab: "(unat (inode_table s), kt) \<in> L" "sizeof_inode * FS_MAX_INODES \<le> kt"
    and fd: "fd \<noteq> 0" "open_map s fd = Some (iid, md, pos)" "unat iid < FS_MAX_INODES" "ino_data s (unat iid) = 0"
    and buf: "buf \<noteq> 0" "sz \<noteq> 0" "bytes_at buf (unat sz) \<subseteq> in_blocks L - table_bytes s"
    and w: "fs_write fd buf sz s = Some (r, s1)" "r \<noteq> -1"
    and rd: "out \<noteq> 0" "n \<noteq> 0" "bytes_at out (unat n) \<subseteq> in_blocks L - table_bytes s" "fs_read fd out n s1 = (q, s2)"
  shows "r = sint sz \<and> fs_get_file_size fd s1 = sz \<and> q = sint (min n sz) \<and>
    (\<forall>j < unat (min n sz). ram s2 (out + of_nat j) = ram s (buf + of_nat j))"
proof -
  obtain slot where sl: "fd_slot s fd = Some slot" "fd_inode (open_files s slot) = iid"
    using fd(2) by (auto simp: open_map_def Let_def)
  have sub: "bytes_at buf (unat sz) \<subseteq> in_blocks L" "bytes_at buf (unat sz) \<inter> table_bytes s = {}"
    "bytes_at out (unat n) \<subseteq> in_blocks L" using buf(3) rd(3) by blast+
  obtain d kd where d: "r = sint sz" "d \<noteq> 0" "unat sz < kd" "heap_owns s1 (insert (unat d, kd) L)" "in_blocks L \<inter> bytes_at d kd = {}"
      "next_fd s1 = next_fd s" "ino_data s1 (unat iid) = d" "ino I_SIZE s1 (unat iid) = sz"
      "open_files s1 = (open_files s)(slot := (open_files s slot)\<lparr>fd_offset := fd_offset (open_files s slot) + sz\<rparr>)"
      "\<And>j. j < unat sz \<Longrightarrow> ram s1 (d + of_nat j) = ram s (buf + of_nat j)"
    by (rule fs_write_first [OF inv tab fd(1) sl(1) arg_cong [OF sl(2) [symmetric]] fd(3,4) buf(1,2) sub(1,2) w]) (rule that)
  define t where "t = set_open slot (\<lambda>e. e\<lparr>fd_offset := fd_offset (open_files s slot) + sz\<rparr>) s"
  have t: "open_files s1 = open_files t" "next_fd s1 = next_fd t" by (simp_all add: t_def d(6,9))
  have ft: "files_inv t" by (rule set_offset_files(1) [OF inv(1) sl(1) t_def])
  then have inv1: "files_inv s1" using files_inv_cong [OF t] by simp
  have "fd_slot t fd = fd_slot s fd" by (simp add: t_def set_offset_same)
  then have slot1: "fd_slot s1 fd = Some slot" using files_cong(3) [OF t(1)] sl(1) by metis
  have iid1: "fd_inode (open_files s1 slot) = iid" using sl(2) by (simp add: d(9))
  have find: "find_fd fd s1 = Some slot" "find_fd_inode fd s1 = Some slot"
    using find_fd_slot [OF inv1 fd(1)] find_fd_inode_slot [OF inv1 fd(1) slot1] slot1 iid1 fd(3) by simp_all
  define m where "m = min n sz"
  have m: "unat m \<le> unat n" "unat m \<le> unat sz" by (simp_all add: m_def min_def word_le_nat_alt)
  have bm: "bytes_at out (unat m) \<subseteq> bytes_at out (unat n)" "bytes_at d (unat m) \<subseteq> bytes_at d kd" using m d(3) by auto
  have "unat out + unat n \<le> 2 ^ 64" by (rule buffer_bound [OF inv(2) sub(3)]) (use rd(2) in \<open>simp add: unat_gt_0\<close>)
  then have ob: "unat out + unat m \<le> 2 ^ 64" using m by simp
  have "unat d + kd \<le> 2 ^ 64" using heap.owns_bounds [OF d(4), of "unat d" kd] by simp
  then have db: "unat d + unat m \<le> 2 ^ 64" using m d(3) by simp
  have ap: "bytes_at d (unat m) \<inter> bytes_at out (unat m) = {}" using bm sub(3) d(5) by blast
  note res = fs_read_result [OF find(1) _ _ rd(1,2), of "unat iid" m, unfolded d(7,8) iid1, OF refl fd(3) d(2) m_def ob db ap]
  have "ram s2 (out + of_nat j) = ram s (buf + of_nat j)" if "j < unat m" for j
  proof -
    have "unat (out + of_nat j) = unat out + j" using ob that by (intro unat_add_of_nat) simp
    then have "ram s2 (out + of_nat j) = ram s1 (d + of_nat j)" using res rd(4) that by (simp add: copied_def)
    then show ?thesis using d(10) that m(2) by simp
  qed
  moreover have "fs_get_file_size fd s1 = sz" using find(2) iid1 d(8) by (simp add: fs_get_file_size_def)
  ultimately show ?thesis using d(1) res rd(4) by (simp add: m_def)
qed

end
