(* ===== verification/Mount.thy ===== *)
theory Mount
  imports Fs
begin

text \<open>
  What \<open>fs_init\<close> leaves behind, and the allocation of blocks and inodes of
  \<open>src/src/kernel/fs/fs.c\<close>.

  The lemmas: the clearing loops zero the bitmap and the inode table and touch nothing else, a
  mounted file system has its three heap blocks, no file data and no open file; the block bitmap
  implements a set of blocks and the inode table a set of inodes, and \<open>fs_alloc_block\<close>,
  \<open>fs_free_block\<close> and \<open>fs_alloc_inode\<close> are the operations on these sets. The properties of the
  file system are at the end.
\<close>

section \<open>Clearing loops\<close>

lemma clear_bitmaps_ram:
  assumes "unat (block_bitmap s) + n \<le> 2 ^ 64" "unat (inode_bitmap s) + n \<le> 2 ^ 64"
  shows "fold (\<lambda>i m. m(block_bitmap s + of_nat i := 0, inode_bitmap s + of_nat i := 0)) [0..<n] m x =
    (if unat x \<in> bytes_at (block_bitmap s) n \<union> bytes_at (inode_bitmap s) n then 0 else m x)"
  using assms
proof (induction n)
  case (Suc n)
  have "unat (block_bitmap s + of_nat n) = unat (block_bitmap s) + n" "unat (inode_bitmap s + of_nat n) = unat (inode_bitmap s) + n"
    using Suc.prems by (simp_all add: unat_add_of_nat)
  then have "x = block_bitmap s + of_nat n \<longleftrightarrow> unat x = unat (block_bitmap s) + n"
      "x = inode_bitmap s + of_nat n \<longleftrightarrow> unat x = unat (inode_bitmap s) + n"
    by (simp_all add: word_unat_eq_iff)
  then show ?case using Suc by auto
qed simp

lemma clear_inode_simps [simp]:
  "open_files (clear_inode i s) = open_files s" "next_fd (clear_inode i s) = next_fd s"
  "inode_table (clear_inode i s) = inode_table s" "kmem.more (clear_inode i s) = kmem.more s"
  by (simp_all add: clear_inode_def)

lemma inode_bitmap_more: "kmem.more s' = kmem.more s \<Longrightarrow> inode_bitmap s' = inode_bitmap s"
  by (cases s, cases s', simp)

text \<open>The fields of an inode that a cleared inode has at zero.\<close>

definition blank_inode :: "'a fsys_scheme \<Rightarrow> nat \<Rightarrow> bool" where
  "blank_inode s i \<longleftrightarrow> ino I_ID s i = 0 \<and> ino I_TYPE s i = 0 \<and> ino I_SIZE s i = 0 \<and> ino_data s i = 0"

lemma inodes_ok_set [simp]: "inodes_ok (set_ino f i v s) = inodes_ok s" "inodes_ok (set_ino_data i d s) = inodes_ok s"
  by (simp_all add: inodes_ok_def)

lemma table_bytes_set [simp]: "table_bytes (set_ino f i v s) = table_bytes s" "table_bytes (set_ino_data i d s) = table_bytes s"
  by (simp_all add: table_bytes_def)

text \<open>Reads of one field over writes to another field or another inode.\<close>

lemma ino_set_ino:
  assumes "inodes_ok s" "i < FS_MAX_INODES" "j < FS_MAX_INODES" "4 dvd f" "4 dvd g" "f + 4 \<le> sizeof_inode" "g + 4 \<le> sizeof_inode"
  shows "ino f (set_ino g j v s) i = (if i = j \<and> f = g then v else ino f s i)"
proof (cases "i = j \<and> f = g")
  case False
  then have "i \<noteq> j \<or> f + 4 \<le> g \<or> g + 4 \<le> f" using assms(4,5) by (auto simp: dvd_def)
  then show ?thesis
    using False rd_wr_cell_other(1) [OF assms(1) [unfolded inodes_ok_def] assms(2,3,6,7)]
    by (auto simp: ino_def set_ino_def)
qed (use rd_wr_cell_same(1) [OF assms(1) [unfolded inodes_ok_def] assms(2,6)] in \<open>auto simp: ino_def set_ino_def\<close>)

lemma ino_set_ino_data:
  assumes "inodes_ok s" "i < FS_MAX_INODES" "j < FS_MAX_INODES" "f + 4 \<le> I_DATA"
  shows "ino f (set_ino_data j d s) i = ino f s i"
  using rd_wr_cell_other(2) [OF assms(1) [unfolded inodes_ok_def] assms(2,3), of f I_DATA] assms(4)
  by (simp add: ino_def set_ino_data_def ino_consts)

lemma ino_data_set:
  assumes "inodes_ok s" "i < FS_MAX_INODES" "j < FS_MAX_INODES"
  shows "ino_data (set_ino_data j d s) i = (if i = j then d else ino_data s i)"
    "f + 4 \<le> I_DATA \<Longrightarrow> ino_data (set_ino f j v s) i = ino_data s i"
  using ino_set(1) [OF assms(1,2)] rd_wr_cell_other(3,4) [OF assms(1) [unfolded inodes_ok_def] assms(2,3), of I_DATA]
  by (auto simp: ino_data_def set_ino_def set_ino_data_def ino_consts)

lemma set_ino_frame_any:
  assumes "inodes_ok s" "i < FS_MAX_INODES" "f + 4 \<le> sizeof_inode"
  shows "same_on (- table_bytes s) (ram (set_ino f i v s)) (ram s)"
  using wr_cell_same_on(1) [OF assms(1) [unfolded inodes_ok_def] assms(2) _ assms(3), of "- table_bytes s"]
  by (simp add: set_ino_def table_bytes_def)

lemma set_ino_frame_step:
  assumes "inodes_ok s" "i < FS_MAX_INODES" "f + 4 \<le> sizeof_inode" "table_bytes s = T" "same_on (- T) (ram s) m"
  shows "same_on (- T) (ram (set_ino f i v s)) m"
  using same_on_trans [OF set_ino_frame_any [OF assms(1-3), unfolded assms(4)] assms(5)] .

lemmas field_offsets = sizeof_inode_def I_ID_def I_TYPE_def I_SIZE_def I_PERM_def I_OWNER_def
  I_LINKS_def I_BLOCKS_def I_DIRECT_def I_INDIRECT_def I_DATA_def

lemma same_globals_ram [simp]:
  "same_globals s (set_ino f i v t) = same_globals s t" "same_globals s (set_ino_data i d t) = same_globals s t"
  "same_globals s (set_open i g t) = same_globals s t" "same_globals s (clear_inode i t) = same_globals s t"
  "same_globals s (t\<lparr>ram := m\<rparr>) = same_globals s t"
  by (simp_all add: same_globals_def set_ino_def set_ino_data_def set_open_def clear_inode_def)

text \<open>The inode table while it is cleared.\<close>

definition cleared_upto :: "nat \<Rightarrow> 'a fsys_scheme \<Rightarrow> 'a fsys_scheme \<Rightarrow> bool" where
  "cleared_upto n s s' \<longleftrightarrow> (\<forall>j < n. blank_inode s' j) \<and> same_on (- table_bytes s) (ram s') (ram s) \<and>
     inode_table s' = inode_table s \<and> same_globals s s' \<and> kmem.more s' = kmem.more s"

lemma clear_inode_blank:
  assumes "inodes_ok s" "i < FS_MAX_INODES" "j < FS_MAX_INODES"
  shows "blank_inode (clear_inode i s) j \<longleftrightarrow> i = j \<or> blank_inode s j"
  using assms by (simp add: blank_inode_def clear_inode_def ino_set_ino ino_set_ino_data ino_data_set field_offsets)

lemma clear_inode_frame:
  assumes "inodes_ok s" "i < FS_MAX_INODES"
  shows "same_on (- table_bytes s) (ram (clear_inode i s)) (ram s)"
proof -
  let ?c = "set_ino I_SIZE i 0 (set_ino I_TYPE i 0 (set_ino I_ID i 0 s))"
  have "same_on (- table_bytes s) (ram ?c) (ram s)"
    by (intro set_ino_frame_step assms) (simp_all add: assms field_offsets)
  moreover have "same_on (- table_bytes s) (ram (clear_inode i s)) (ram ?c)"
    unfolding clear_inode_def by (rule set_ino_frame(1)) (use assms in simp_all)
  ultimately show ?thesis by (blast intro: same_on_trans)
qed

lemma clear_inodes_upto: "inodes_ok s \<Longrightarrow> n \<le> FS_MAX_INODES \<Longrightarrow> cleared_upto n s (fold clear_inode [0..<n] s)"
proof (induction n)
  case 0
  then show ?case by (simp add: cleared_upto_def)
next
  case (Suc n)
  let ?t = "fold clear_inode [0..<n] s"
  have t: "cleared_upto n s ?t" using Suc by simp
  then have ok: "inodes_ok ?t" "table_bytes ?t = table_bytes s" using Suc.prems(1) by (simp_all add: cleared_upto_def inodes_ok_def table_bytes_def)
  have "blank_inode (clear_inode n ?t) j" if "j < Suc n" for j
    using clear_inode_blank [OF ok(1), of n j] that t Suc.prems(2) by (auto simp: cleared_upto_def less_Suc_eq)
  moreover have "same_on (- table_bytes s) (ram (clear_inode n ?t)) (ram s)"
    using same_on_trans [OF clear_inode_frame [OF ok(1), of n, unfolded ok(2)]] t Suc.prems(2) by (simp add: cleared_upto_def)
  ultimately show ?case using t by (simp add: cleared_upto_def)
qed

lemma clear_open_files_effect:
  "open_files (clear_open_files s) = (\<lambda>i. if i < FS_MAX_OPEN_FILES then (open_files s i)\<lparr>fd_num := 0, fd_inode := 0, fd_refs := 0\<rparr> else open_files s i)"
  "next_fd (clear_open_files s) = next_fd s" "inode_table (clear_open_files s) = inode_table s" "ram (clear_open_files s) = ram s"
  "same_globals t (clear_open_files s) = same_globals t s" "block_bitmap (clear_open_files s) = block_bitmap s"
  "inode_bitmap (clear_open_files s) = inode_bitmap s" "fs_superblock (clear_open_files s) = fs_superblock s"
proof -
  let ?c = "\<lambda>i. set_open i (\<lambda>d. d\<lparr>fd_num := 0, fd_inode := 0, fd_refs := 0\<rparr>)"
  have "open_files (fold ?c [0..<n] s) = (\<lambda>i. if i < n then (open_files s i)\<lparr>fd_num := 0, fd_inode := 0, fd_refs := 0\<rparr> else open_files s i)" for n
    by (induction n) (auto simp: fun_eq_iff less_Suc_eq)
  then show "open_files (clear_open_files s) = (\<lambda>i. if i < FS_MAX_OPEN_FILES then (open_files s i)\<lparr>fd_num := 0, fd_inode := 0, fd_refs := 0\<rparr> else open_files s i)"
    by (simp add: clear_open_files_def)
  show "same_globals t (clear_open_files s) = same_globals t s"
    unfolding clear_open_files_def by (rule fold_frame [where g = "same_globals t"]) simp
qed (simp_all add: clear_open_files_def fold_frame set_open_def)

lemma make_root_effect:
  assumes ok: "inodes_ok s"
  shows "same_on (- table_bytes s) (ram (make_root s)) (ram s)"
    "j < FS_MAX_INODES \<Longrightarrow> ino_data (make_root s) j = ino_data s j"
    "j < FS_MAX_INODES \<Longrightarrow> ino I_ID (make_root s) j = (if j = 0 then 0 else ino I_ID s j)"
    "open_files (make_root s) = open_files s" "next_fd (make_root s) = next_fd s" "inode_table (make_root s) = inode_table s"
    "block_bitmap (make_root s) = block_bitmap s" "inode_bitmap (make_root s) = inode_bitmap s"
    "fs_superblock (make_root s) = fs_superblock s" "same_globals t (make_root s) = same_globals t s"
proof -
  have z: "(0 :: nat) < FS_MAX_INODES" by (simp add: FS_MAX_INODES_def)
  have g: "I_ID + 4 \<le> sizeof_inode" "I_TYPE + 4 \<le> sizeof_inode" "I_SIZE + 4 \<le> sizeof_inode" "I_PERM + 4 \<le> sizeof_inode"
      "I_OWNER + 4 \<le> sizeof_inode" "I_LINKS + 4 \<le> sizeof_inode" by (simp_all add: field_offsets)
  show "same_on (- table_bytes s) (ram (make_root s)) (ram s)"
    unfolding make_root_def by (intro set_ino_frame_step g z) (simp_all add: ok)
  show "ino_data (make_root s) j = ino_data s j" if "j < FS_MAX_INODES"
    using ok that z by (simp add: make_root_def ino_data_set(2) field_offsets)
  show "ino I_ID (make_root s) j = (if j = 0 then 0 else ino I_ID s j)" if "j < FS_MAX_INODES"
    using ok that z by (simp add: make_root_def ino_set_ino field_offsets)
qed (simp_all add: make_root_def set_ino_def same_globals_def)

section \<open>The block bitmap as a set\<close>

definition used_blocks :: "'a fsys_scheme \<Rightarrow> nat set" where
  "used_blocks s = {i. i < FS_MAX_BLOCKS \<and> \<not> bit_clear_at (ram s) (block_bitmap s) i}"

lemma bit_clear_iff: "bit_clear_at m bb i \<longleftrightarrow> \<not> bit (m (bb + of_nat (i div 8))) (i mod 8)"
proof -
  have "(w AND push_bit k 1 = 0) \<longleftrightarrow> \<not> bit w k" for w :: u8 and k
    by (simp add: push_bit_of_1 and_exp_eq_0_iff_not_bit)
  then show ?thesis unfolding bit_clear_at_def by simp
qed

section \<open>A mounted file system\<close>

text \<open>The state after a successful \<open>fs_init\<close>: nothing is open, no inode is in use or has data, no
  block is in use.\<close>

definition mounted :: "'a fsys_scheme \<Rightarrow> bool" where
  "mounted s \<longleftrightarrow> files_inv s \<and> open_map s = Map.empty \<and> used_blocks s = {} \<and> fs_superblock s = init_superblock \<and>
     (\<forall>i < FS_MAX_INODES. ino I_ID s i = 0 \<and> ino_data s i = 0)"

lemma mounted_printk [simp]: "mounted (printk f as s) = mounted s"
proof -
  have "ino g (printk f as s) = ino g s" "ino_data (printk f as s) = ino_data s" for g by (simp_all add: ino_def ino_data_def fun_eq_iff)
  then show ?thesis using files_inv_cong [of "printk f as s" s] files_cong(4) [of "printk f as s" s]
    by (simp add: mounted_def used_blocks_def)
qed

definition prepared :: "'a fsys_scheme \<Rightarrow> 'a fsys_scheme" where
  "prepared s = make_root (clear_open_files (clear_inodes (clear_bitmaps s)))"

lemma clear_bitmaps_simps [simp]:
  "open_files (clear_bitmaps s) = open_files s" "next_fd (clear_bitmaps s) = next_fd s" "inode_table (clear_bitmaps s) = inode_table s"
  "block_bitmap (clear_bitmaps s) = block_bitmap s" "inode_bitmap (clear_bitmaps s) = inode_bitmap s"
  "fs_superblock (clear_bitmaps s) = fs_superblock s" "same_globals t (clear_bitmaps s) = same_globals t s"
  by (simp_all add: clear_bitmaps_def same_globals_def)

text \<open>What the part of \<open>fs_init\<close> behind the allocations does, on any three disjoint ranges.\<close>

lemma prepared_mounted:
  fixes s :: "'a fsys_scheme"
  assumes ok: "inodes_ok s" and nx: "next_fd s \<noteq> 0" and sb: "fs_superblock s = init_superblock"
    and b: "unat (block_bitmap s) + FS_BLOCK_SIZE \<le> 2 ^ 64" "unat (inode_bitmap s) + FS_BLOCK_SIZE \<le> 2 ^ 64"
    and apart: "bytes_at (block_bitmap s) FS_BLOCK_SIZE \<inter> table_bytes s = {}"
  shows "mounted (prepared s)" "inode_table (prepared s) = inode_table s" "block_bitmap (prepared s) = block_bitmap s"
    "inode_bitmap (prepared s) = inode_bitmap s" "same_globals s (prepared s)"
    "next_fd (prepared s) = next_fd s"
    "same_on (- (table_bytes s \<union> bytes_at (block_bitmap s) FS_BLOCK_SIZE \<union> bytes_at (inode_bitmap s) FS_BLOCK_SIZE)) (ram (prepared s)) (ram s)"
proof -
  define u where "u = clear_bitmaps s"
  define v where "v = clear_inodes u"
  define w where "w = clear_open_files v"
  have p: "prepared s = make_root w" by (simp add: prepared_def u_def v_def w_def)
  have uok: "inodes_ok u" "table_bytes u = table_bytes s" using ok by (simp_all add: u_def inodes_ok_def table_bytes_def)
  have cl: "cleared_upto FS_MAX_INODES u v" unfolding v_def clear_inodes_def by (rule clear_inodes_upto [OF uok(1)]) simp
  then have wok: "inodes_ok w" "table_bytes w = table_bytes s"
    using uok by (simp_all add: w_def cleared_upto_def clear_open_files_effect inodes_ok_def table_bytes_def)
  note mr = make_root_effect [OF wok(1)]
  have more: "block_bitmap v = block_bitmap u" "inode_bitmap v = inode_bitmap u" "fs_superblock v = fs_superblock u" "next_fd v = next_fd u"
    using cl unfolding cleared_upto_def by (metis more_keeps_fs(3,4,5) inode_bitmap_more)+
  have ws: "inode_table w = inode_table s" "block_bitmap w = block_bitmap s" "inode_bitmap w = inode_bitmap s"
      "fs_superblock w = fs_superblock s" "next_fd w = next_fd s" "same_globals s w"
      "open_files w = (\<lambda>i. if i < FS_MAX_OPEN_FILES then (open_files v i)\<lparr>fd_num := 0, fd_inode := 0, fd_refs := 0\<rparr> else open_files v i)"
    using cl more same_globals_trans [of s u v] by (simp_all add: w_def clear_open_files_effect cleared_upto_def u_def)
  show "inode_table (prepared s) = inode_table s" "block_bitmap (prepared s) = block_bitmap s" "inode_bitmap (prepared s) = inode_bitmap s"
    using ws by (simp_all add: p mr)
  show "same_globals s (prepared s)"
    using ws by (simp add: p mr)
  have wv: "ram w = ram v" by (simp add: w_def clear_open_files_effect)
  have out: "ram (prepared s) x = ram u x" if "unat x \<notin> table_bytes s" for x
    using mr(1) cl that uok(2) wok(2) by (simp add: p same_on_def cleared_upto_def wv)
  have ur: "ram u x = (if unat x \<in> bytes_at (block_bitmap s) FS_BLOCK_SIZE \<union> bytes_at (inode_bitmap s) FS_BLOCK_SIZE then 0 else ram s x)" for x
  proof -
    have "ram u = fold (\<lambda>i m. m(block_bitmap s + of_nat i := 0, inode_bitmap s + of_nat i := 0)) [0..<FS_BLOCK_SIZE] (ram s)"
      by (simp add: u_def clear_bitmaps_def)
    then show ?thesis by (simp only: clear_bitmaps_ram [OF b])
  qed
  show "same_on (- (table_bytes s \<union> bytes_at (block_bitmap s) FS_BLOCK_SIZE \<union> bytes_at (inode_bitmap s) FS_BLOCK_SIZE)) (ram (prepared s)) (ram s)"
    using out ur by (auto simp: same_on_def)
  have "bit_clear_at (ram (prepared s)) (block_bitmap s) i" if "i < FS_MAX_BLOCKS" for i
  proof -
    have k: "i div 8 < FS_BLOCK_SIZE" using that by (simp add: FS_MAX_BLOCKS_def FS_BLOCK_SIZE_def)
    then have un: "unat (block_bitmap s + of_nat (i div 8)) = unat (block_bitmap s) + i div 8" using b(1) by (intro unat_add_of_nat) simp
    then have "unat (block_bitmap s + of_nat (i div 8)) \<notin> table_bytes s" using apart k by (auto simp: disjoint_iff)
    from out [OF this] show ?thesis using un k by (simp add: ur bit_clear_at_def)
  qed
  then have blocks: "used_blocks (prepared s) = {}"
    using \<open>block_bitmap (prepared s) = block_bitmap s\<close> by (auto simp: used_blocks_def)
  have wi: "ino I_ID w = ino I_ID v" "ino_data w = ino_data v"
    by (simp_all add: ino_def ino_data_def w_def clear_open_files_effect fun_eq_iff)
  have "ino I_ID w j = 0 \<and> ino_data w j = 0" if "j < FS_MAX_INODES" for j
    using cl that by (simp add: wi cleared_upto_def blank_inode_def)
  then have inodes: "\<forall>i < FS_MAX_INODES. ino I_ID (prepared s) i = 0 \<and> ino_data (prepared s) i = 0" by (simp add: p mr(2,3))
  have free: "\<not> fd_used (prepared s) i \<and> fd_key (prepared s) i = 0" if "i < FS_MAX_OPEN_FILES" for i
    using that ws by (simp add: p mr fd_used_def fd_key_def)
  then have "fd_slot (prepared s) fd = None" for fd by (auto simp: files.fetch_None)
  then have "open_map (prepared s) = Map.empty" by (simp add: open_map_def fun_eq_iff)
  moreover show nf: "next_fd (prepared s) = next_fd s" using ws by (simp add: p mr)
  have "files_inv (prepared s)" using nf free nx by (auto simp: files_inv_def distinct_keys_def word_gt_0)
  moreover have "fs_superblock (prepared s) = init_superblock" using ws sb by (simp add: p mr)
  ultimately show "mounted (prepared s)" using blocks inodes by (simp add: mounted_def)
qed

text \<open>\<open>fs_init\<close> as three allocations and the rest.\<close>

definition fs_start :: "'a fsys_scheme \<Rightarrow> 'a fsys_scheme" where
  "fs_start s = (printk ''[FS] Initializing file system...\<newline>'' [] s)\<lparr>fs_superblock := init_superblock\<rparr>"

definition fs_report :: "'a fsys_scheme \<Rightarrow> 'a fsys_scheme" where
  "fs_report s = printk ''[FS] Total inodes: %d\<newline>'' [vnat FS_MAX_INODES] (printk ''[FS] Total blocks: %d\<newline>'' [vnat FS_MAX_BLOCKS]
     (printk ''[FS] Block size: %d bytes\<newline>'' [vnat FS_BLOCK_SIZE] (printk ''[FS] File system initialized successfully\<newline>'' [] s)))"

lemma fs_init_run:
  assumes "malloc (of_nat FS_BLOCK_SIZE) (fs_start s) = Some (bb, s1)"
    and "malloc (of_nat FS_BLOCK_SIZE) (s1\<lparr>block_bitmap := bb\<rparr>) = Some (ib, s2)"
    and "malloc (of_nat sizeof_inode * of_nat FS_MAX_INODES) (s2\<lparr>inode_bitmap := ib\<rparr>) = Some (it, s3)"
  shows "fs_init s = Some (if bb = 0 \<or> ib = 0 \<or> it = 0
    then printk ''[FS] ERROR: Failed to allocate file system structures\<newline>'' [] (s3\<lparr>inode_table := it\<rparr>)
    else fs_report (prepared (s3\<lparr>inode_table := it\<rparr>)))"
  unfolding fs_init_def Let_def fs_start_def [symmetric] by (simp add: assms prepared_def fs_report_def)

text \<open>\<open>fs_init\<close> returns from every sound heap and owns the blocks it got; when it got all three, the
  file system is mounted.\<close>

lemma fs_init_result:
  fixes s :: "'a fsys_scheme"
  assumes own: "heap_owns s L" and nx: "next_fd s \<noteq> 0"
  shows "\<exists>s' kb ki kt. fs_init s = Some s' \<and>
    heap_owns s' (L \<union> blk (block_bitmap s') kb \<union> blk (inode_bitmap s') ki \<union> blk (inode_table s') kt) \<and>
    (if block_bitmap s' = 0 \<or> inode_bitmap s' = 0 \<or> inode_table s' = 0 then open_files s' = open_files s
     else FS_BLOCK_SIZE \<le> kb \<and> FS_BLOCK_SIZE \<le> ki \<and> sizeof_inode * FS_MAX_INODES \<le> kt \<and> mounted s')"
proof -
  define s0 where "s0 = fs_start s"
  have o0: "heap_owns s0 L"
    unfolding s0_def fs_start_def by (rule heap_owns_cong [OF own]) (simp_all add: same_globals_def)
  obtain bb s1 kb where a1: "malloc (of_nat FS_BLOCK_SIZE) s0 = Some (bb, s1)" "heap_owns s1 (L \<union> blk bb kb)"
      "L \<inter> blk bb kb = {}" "bb \<noteq> 0 \<longrightarrow> FS_BLOCK_SIZE \<le> kb"
    using heap.alloc_blk [OF o0, of "of_nat FS_BLOCK_SIZE"] by (auto simp: FS_BLOCK_SIZE_def)
  define t1 where "t1 = s1\<lparr>block_bitmap := bb\<rparr>"
  have o1: "heap_owns t1 (L \<union> blk bb kb)" unfolding t1_def by (rule heap_owns_cong [OF a1(2)]) (simp_all add: same_globals_def)
  obtain ib s2 ki where a2: "malloc (of_nat FS_BLOCK_SIZE) t1 = Some (ib, s2)" "heap_owns s2 (L \<union> blk bb kb \<union> blk ib ki)"
      "(L \<union> blk bb kb) \<inter> blk ib ki = {}" "ib \<noteq> 0 \<longrightarrow> FS_BLOCK_SIZE \<le> ki"
    using heap.alloc_blk [OF o1, of "of_nat FS_BLOCK_SIZE"] by (auto simp: FS_BLOCK_SIZE_def)
  define t2 where "t2 = s2\<lparr>inode_bitmap := ib\<rparr>"
  have o2: "heap_owns t2 (L \<union> blk bb kb \<union> blk ib ki)" unfolding t2_def by (rule heap_owns_cong [OF a2(2)]) (simp_all add: same_globals_def)
  obtain it s3 kt where a3: "malloc (of_nat sizeof_inode * of_nat FS_MAX_INODES) t2 = Some (it, s3)"
      "heap_owns s3 (L \<union> blk bb kb \<union> blk ib ki \<union> blk it kt)" "(L \<union> blk bb kb \<union> blk ib ki) \<inter> blk it kt = {}"
      "it \<noteq> 0 \<longrightarrow> sizeof_inode * FS_MAX_INODES \<le> kt"
    using heap.alloc_blk [OF o2, of "of_nat sizeof_inode * of_nat FS_MAX_INODES"] by (auto simp: sizeof_inode_def FS_MAX_INODES_def)
  define t3 where "t3 = s3\<lparr>inode_table := it\<rparr>"
  let ?L = "L \<union> blk bb kb \<union> blk ib ki \<union> blk it kt"
  have o3: "heap_owns t3 ?L" unfolding t3_def by (rule heap_owns_cong [OF a3(2)]) (simp_all add: same_globals_def)
  have m: "kmem.more s1 = kmem.more s0" "kmem.more s2 = kmem.more t1" "kmem.more s3 = kmem.more t2"
    using heap.alloc_keeps [OF o0 a1(1)] heap.alloc_keeps [OF o1 a2(1)] heap.alloc_keeps [OF o2 a3(1)] by blast+
  have f: "block_bitmap t3 = bb" "inode_bitmap t3 = ib" "inode_table t3 = it" "next_fd t3 = next_fd s" "fs_superblock t3 = init_superblock"
      "open_files t3 = open_files s"
    using more_keeps_fs [OF m(1)] more_keeps_fs [OF m(2)] more_keeps_fs [OF m(3)] inode_bitmap_more [OF m(3)]
    by (simp_all add: t1_def t2_def t3_def s0_def fs_start_def)
  define r where "r = (if bb = 0 \<or> ib = 0 \<or> it = 0
      then printk ''[FS] ERROR: Failed to allocate file system structures\<newline>'' [] t3 else fs_report (prepared t3))"
  have init: "fs_init s = Some r"
    using fs_init_run [OF a1(1) [unfolded s0_def] a2(1) [unfolded t1_def] a3(1) [unfolded t2_def]] by (simp add: r_def t3_def)
  have "heap_owns r (L \<union> blk (block_bitmap r) kb \<union> blk (inode_bitmap r) ki \<union> blk (inode_table r) kt) \<and>
    (if block_bitmap r = 0 \<or> inode_bitmap r = 0 \<or> inode_table r = 0 then open_files r = open_files s
     else FS_BLOCK_SIZE \<le> kb \<and> FS_BLOCK_SIZE \<le> ki \<and> sizeof_inode * FS_MAX_INODES \<le> kt \<and> mounted r)"
  proof (cases "bb = 0 \<or> ib = 0 \<or> it = 0")
    case True
    then have "r = printk ''[FS] ERROR: Failed to allocate file system structures\<newline>'' [] t3" by (simp add: r_def)
    then show ?thesis using True heap.owns_log(1) [OF o3] f by auto
  next
    case False
    then have nz: "(unat bb, kb) \<in> ?L" "(unat ib, ki) \<in> ?L" "(unat it, kt) \<in> ?L" "FS_BLOCK_SIZE \<le> kb" "FS_BLOCK_SIZE \<le> ki"
        "sizeof_inode * FS_MAX_INODES \<le> kt" "(unat bb, kb) \<noteq> (unat it, kt)"
      using a1(4) a2(4) a3(3,4) by (auto simp: blk_def)
    have ok: "inodes_ok t3" "table_bytes t3 \<subseteq> in_blocks ?L" using table_fits [of t3 ?L kt] o3 nz f by auto
    have sub: "bytes_at bb FS_BLOCK_SIZE \<subseteq> bytes_at bb kb" "bytes_at ib FS_BLOCK_SIZE \<subseteq> bytes_at ib ki" "table_bytes t3 \<subseteq> bytes_at it kt"
      using nz f by (auto simp: table_bytes_def)
    have "bytes_at bb kb \<inter> bytes_at it kt = {}" by (rule heap.owns_disjoint [OF o3 nz(1,3,7)])
    then have apart: "bytes_at bb FS_BLOCK_SIZE \<inter> table_bytes t3 = {}" using Int_mono [OF sub(1,3)] by (metis subset_empty)
    have b: "unat bb + FS_BLOCK_SIZE \<le> 2 ^ 64" "unat ib + FS_BLOCK_SIZE \<le> 2 ^ 64"
      using heap.owns_bounds [OF o3 nz(1)] heap.owns_bounds [OF o3 nz(2)] nz(4,5) by simp_all
    note pm = prepared_mounted [OF ok(1), unfolded f, OF nx refl b apart]
    have "bytes_at bb kb \<subseteq> in_blocks ?L" "bytes_at ib ki \<subseteq> in_blocks ?L"
      using nz(1,2) unfolding in_blocks_def by fast+
    then have "same_on (- in_blocks ?L) (ram (prepared t3)) (ram t3)"
      by (intro same_on_subset [OF pm(7)]) (use sub(1,2) ok(2) in blast)
    from heap.owns_write [OF o3 pm(5) this] have "heap_owns (prepared t3) ?L" .
    then show ?thesis using False nz(4-6) pm(1-4) by (simp add: r_def fs_report_def heap.owns_log)
  qed
  then show ?thesis using init by blast
qed

section \<open>Block allocation\<close>

definition find_block :: "'a fsys_scheme \<Rightarrow> nat option" where
  "find_block s = scan (bit_clear_at (ram s) (block_bitmap s)) 0 FS_MAX_BLOCKS"

interpretation blocks: slot_table "\<lambda>s i. \<not> bit_clear_at (ram s) (block_bitmap s) i" FS_MAX_BLOCKS find_block
  by unfold_locales (auto simp: find_block_def scan_Some_iff scan_None_iff)

lemma fs_alloc_block_find:
  "fs_alloc_block s = (case find_block s of None \<Rightarrow> (0xFFFFFFFF, s)
     | Some i \<Rightarrow> (of_nat i, s\<lparr>ram := (ram s)(block_bitmap s + of_nat (i div 8) := ram s (block_bitmap s + of_nat (i div 8)) OR push_bit (i mod 8) 1),
         fs_superblock := (fs_superblock s)\<lparr>free_blocks := free_blocks (fs_superblock s) - 1\<rparr>\<rparr>))"
proof -
  have low: "i div 8 < FS_BLOCK_SIZE" if "i < FS_MAX_BLOCKS" for i using that by (simp add: FS_MAX_BLOCKS_def FS_BLOCK_SIZE_def)
  then have "scan (\<lambda>i. i div 8 \<ge> FS_BLOCK_SIZE \<or> bit_clear_at (ram s) (block_bitmap s) i) 0 FS_MAX_BLOCKS = find_block s"
    unfolding find_block_def by (intro scan_cong) (metis not_le)
  moreover have "i div 8 < FS_BLOCK_SIZE" if "find_block s = Some i" for i using that low blocks.found by blast
  ultimately show ?thesis unfolding fs_alloc_block_def by (auto simp: Let_def split: option.splits)
qed

text \<open>One byte of the bitmap changes.\<close>

lemma byte_of_block:
  fixes bb :: u64
  assumes "unat bb + FS_BLOCK_SIZE \<le> 2 ^ 64" "i < FS_MAX_BLOCKS" "j < FS_MAX_BLOCKS"
  shows "bb + of_nat (i div 8) = bb + of_nat (j div 8) \<longleftrightarrow> i div 8 = j div 8"
proof -
  have "unat (bb + of_nat (k div 8)) = unat bb + k div 8" if "k < FS_MAX_BLOCKS" for k
    using that assms(1) by (intro unat_add_of_nat) (simp add: FS_MAX_BLOCKS_def FS_BLOCK_SIZE_def)
  then show ?thesis using assms(2,3) by (metis add_left_cancel)
qed

lemma set_block_bit:
  assumes "unat bb + FS_BLOCK_SIZE \<le> 2 ^ 64" "i < FS_MAX_BLOCKS" "j < FS_MAX_BLOCKS"
  defines "a \<equiv> bb + of_nat (i div 8)"
  shows "bit_clear_at (m(a := m a OR push_bit (i mod 8) 1)) bb j \<longleftrightarrow> bit_clear_at m bb j \<and> j \<noteq> i"
    "bit_clear_at (m(a := m a AND NOT (push_bit (i mod 8) 1))) bb j \<longleftrightarrow> bit_clear_at m bb j \<or> j = i"
proof -
  have eq: "j = i \<longleftrightarrow> j div 8 = i div 8 \<and> j mod 8 = i mod 8" by (metis div_mult_mod_eq)
  have "bit (w OR push_bit (i mod 8) 1) (j mod 8) \<longleftrightarrow> bit w (j mod 8) \<or> j mod 8 = i mod 8"
    "bit (w AND NOT (push_bit (i mod 8) 1)) (j mod 8) \<longleftrightarrow> bit w (j mod 8) \<and> j mod 8 \<noteq> i mod 8" for w :: u8
    by (auto simp: bit_simps)
  then show "bit_clear_at (m(a := m a OR push_bit (i mod 8) 1)) bb j \<longleftrightarrow> bit_clear_at m bb j \<and> j \<noteq> i"
    "bit_clear_at (m(a := m a AND NOT (push_bit (i mod 8) 1))) bb j \<longleftrightarrow> bit_clear_at m bb j \<or> j = i"
    using byte_of_block [OF assms(1,3,2)] eq unfolding bit_clear_iff a_def by auto
qed

lemma fs_alloc_block_result:
  assumes "unat (block_bitmap s) + FS_BLOCK_SIZE \<le> 2 ^ 64"
  shows "if used_blocks s = {..<FS_MAX_BLOCKS} then fs_alloc_block s = (0xFFFFFFFF, s)
    else \<exists>i s'. fs_alloc_block s = (of_nat i, s') \<and> i < FS_MAX_BLOCKS \<and> i \<notin> used_blocks s \<and> {..<i} \<subseteq> used_blocks s \<and>
      used_blocks s' = insert i (used_blocks s) \<and> free_blocks (fs_superblock s') = free_blocks (fs_superblock s) - 1 \<and>
      block_bitmap s' = block_bitmap s"
proof (cases "find_block s")
  case None
  then have "used_blocks s = {..<FS_MAX_BLOCKS}" using blocks.full by (auto simp: used_blocks_def)
  then show ?thesis using None by (simp add: fs_alloc_block_find)
next
  case (Some i)
  note i = blocks.found [OF Some]
  then have "i \<notin> used_blocks s" "{..<i} \<subseteq> used_blocks s" by (auto simp: used_blocks_def)
  then show ?thesis using i Some set_block_bit(1) [OF assms]
    by (auto simp: fs_alloc_block_find used_blocks_def intro!: exI [of _ i])
qed

lemma fs_free_block_result:
  assumes "unat (block_bitmap s) + FS_BLOCK_SIZE \<le> 2 ^ 64" "unat b < FS_MAX_BLOCKS"
  shows "used_blocks (fs_free_block b s) = used_blocks s - {unat b}"
    "free_blocks (fs_superblock (fs_free_block b s)) = free_blocks (fs_superblock s) + 1"
proof -
  have "unat b div 8 < FS_BLOCK_SIZE" using assms(2) by (simp add: FS_MAX_BLOCKS_def FS_BLOCK_SIZE_def)
  then have e: "fs_free_block b s = s\<lparr>ram := (ram s)(block_bitmap s + of_nat (unat b div 8) :=
        ram s (block_bitmap s + of_nat (unat b div 8)) AND NOT (push_bit (unat b mod 8) 1)),
      fs_superblock := (fs_superblock s)\<lparr>free_blocks := free_blocks (fs_superblock s) + 1\<rparr>\<rparr>"
    using assms(2) by (simp add: fs_free_block_def Let_def)
  show "used_blocks (fs_free_block b s) = used_blocks s - {unat b}"
    using set_block_bit(2) [OF assms] by (auto simp: e used_blocks_def)
  show "free_blocks (fs_superblock (fs_free_block b s)) = free_blocks (fs_superblock s) + 1" by (simp add: e)
qed

section \<open>Inode allocation\<close>

definition used_inodes :: "'a fsys_scheme \<Rightarrow> nat set" where
  "used_inodes s = {i. 1 \<le> i \<and> i < FS_MAX_INODES \<and> ino I_ID s i \<noteq> 0}"

definition find_inode :: "'a fsys_scheme \<Rightarrow> nat option" where
  "find_inode s = scan (\<lambda>i. ino I_ID s i = 0) 1 FS_MAX_INODES"

text \<open>Inode 0 is the root and is never handed out.\<close>

interpretation inodes: slot_table "\<lambda>s i. i = 0 \<or> ino I_ID s i \<noteq> 0" FS_MAX_INODES find_inode
proof
  fix s :: "'a fsys_scheme" and i
  assume "find_inode s = Some i"
  then have "1 \<le> i \<and> i < FS_MAX_INODES \<and> ino I_ID s i = 0 \<and> (\<forall>j. 1 \<le> j \<longrightarrow> j < i \<longrightarrow> ino I_ID s j \<noteq> 0)"
    unfolding find_inode_def scan_Some_iff .
  then show "i < FS_MAX_INODES \<and> \<not> (i = 0 \<or> ino I_ID s i \<noteq> 0) \<and> (\<forall>j < i. j = 0 \<or> ino I_ID s j \<noteq> 0)" by auto
next
  fix s :: "'a fsys_scheme" and i
  assume "find_inode s = None" "i < FS_MAX_INODES"
  then show "i = 0 \<or> ino I_ID s i \<noteq> 0" unfolding find_inode_def scan_None_iff by (cases i) auto
qed

text \<open>A new file or directory: the inode that \<open>i\<close> becomes, and every other inode as before.\<close>

definition fresh_inode :: "nat \<Rightarrow> u32 \<Rightarrow> u32 \<Rightarrow> 'a fsys_scheme \<Rightarrow> 'a fsys_scheme \<Rightarrow> bool" where
  "fresh_inode i type links s s' \<longleftrightarrow>
     ino I_ID s' i = of_nat i \<and> ino I_TYPE s' i = type \<and> ino I_SIZE s' i = 0 \<and> ino I_LINKS s' i = links \<and> ino_data s' i = 0 \<and>
     (\<forall>j < FS_MAX_INODES. j \<noteq> i \<longrightarrow> (\<forall>f \<in> {I_ID, I_TYPE, I_SIZE, I_LINKS}. ino f s' j = ino f s j) \<and> ino_data s' j = ino_data s j) \<and>
     same_on (- table_bytes s) (ram s') (ram s) \<and> last_created_inode s' = of_nat i \<and> inode_table s' = inode_table s \<and>
     open_files s' = open_files s \<and> next_fd s' = next_fd s \<and> same_globals s s'"

lemma set_superblock_simps [simp]:
  "ino f (s\<lparr>fs_superblock := sb\<rparr>) i = ino f s i" "ino_data (s\<lparr>fs_superblock := sb\<rparr>) i = ino_data s i"
  "inodes_ok (s\<lparr>fs_superblock := sb\<rparr>) = inodes_ok s" "table_bytes (s\<lparr>fs_superblock := sb\<rparr>) = table_bytes s"
  "ino f (s\<lparr>last_created_inode := n\<rparr>) i = ino f s i" "ino_data (s\<lparr>last_created_inode := n\<rparr>) i = ino_data s i"
  "ino f (printk g as s) i = ino f s i" "ino_data (printk g as s) i = ino_data s i" "inodes_ok (printk g as s) = inodes_ok s"
  "table_bytes (printk g as s) = table_bytes s"
  by (simp_all add: ino_def ino_data_def inodes_ok_def table_bytes_def)

lemma fs_alloc_inode_result:
  assumes "inodes_ok s"
  shows "case find_inode s of None \<Rightarrow> fst (fs_alloc_inode s) = 0xFFFFFFFF \<and> (\<forall>f i. ino f (snd (fs_alloc_inode s)) i = ino f s i)
    | Some i \<Rightarrow> fs_alloc_inode s = (of_nat i, printk ''[FS] Allocated inode %d\<newline>'' [vnat i]
        ((set_ino I_ID i (of_nat i) s)\<lparr>fs_superblock := (fs_superblock s)\<lparr>free_inodes := free_inodes (fs_superblock s) - 1\<rparr>\<rparr>))"
  by (auto simp: fs_alloc_inode_def find_inode_def Let_def set_ino_def split: option.splits)

lemma inode_number: "i < FS_MAX_INODES \<Longrightarrow> unat (of_nat i :: u32) = i \<and> (of_nat i :: u32) \<noteq> 0xFFFFFFFF \<and> sint (of_nat i :: u32) = int i"
proof -
  assume "i < FS_MAX_INODES"
  then have i: "i < 2048" by (simp add: FS_MAX_INODES_def)
  then have u: "unat (of_nat i :: u32) = i" by (simp add: unat_of_nat)
  have "(of_nat i :: u32) \<noteq> 0xFFFFFFFF"
  proof
    assume "(of_nat i :: u32) = 0xFFFFFFFF"
    then have "unat (of_nat i :: u32) = 0xFFFFFFFF" by simp
    then show False using u i by simp
  qed
  moreover have "sint (of_nat i :: u32) = int i"
    using i by (simp add: sint_uint uint_nat u signed_take_bit_int_eq_self)
  ultimately show ?thesis using u by blast
qed

text \<open>The assignments that \<open>fs_create_file\<close> and \<open>fs_create_dir\<close> share, in the order of the code.\<close>

lemma fill_inode:
  fixes s :: "'a fsys_scheme"
  assumes ok: "inodes_ok s" and i: "i < FS_MAX_INODES"
    and t: "t = (set_ino I_ID i (of_nat i) s)\<lparr>fs_superblock := sb\<rparr>"
    and v: "v = set_ino I_LINKS i links (set_ino I_OWNER i own (set_ino I_PERM i perm (set_ino I_SIZE i 0 (set_ino I_TYPE i type t))))"
    and u: "u = set_ino_data i 0 v \<or> u = set_ino_data i 0 (set_ino I_BLOCKS i 0 v)"
  shows "fresh_inode i type links s (printk f as (u\<lparr>last_created_inode := of_nat i\<rparr>))"
proof -
  have tok: "inodes_ok t" "inode_table t = inode_table s" "table_bytes t = table_bytes s" using ok by (simp_all add: t)
  have ti: "ino g t j = (if j = i \<and> g = I_ID then of_nat i else ino g s j)" if "j < FS_MAX_INODES" "4 dvd g" "g + 4 \<le> sizeof_inode" for g j
    using ino_set_ino [OF ok that(1) i that(2) _ that(3), of I_ID] by (auto simp: t field_offsets)
  have td: "ino_data t j = ino_data s j" if "j < FS_MAX_INODES" for j
    using ino_data_set(2) [OF ok that i] by (simp add: t field_offsets)
  have ui: "ino g u j = (if j = i \<and> g = I_LINKS then links else if j = i \<and> g = I_SIZE then 0 else if j = i \<and> g = I_TYPE then type else ino g t j)"
    if "j < FS_MAX_INODES" "g \<in> {I_ID, I_TYPE, I_SIZE, I_LINKS}" for g j
    using that i tok(1) u by (auto simp: v ino_set_ino ino_set_ino_data field_offsets)
  have ud: "ino_data u j = (if j = i then 0 else ino_data t j)" if "j < FS_MAX_INODES" for j
    using that i tok(1) u by (auto simp: v ino_data_set field_offsets)
  have "same_on (- table_bytes s) (ram u) (ram s)"
  proof -
    have "same_on (- table_bytes s) (ram t) (ram s)"
      using set_ino_frame_any [OF ok i, of I_ID] by (simp add: t field_offsets)
    then have sv: "same_on (- table_bytes s) (ram v) (ram s)"
      using tok unfolding v by (intro set_ino_frame_step i) (simp_all add: field_offsets)
    have vok: "inodes_ok v" "table_bytes v = table_bytes s" using tok by (simp_all add: v)
    have sb: "same_on (- table_bytes s) (ram (set_ino I_BLOCKS i 0 v)) (ram s)"
      by (rule set_ino_frame_step [OF vok(1) i _ vok(2) sv]) (simp add: field_offsets)
    obtain w where w: "u = set_ino_data i 0 w" "w = v \<or> w = set_ino I_BLOCKS i 0 v" using u by blast
    have wok: "inodes_ok w" "table_bytes w = table_bytes s" "same_on (- table_bytes s) (ram w) (ram s)"
      by (rule disjE [OF w(2)]; simp only: vok sv sb inodes_ok_set table_bytes_set)+
    have "same_on (- table_bytes s) (ram u) (ram w)"
      unfolding w(1) by (rule set_ino_frame(1) [OF wok(1) i]) (simp add: wok(2))
    then show ?thesis using wok(3) by (rule same_on_trans)
  qed
  moreover have "same_globals s u \<and> open_files u = open_files s \<and> next_fd u = next_fd s \<and> inode_table u = inode_table s"
  proof -
    have g: "same_globals s t" "open_files t = open_files s" "next_fd t = next_fd s" "inode_table t = inode_table s"
      by (simp_all add: t same_globals_def set_ino_def)
    then have "same_globals s v" "open_files v = open_files s" "next_fd v = next_fd s" "inode_table v = inode_table s"
      by (simp_all add: v)
    then show ?thesis using u by (elim disjE) simp_all
  qed
  ultimately show ?thesis
    using i ui ud ti td unfolding fresh_inode_def by (auto simp: same_globals_def field_offsets)
qed

lemma fs_create_result:
  fixes s :: "'a fsys_scheme"
  assumes ok: "inodes_ok s"
    and "(create, type, links) \<in> {(fs_create_file (Some name), FS_TYPE_FILE, 1), (fs_create_dir (Some name), FS_TYPE_DIR, 2)}"
  shows "case find_inode s of None \<Rightarrow> fst (create s) = -1 \<and> used_inodes (snd (create s)) = used_inodes s
    | Some i \<Rightarrow> fst (create s) = int i \<and> fresh_inode i type links s (snd (create s))"
proof (cases "find_inode s")
  case None
  then have "fst (create s) = -1" "ino I_ID (snd (create s)) j = ino I_ID s j" for j
    using assms(2) fs_alloc_inode_result [OF ok] by (auto simp: fs_create_file_def fs_create_dir_def Let_def case_prod_beta)
  then show ?thesis using None by (simp add: used_inodes_def)
next
  case (Some i)
  then have i: "i < FS_MAX_INODES" using inodes.found by blast
  note n = inode_number [OF i]
  let ?t = "(set_ino I_ID i (of_nat i) s)\<lparr>fs_superblock := (fs_superblock s)\<lparr>free_inodes := free_inodes (fs_superblock s) - 1\<rparr>\<rparr>"
  have a: "fs_alloc_inode s = (of_nat i, printk ''[FS] Allocated inode %d\<newline>'' [vnat i] ?t)"
    using fs_alloc_inode_result [OF ok] Some by simp
  have p: "set_ino f j v (printk g as u) = printk g as (set_ino f j v u)" "set_ino_data j d (printk g as u) = printk g as (set_ino_data j d u)"
    "(printk g as u)\<lparr>last_created_inode := k\<rparr> = printk g as (u\<lparr>last_created_inode := k\<rparr>)" for f j v g as d k and u :: "'a fsys_scheme"
    by (simp_all add: set_ino_def set_ino_data_def printk_def)
  have log: "fresh_inode i ty l s (printk g as u) = fresh_inode i ty l s u" for ty l g as and u :: "'a fsys_scheme"
    by (simp add: fresh_inode_def same_globals_def)
  note fill = fill_inode [OF ok i refl refl disjI1 [OF refl]] fill_inode [OF ok i refl refl disjI2 [OF refl]]
  show ?thesis
    using assms(2) Some n fill
    by (auto simp: fs_create_file_def fs_create_dir_def Let_def a p log ret32_def)
qed

lemma fresh_inode_used:
  assumes "find_inode s = Some i" "fresh_inode i type links s s'"
  shows "used_inodes s' = insert i (used_inodes s)" "i \<notin> used_inodes s" "{1..<i} \<subseteq> used_inodes s" "1 \<le> i" "i < FS_MAX_INODES"
proof -
  note f = inodes.found [OF assms(1)]
  then show "i < FS_MAX_INODES" "1 \<le> i" "i \<notin> used_inodes s" by (auto simp: used_inodes_def)
  then have "(of_nat i :: u32) \<noteq> 0" using inode_number [of i] by auto
  then show "used_inodes s' = insert i (used_inodes s)" using assms(2) f
    by (auto simp: used_inodes_def fresh_inode_def)
  have "ino I_ID s j \<noteq> 0" if "1 \<le> j" "j < i" for j using f that by auto
  then show "{1..<i} \<subseteq> used_inodes s" using \<open>i < FS_MAX_INODES\<close> by (auto simp: used_inodes_def)
qed

lemma find_inode_None: "find_inode s = None \<longleftrightarrow> used_inodes s = {1..<FS_MAX_INODES}"
proof
  assume "find_inode s = None"
  then show "used_inodes s = {1..<FS_MAX_INODES}" using inodes.full [of s] by (force simp: used_inodes_def)
next
  assume u: "used_inodes s = {1..<FS_MAX_INODES}"
  show "find_inode s = None"
  proof (cases "find_inode s")
    case (Some i)
    then have "1 \<le> i \<and> i < FS_MAX_INODES \<and> ino I_ID s i = 0" using inodes.found [OF Some] by auto
    then have "i \<in> {1..<FS_MAX_INODES}" "i \<notin> used_inodes s" by (auto simp: used_inodes_def)
    then show ?thesis using u by blast
  qed simp
qed

section \<open>A file system on the smallest heap\<close>

text \<open>One usable page, nothing allocated, the static variables of \<open>fs.c\<close> as the loader leaves them.\<close>

definition unmounted :: fsys where
  "unmounted = kmem.extend one_page \<lparr>g_procs = (\<lambda>_. \<lparr>pid = 0, state = PROC_UNUSED,
       ctx = fresh_context 0 0 0 0, stack = 0, stack_size = 0\<rparr>),
     g_current = -1, g_next_pid = 1, g_last_switch_ticks = 0, g_scheduler_started = False,
     cpu = fresh_context 0 0 0 0,
     fs_superblock = \<lparr>block_size = 0, total_blocks = 0, total_inodes = 0, free_blocks = 0, free_inodes = 0,
       block_bitmap_start = 0, inode_bitmap_start = 0, inode_table_start = 0, data_blocks_start = 0\<rparr>,
     inode_table = 0, block_bitmap = 0, inode_bitmap = 0,
     open_files = (\<lambda>_. \<lparr>fd_num = 0, fd_inode = 0, fd_offset = 0, fd_mode = 0, fd_refs = 0\<rparr>),
     next_fd = 1, last_created_inode = 0xFFFFFFFF\<rparr>"

lemma unmounted_heap: "heap_inv unmounted 0xffff800000200000 [0xffff800000000000] []" "next_fd unmounted = 1"
  unfolding unmounted_def by (rule heap_inv_extend [OF one_page_heap]) (simp add: kmem.extend_def)

text \<open>A call of \<open>malloc\<close> computed with the specification of first fit.\<close>

lemma malloc_first_fit:
  fixes s :: "'a kmem_scheme"
  assumes "heap_inv s base ps bs" "n \<noteq> 0" "n \<le> max_allowed" "amalloc (round8 (unat n)) base (length ps, bs) = (Some p, np', bs')"
  shows "\<exists>s' ps'. malloc n s = Some (of_nat p, s') \<and> length ps' = np' \<and> heap_inv s' base ps' bs' \<and> kmem.more s' = kmem.more s"
proof -
  have "heap_owns s (live base bs)" using assms(1) unfolding heap_owns_def by blast
  then show ?thesis
    using malloc_refines [OF assms] heap.alloc_keeps [of s "live base bs" n] unfolding heap_step_def ptr_of_def by fastforce
qed

lemma heap_inv_update:
  fixes s s' :: "'a kmem_scheme"
  shows "heap_inv s base ps bs \<Longrightarrow> same_globals s s' \<Longrightarrow> ram s' = ram s \<Longrightarrow> heap_inv s' base ps bs"
  by (erule heap_inv_cong) simp_all

lemma three_blocks:
  "amalloc (round8 (unat (4096 :: u64))) 0xffff800000200000 (1, []) = (Some 0xffff800000200018, 0, [(4096, False), (2093008, True)])"
  "amalloc (round8 (unat (4096 :: u64))) 0xffff800000200000 (0, [(4096, False), (2093008, True)])
    = (Some 0xffff800000201030, 0, [(4096, False), (4096, False), (2088888, True)])"
  "amalloc (round8 (unat (104 * 2048 :: u64))) 0xffff800000200000 (0, [(4096, False), (4096, False), (2088888, True)])
    = (Some 0xffff800000202048, 0, [(4096, False), (4096, False), (212992, False), (1875872, True)])"
  by (simp_all add: amalloc_def aopen_def awalk_def round8_def carve_def)

lemma mounted_small:
  "\<exists>s. fs_init unmounted = Some s \<and> mounted s \<and> block_bitmap s = 0xffff800000200018 \<and> inode_bitmap s = 0xffff800000201030 \<and>
    inode_table s = 0xffff800000202048 \<and> next_fd s = 1 \<and>
    heap_inv s 0xffff800000200000 [] [(4096, False), (4096, False), (212992, False), (1875872, True)]"
proof -
  have big: "(4096 :: u64) \<le> max_allowed" "(104 * 2048 :: u64) \<le> max_allowed" by (simp_all add: max_allowed_def sizeof_header_def)
  have "heap_inv (fs_start unmounted) 0xffff800000200000 [0xffff800000000000] []"
    by (rule heap_inv_update [OF unmounted_heap(1)]) (simp_all add: fs_start_def same_globals_def)
  from malloc_first_fit [OF this _ big(1)] obtain s1 where s1: "malloc 4096 (fs_start unmounted) = Some (0xffff800000200018, s1)"
      "heap_inv s1 0xffff800000200000 [] [(4096, False), (2093008, True)]" "kmem.more s1 = kmem.more (fs_start unmounted)"
    using three_blocks(1) by fastforce
  let ?t1 = "s1\<lparr>block_bitmap := 0xffff800000200018\<rparr>"
  have "heap_inv ?t1 0xffff800000200000 [] [(4096, False), (2093008, True)]"
    by (rule heap_inv_update [OF s1(2)]) (simp_all add: same_globals_def)
  from malloc_first_fit [OF this _ big(1)] obtain s2 where s2: "malloc 4096 ?t1 = Some (0xffff800000201030, s2)"
      "heap_inv s2 0xffff800000200000 [] [(4096, False), (4096, False), (2088888, True)]" "kmem.more s2 = kmem.more ?t1"
    using three_blocks(2) by fastforce
  let ?t2 = "s2\<lparr>inode_bitmap := 0xffff800000201030\<rparr>"
  have "heap_inv ?t2 0xffff800000200000 [] [(4096, False), (4096, False), (2088888, True)]"
    by (rule heap_inv_update [OF s2(2)]) (simp_all add: same_globals_def)
  from malloc_first_fit [OF this _ big(2)] obtain s3 where s3: "malloc (104 * 2048) ?t2 = Some (0xffff800000202048, s3)"
      "heap_inv s3 0xffff800000200000 [] [(4096, False), (4096, False), (212992, False), (1875872, True)]" "kmem.more s3 = kmem.more ?t2"
    using three_blocks(3) by fastforce
  let ?t3 = "s3\<lparr>inode_table := 0xffff800000202048\<rparr>"
  have i3: "heap_inv ?t3 0xffff800000200000 [] [(4096, False), (4096, False), (212992, False), (1875872, True)]"
    by (rule heap_inv_update [OF s3(2)]) (simp_all add: same_globals_def)
  have f: "block_bitmap ?t3 = 0xffff800000200018" "inode_bitmap ?t3 = 0xffff800000201030" "next_fd ?t3 = 1" "fs_superblock ?t3 = init_superblock"
    using more_keeps_fs [OF s1(3)] more_keeps_fs [OF s2(3)] more_keeps_fs [OF s3(3)] inode_bitmap_more [OF s3(3)] unmounted_heap(2)
    by (simp_all add: fs_start_def)
  have tb: "table_bytes ?t3 = {0xffff800000202048 ..< 0xffff800000202048 + 212992}" "inodes_ok ?t3"
    by (simp_all add: table_bytes_def inodes_ok_def fits_def sizeof_inode_def FS_MAX_INODES_def)
  have pm: "mounted (prepared ?t3)" "inode_table (prepared ?t3) = 0xffff800000202048" "block_bitmap (prepared ?t3) = 0xffff800000200018"
      "inode_bitmap (prepared ?t3) = 0xffff800000201030" "same_globals ?t3 (prepared ?t3)" "next_fd (prepared ?t3) = 1"
      "same_on (- ({0xffff800000202048 ..< 0xffff800000202048 + 212992} \<union> {0xffff800000200018 ..< 0xffff800000200018 + 4096} \<union>
         {0xffff800000201030 ..< 0xffff800000201030 + 4096})) (ram (prepared ?t3)) (ram ?t3)"
    using prepared_mounted [OF tb(2)] f tb(1) by (simp_all add: FS_BLOCK_SIZE_def)
  have "heap_inv (prepared ?t3) 0xffff800000200000 [] [(4096, False), (4096, False), (212992, False), (1875872, True)]"
    by (rule heap_inv_payload [OF i3 pm(5)]) (use pm(7) in \<open>simp add: same_on_def\<close>)
  then have "heap_inv (fs_report (prepared ?t3)) 0xffff800000200000 [] [(4096, False), (4096, False), (212992, False), (1875872, True)]"
    by (rule heap_inv_update) (simp_all add: fs_report_def same_globals_def)
  moreover have "fs_init unmounted = Some (fs_report (prepared ?t3))"
    by (subst fs_init_run [of unmounted "0xffff800000200018" s1 "0xffff800000201030" s2 "0xffff800000202048" s3])
      (use s1(1) s2(1) s3(1) in \<open>simp_all add: FS_BLOCK_SIZE_def sizeof_inode_def FS_MAX_INODES_def\<close>)
  ultimately show ?thesis using pm(1-4,6) by (simp add: fs_report_def)
qed

lemma fs_open_frame:
  fixes s :: "'a fsys_scheme"
  assumes "fs_open name mode s = (r, s')"
  shows "same_globals s s'" "ram s' = ram s" "inode_table s' = inode_table s" "block_bitmap s' = block_bitmap s"
    "inode_bitmap s' = inode_bitmap s"
proof -
  have s': "s' = snd (fs_open name mode s)" using assms by simp
  show "same_globals s s'" "ram s' = ram s" "inode_table s' = inode_table s" "block_bitmap s' = block_bitmap s"
    "inode_bitmap s' = inode_bitmap s"
    by (auto simp: s' fs_open_def fs_resolve_def Let_def same_globals_def set_open_def split: option.splits)
qed

text \<open>A small mounted file system with one open file of inode 1.\<close>

lemma small_open:
  "\<exists>s :: fsys. files_inv s \<and> open_map s 1 = Some (1, 0, 0) \<and> ino_data s 1 = 0 \<and> inodes_ok s \<and>
    block_bitmap s = 0xffff800000200018 \<and> inode_bitmap s = 0xffff800000201030 \<and> inode_table s = 0xffff800000202048 \<and>
    heap_inv s 0xffff800000200000 [] [(4096, False), (4096, False), (212992, False), (1875872, True)]"
proof -
  obtain s :: fsys where s: "mounted s" "block_bitmap s = 0xffff800000200018" "inode_bitmap s = 0xffff800000201030"
      "inode_table s = 0xffff800000202048" "next_fd s = 1"
      "heap_inv s 0xffff800000200000 [] [(4096, False), (4096, False), (212992, False), (1875872, True)]"
    using mounted_small by blast
  obtain r s' where o: "fs_open (Some ''test.txt'') 0 s = (r, s')" by fastforce
  note f = fs_open_frame [OF o]
  have inv: "files_inv s" "open_map s = Map.empty" "ino_data s 1 = 0" using s(1) by (simp_all add: mounted_def FS_MAX_INODES_def)
  have "next_fd s \<noteq> 0xFFFFFFFF" by (simp add: s(5))
  note res = fs_open_result [OF inv(1) this o]
  have "fst (fs_resolve ''test.txt'' s) = 1" by (simp add: fs_resolve_def)
  then have "open_map s' 1 = Some (1, 0, 0)" using res(2) inv(2) s(5) by (simp add: FS_MAX_OPEN_FILES_def)
  moreover have "ino_data s' 1 = 0" using inv(3) f by (simp add: ino_data_def)
  moreover have "inodes_ok s'" by (simp add: inodes_ok_def f s fits_def sizeof_inode_def FS_MAX_INODES_def)
  moreover have "heap_inv s' 0xffff800000200000 [] [(4096, False), (4096, False), (212992, False), (1875872, True)]"
    by (rule heap_inv_update [OF s(6) f(1,2)])
  ultimately show ?thesis using res(1) f s by metis
qed

section \<open>Properties\<close>

text \<open>C10: \<open>fs_init\<close> returns from every sound heap. The blocks it got are owned by the file system, and
  when it got all three the file system is mounted: no file is open, no inode is in use or has
  data, no block is in use and the superblock counts everything free.\<close>

theorem fs_init_mounts_file_system:
  assumes "heap_owns s L" "next_fd s \<noteq> 0"
  shows "\<exists>s' kb ki kt. fs_init s = Some s' \<and>
    heap_owns s' (L \<union> blk (block_bitmap s') kb \<union> blk (inode_bitmap s') ki \<union> blk (inode_table s') kt) \<and>
    (if block_bitmap s' = 0 \<or> inode_bitmap s' = 0 \<or> inode_table s' = 0 then open_files s' = open_files s
     else FS_BLOCK_SIZE \<le> kb \<and> FS_BLOCK_SIZE \<le> ki \<and> sizeof_inode * FS_MAX_INODES \<le> kt \<and> mounted s')"
  by (rule fs_init_result [OF assms])

theorem fs_init_mounts_file_system_witness:
  "\<exists>s kb ki kt. fs_init unmounted = Some s \<and> 212992 \<le> kt \<and> mounted s \<and>
    heap_owns s {(0xffff800000200018, kb), (0xffff800000201030, ki), (0xffff800000202048, kt)}"
proof -
  have "heap_owns unmounted {}" unfolding heap_owns_def using unmounted_heap(1) by fastforce
  moreover have "next_fd unmounted \<noteq> 0" by (simp add: unmounted_heap(2))
  ultimately obtain s kb ki kt where s: "fs_init unmounted = Some s"
      "heap_owns s ({} \<union> blk (block_bitmap s) kb \<union> blk (inode_bitmap s) ki \<union> blk (inode_table s) kt)"
      "if block_bitmap s = 0 \<or> inode_bitmap s = 0 \<or> inode_table s = 0 then open_files s = open_files unmounted
       else FS_BLOCK_SIZE \<le> kb \<and> FS_BLOCK_SIZE \<le> ki \<and> sizeof_inode * FS_MAX_INODES \<le> kt \<and> mounted s"
    using fs_init_mounts_file_system by blast
  moreover have "block_bitmap s = 0xffff800000200018" "inode_bitmap s = 0xffff800000201030" "inode_table s = 0xffff800000202048"
    using mounted_small s(1) by auto
  ultimately have "212992 \<le> kt \<and> mounted s \<and>
      heap_owns s {(0xffff800000200018, kb), (0xffff800000201030, ki), (0xffff800000202048, kt)}"
    by (simp add: blk_def sizeof_inode_def FS_MAX_INODES_def insert_commute)
  then show ?thesis using s(1) by blast
qed

text \<open>What creating a file or a directory promises: the lowest unused inode is taken and initialized,
  every other inode and all memory outside the table stay as they are; with every inode in use
  the call fails.\<close>

definition creates_inode :: "('a fsys_scheme \<Rightarrow> int \<times> 'a fsys_scheme) \<Rightarrow> u32 \<Rightarrow> u32 \<Rightarrow> 'a fsys_scheme \<Rightarrow> bool" where
  "creates_inode f type links s \<longleftrightarrow>
     (if used_inodes s = {1..<FS_MAX_INODES} then fst (f s) = -1 \<and> used_inodes (snd (f s)) = used_inodes s
      else \<exists>i. 1 \<le> i \<and> i < FS_MAX_INODES \<and> i \<notin> used_inodes s \<and> {1..<i} \<subseteq> used_inodes s \<and>
        fst (f s) = int i \<and> fresh_inode i type links s (snd (f s)) \<and> used_inodes (snd (f s)) = insert i (used_inodes s))"

text \<open>C17: \<open>fs_create_file\<close> and \<open>fs_create_dir\<close> take the lowest unused inode above the root and leave it
  initialized, empty and without data, and nothing else changes; they fail exactly when all 2047
  inodes are in use.\<close>

theorem created_file_gets_fresh_inode:
  assumes "inodes_ok s"
  shows "creates_inode (fs_create_file (Some name)) FS_TYPE_FILE 1 s \<and> creates_inode (fs_create_dir (Some name)) FS_TYPE_DIR 2 s"
proof -
  have "creates_inode f ty l s"
    if "(f, ty, l) \<in> {(fs_create_file (Some name), FS_TYPE_FILE, 1), (fs_create_dir (Some name), FS_TYPE_DIR, 2)}" for f ty l
  proof (cases "find_inode s")
    case None
    then show ?thesis using fs_create_result [OF assms that] find_inode_None [of s] by (simp add: creates_inode_def)
  next
    case (Some i)
    then have c: "fst (f s) = int i" "fresh_inode i ty l s (snd (f s))" using fs_create_result [OF assms that] by simp_all
    note u = fresh_inode_used [OF Some c(2)]
    then have "used_inodes s \<noteq> {1..<FS_MAX_INODES}" using find_inode_None [of s] Some by simp
    then show ?thesis using c u by (auto simp: creates_inode_def)
  qed
  then show ?thesis by simp
qed

theorem created_file_gets_fresh_inode_witness:
  "\<exists>s. fs_init unmounted = Some s \<and> fst (fs_create_file (Some ''test.txt'') s) = 1"
proof -
  obtain s where s: "fs_init unmounted = Some s" "mounted s" "inode_table s = 0xffff800000202048" using mounted_small by blast
  have "inodes_ok s" by (simp add: inodes_ok_def s(3) fits_def sizeof_inode_def FS_MAX_INODES_def)
  then have "creates_inode (fs_create_file (Some ''test.txt'')) FS_TYPE_FILE 1 s" using created_file_gets_fresh_inode by blast
  moreover have "used_inodes s = {}" using s(2) by (auto simp: mounted_def used_inodes_def)
  moreover have "{} \<noteq> {1..<FS_MAX_INODES}" by (simp add: FS_MAX_INODES_def)
  ultimately obtain i where i: "1 \<le> i" "{1..<i} \<subseteq> {}" "fst (fs_create_file (Some ''test.txt'') s) = int i"
    unfolding creates_inode_def by (metis (full_types))
  then have "i = 1" by simp
  then show ?thesis using i(3) s(1) by simp
qed

text \<open>C15: the table of open files implements a finite map from descriptors to inode, mode and
  position: \<open>fs_open\<close> adds the descriptor \<open>next_fd\<close> at position 0 unless 128 files are open,
  \<open>fs_close\<close> removes a descriptor, \<open>fs_seek\<close> sets its position, and both fail exactly on
  descriptors that are not open. All three keep the table well-formed.\<close>

theorem open_files_implement_descriptor_map:
  assumes "files_inv s" "next_fd s \<noteq> 0xFFFFFFFF" "fd \<noteq> 0"
    and "fs_open (Some name) mode s = (r1, s1)" "fs_close fd s = (r2, s2)" "fs_seek fd p s = (r3, s3)"
  shows "files_inv s1 \<and> files_inv s2 \<and> files_inv s3 \<and>
    (if card (dom (open_map s)) < FS_MAX_OPEN_FILES
     then r1 = sint (next_fd s) \<and> open_map s1 = (open_map s)(next_fd s \<mapsto> (fst (fs_resolve name s), mode, 0))
     else r1 = -1 \<and> open_map s1 = open_map s) \<and>
    r2 = (if fd \<in> dom (open_map s) then 0 else -1) \<and> open_map s2 = (open_map s)(fd := None) \<and>
    r3 = (if fd \<in> dom (open_map s) then 0 else -1) \<and>
    open_map s3 = (open_map s)(fd := map_option (\<lambda>(i, m, _). (i, m, p)) (open_map s fd))"
  using fs_open_result [OF assms(1,2,4)] fs_close_result [OF assms(1,3,5)] fs_seek_result [OF assms(1,3,6)] by blast

theorem open_files_implement_descriptor_map_witness:
  "\<exists>s. fs_init unmounted = Some s \<and> fst (fs_open (Some ''mydir'') 1 s) = 1 \<and>
    open_map (snd (fs_open (Some ''mydir'') 1 s)) = [1 \<mapsto> (2, 1, 0)] \<and> fst (fs_close 7 s) = -1"
proof -
  obtain s where s: "fs_init unmounted = Some s" "mounted s" "next_fd s = 1" using mounted_small by blast
  have inv: "files_inv s" "open_map s = Map.empty" "next_fd s \<noteq> 0xFFFFFFFF" using s(2,3) by (simp_all add: mounted_def)
  have "str_compare ''mydir'' ''mydir''" "\<not> str_compare ''mydir'' ''test.txt''" by simp_all
  then have "fst (fs_resolve ''mydir'' s) = 2" by (simp add: fs_resolve_def)
  then show ?thesis
    using open_files_implement_descriptor_map [OF inv(1,3), of 7 "''mydir''" 1 _ _ _ _ 0, OF _ surjective_pairing surjective_pairing surjective_pairing]
      inv(2) s(1,3) by (simp add: FS_MAX_OPEN_FILES_def)
qed

text \<open>Closing descriptor 0, which is never handed out, succeeds as long as a slot is free: it
  takes the free slot for an open file and its reference count wraps to \<open>0xFFFFFFFF\<close>, so the slot is
  lost and the table is no longer well-formed.\<close>

theorem fs_close_zero_loses_a_slot:
  assumes "files_inv s" "free_fd s = Some i" "fs_close 0 s = (r, s')"
  shows "r = 0 \<and> fd_refs (open_files s' i) = 0xFFFFFFFF \<and> free_fd s' \<noteq> Some i \<and> \<not> files_inv s'"
proof -
  have i: "i < FS_MAX_OPEN_FILES" "\<not> fd_used s i" "\<And>j. j < i \<Longrightarrow> fd_used s j" using files.found [OF assms(2)] by blast+
  have "fd_key s j \<noteq> 0" if "j < i" for j using files_invD(1) [OF assms(1), of j] i that by simp
  then have "find_fd 0 s = Some i"
    using i files_invD(2) [OF assms(1) i(1,2)] by (simp add: find_fd_def scan_Some_iff fd_key_def)
  moreover have "fd_refs (open_files s i) = 0" using i(2) by (simp add: fd_used_def)
  ultimately have r: "r = 0" "open_files s' = (open_files s)(i := (open_files s i)\<lparr>fd_refs := 0xFFFFFFFF\<rparr>)"
    using assms(3) by (auto simp: fs_close_def Let_def)
  then have u: "fd_used s' i" "fd_key s' i = 0"
    using files_invD(2) [OF assms(1) i(1,2)] by (simp_all add: fd_used_def fd_key_def)
  then have "free_fd s' \<noteq> Some i" "\<not> files_inv s'" using files.found files_invD(1) [of s' i] i(1) by blast+
  then show ?thesis using r by simp
qed

theorem fs_close_zero_loses_a_slot_witness:
  "\<exists>s. fs_init unmounted = Some s \<and> fst (fs_close 0 s) = 0 \<and> \<not> files_inv (snd (fs_close 0 s))"
proof -
  obtain s where s: "fs_init unmounted = Some s" "mounted s" using mounted_small by blast
  then have inv: "files_inv s" "open_map s = Map.empty" by (simp_all add: mounted_def)
  then obtain i where "free_fd s = Some i" using table_full [of s] by (auto simp: FS_MAX_OPEN_FILES_def)
  then show ?thesis using fs_close_zero_loses_a_slot [OF inv(1) _ surjective_pairing] s(1) by blast
qed

text \<open>C16: what is written to an empty file is read back. The write puts the bytes into a fresh heap
  block that overlaps nothing in use, records the size and returns the number of bytes; a read
  through the descriptor returns the smaller of the two lengths and delivers exactly the bytes
  written, for any buffers on the heap outside the inode table.\<close>

theorem written_file_reads_back:
  assumes "files_inv s" "heap_owns s L" "(unat (inode_table s), kt) \<in> L" "sizeof_inode * FS_MAX_INODES \<le> kt"
    and "fd \<noteq> 0" "open_map s fd = Some (iid, mode, pos)" "unat iid < FS_MAX_INODES" "ino_data s (unat iid) = 0"
    and "buf \<noteq> 0" "sz \<noteq> 0" "bytes_at buf (unat sz) \<subseteq> in_blocks L - table_bytes s"
    and "fs_write fd buf sz s = Some (r, s1)" "r \<noteq> -1"
    and "out \<noteq> 0" "n \<noteq> 0" "bytes_at out (unat n) \<subseteq> in_blocks L - table_bytes s" "fs_read fd out n s1 = (q, s2)"
  shows "r = sint sz \<and> fs_get_file_size fd s1 = sz \<and> q = sint (min n sz) \<and>
    (\<forall>j < unat (min n sz). ram s2 (out + of_nat j) = ram s (buf + of_nat j))"
  by (rule write_then_read [OF assms])

lemma fs_write_succeeds:
  assumes "find_fd_inode fd s = Some slot" "i = unat (fd_inode (open_files s slot))" "i < FS_MAX_INODES" "ino_data s i = 0"
    and "buf \<noteq> 0" "sz \<noteq> 0" "malloc (ucast (sz + 1)) s = Some (d, t)" "d \<noteq> 0" "inodes_ok t"
  shows "\<exists>s1. fs_write fd buf sz s = Some (sint sz, s1)"
  using assms ino_set(1) [OF assms(9,3), of d] by (auto simp: fs_write_def Let_def ret32_def)

theorem written_file_reads_back_witness:
  "\<exists>s s1 s2 :: fsys. open_map s 1 = Some (1, 0, 0) \<and> fs_write 1 (inode_bitmap s) 5 s = Some (5, s1) \<and>
    fs_read 1 (block_bitmap s) 8 s1 = (5, s2) \<and>
    (\<forall>j < 5. ram s2 (block_bitmap s + of_nat j) = ram s (inode_bitmap s + of_nat j))"
proof -
  obtain s :: fsys where s: "files_inv s" "open_map s 1 = Some (1, 0, 0)" "ino_data s 1 = 0" "inodes_ok s"
      "block_bitmap s = 0xffff800000200018" "inode_bitmap s = 0xffff800000201030" "inode_table s = 0xffff800000202048"
      "heap_inv s 0xffff800000200000 [] [(4096, False), (4096, False), (212992, False), (1875872, True)]"
    using small_open by blast
  define L :: "(nat \<times> nat) set" where "L = {(0xffff800000200018, 4096), (0xffff800000201030, 4096), (0xffff800000202048, 212992)}"
  have L: "heap_owns s L" unfolding heap_owns_def L_def by (intro exI conjI, rule s(8)) auto
  have tb: "table_bytes s = {0xffff800000202048 ..< 0xffff800000202048 + 212992}"
    by (simp add: table_bytes_def s(7) sizeof_inode_def FS_MAX_INODES_def)
  have tab: "(unat (inode_table s), 212992) \<in> L" "sizeof_inode * FS_MAX_INODES \<le> 212992"
    by (simp_all add: L_def s(7) sizeof_inode_def FS_MAX_INODES_def)
  obtain slot where sl: "fd_slot s 1 = Some slot" "fd_inode (open_files s slot) = 1"
    using s(2) by (auto simp: open_map_def Let_def)
  have "amalloc (round8 (unat (6 :: u64))) 0xffff800000200000 (length ([] :: u64 list), [(4096, False), (4096, False), (212992, False), (1875872, True)])
      = (Some 0xffff800000236060, 0, [(4096, False), (4096, False), (212992, False), (8, False), (1875840, True)])"
    by (simp add: amalloc_def aopen_def awalk_def round8_def carve_def)
  from malloc_first_fit [OF s(8) _ _ this] obtain t where t: "malloc 6 s = Some (0xffff800000236060, t)" "kmem.more t = kmem.more s"
    by (auto simp: max_allowed_def sizeof_header_def)
  have ok: "inodes_ok t" using s(4) more_keeps_fs(1) [OF t(2)] by (simp add: inodes_ok_def)
  have "find_fd_inode 1 s = Some slot"
    by (rule find_fd_inode_slot [OF s(1) _ sl(1)]) (simp_all add: sl(2) FS_MAX_INODES_def)
  from fs_write_succeeds [OF this refl, unfolded sl(2), of "inode_bitmap s" 5 "0xffff800000236060" t]
  obtain s1 where w: "fs_write 1 (inode_bitmap s) 5 s = Some (5, s1)"
    using s(3,6) t(1) ok by (auto simp: FS_MAX_INODES_def)
  have sub: "bytes_at (inode_bitmap s) (unat (5 :: u32)) \<subseteq> in_blocks L - table_bytes s"
      "bytes_at (block_bitmap s) (unat (8 :: u32)) \<subseteq> in_blocks L - table_bytes s"
    unfolding tb L_def in_blocks_def s(5,6) by auto
  obtain q s2 where rd: "fs_read 1 (block_bitmap s) 8 s1 = (q, s2)" by fastforce
  have "q = sint (min 8 (5 :: u32)) \<and> (\<forall>j < unat (min 8 (5 :: u32)). ram s2 (block_bitmap s + of_nat j) = ram s (inode_bitmap s + of_nat j))"
    using written_file_reads_back [OF s(1) L tab _ s(2) _ _ _ _ sub(1) w _ _ _ sub(2) rd] s(3,5,6) by (simp add: FS_MAX_INODES_def)
  then show ?thesis using s(2) w rd by (intro exI [of _ s] exI [of _ s1] exI [of _ s2]) (simp add: min_def)
qed

text \<open>C18: the block bitmap implements a set of blocks: \<open>fs_alloc_block\<close> adds the lowest block not in
  use and returns it, or \<open>0xFFFFFFFF\<close> and the state as it was when all 10240 are in use;
  \<open>fs_free_block\<close> removes its argument. The counter of free blocks goes up with every call of
  \<open>fs_free_block\<close>, so freeing a free block counts it twice.\<close>

theorem block_bitmap_implements_set:
  assumes "unat (block_bitmap s) + FS_BLOCK_SIZE \<le> 2 ^ 64" "unat b < FS_MAX_BLOCKS"
  shows "(if used_blocks s = {..<FS_MAX_BLOCKS} then fs_alloc_block s = (0xFFFFFFFF, s)
      else \<exists>i s'. fs_alloc_block s = (of_nat i, s') \<and> i < FS_MAX_BLOCKS \<and> i \<notin> used_blocks s \<and> {..<i} \<subseteq> used_blocks s \<and>
        used_blocks s' = insert i (used_blocks s) \<and> free_blocks (fs_superblock s') = free_blocks (fs_superblock s) - 1 \<and>
        used_blocks (fs_free_block (of_nat i) s') = used_blocks s) \<and>
    used_blocks (fs_free_block b s) = used_blocks s - {unat b} \<and>
    free_blocks (fs_superblock (fs_free_block b s)) = free_blocks (fs_superblock s) + 1"
proof (cases "used_blocks s = {..<FS_MAX_BLOCKS}")
  case True
  then show ?thesis using fs_alloc_block_result [OF assms(1)] fs_free_block_result [OF assms] by simp
next
  case False
  then obtain i s' where i: "fs_alloc_block s = (of_nat i, s')" "i < FS_MAX_BLOCKS" "i \<notin> used_blocks s" "{..<i} \<subseteq> used_blocks s"
      "used_blocks s' = insert i (used_blocks s)" "free_blocks (fs_superblock s') = free_blocks (fs_superblock s) - 1"
      "block_bitmap s' = block_bitmap s"
    using fs_alloc_block_result [OF assms(1)] by auto
  have "unat (of_nat i :: u32) = i" using i(2) by (simp add: unat_of_nat FS_MAX_BLOCKS_def)
  then have "used_blocks (fs_free_block (of_nat i) s') = used_blocks s"
    using fs_free_block_result(1) [of s' "of_nat i"] assms(1) i by simp
  then show ?thesis using i False fs_free_block_result [OF assms] by auto
qed

theorem block_bitmap_implements_set_witness:
  "\<exists>s. fs_init unmounted = Some s \<and> fst (fs_alloc_block s) = 0 \<and>
    free_blocks (fs_superblock (fs_free_block 9 s)) = 10241"
proof -
  obtain s where s: "fs_init unmounted = Some s" "mounted s" "block_bitmap s = 0xffff800000200018" using mounted_small by blast
  have e: "used_blocks s = {}" "free_blocks (fs_superblock s) = 10240" using s(2) by (simp_all add: mounted_def init_superblock_def)
  have "unat (block_bitmap s) + FS_BLOCK_SIZE \<le> 2 ^ 64" "unat (9 :: u32) < FS_MAX_BLOCKS"
    by (simp_all add: s(3) FS_BLOCK_SIZE_def FS_MAX_BLOCKS_def)
  note p = block_bitmap_implements_set [OF this]
  have "0 \<in> {..<FS_MAX_BLOCKS}" by (simp add: FS_MAX_BLOCKS_def)
  then have "{} \<noteq> {..<FS_MAX_BLOCKS}" by blast
  then obtain i s' where i: "fs_alloc_block s = (of_nat i, s')" "{..<i} \<subseteq> {}" using p unfolding e by (metis (full_types))
  then have "i = 0" by auto
  then show ?thesis using i p e s(1) by simp
qed

text \<open>C38: a write to a file that already has data never looks at the size of its block: a longer
  write runs over the end of the block, returns success, and puts its zero byte outside.\<close>

theorem fs_write_overruns_the_block:
  fixes s :: "'a fsys_scheme"
  assumes "files_inv s" "inodes_ok s" "fd \<noteq> 0" "open_map s fd = Some (iid, mode, pos)" "unat iid < FS_MAX_INODES"
    and "ino_data s (unat iid) = d" "d \<noteq> 0" "k \<le> unat sz" "buf \<noteq> 0" "sz \<noteq> 0"
    and "unat buf + unat sz \<le> 2 ^ 64" "unat d + unat sz < 2 ^ 64" "bytes_at buf (unat sz) \<inter> bytes_at d (unat sz) = {}"
    and "table_bytes s \<inter> bytes_at d (Suc (unat sz)) = {}"
  shows "\<exists>s'. fs_write fd buf sz s = Some (sint sz, s') \<and> ram s' (d + ucast sz) = 0 \<and> unat (d + ucast sz) \<notin> bytes_at d k \<and>
    (\<forall>j. k \<le> j \<longrightarrow> j < unat sz \<longrightarrow> ram s' (d + of_nat j) = ram s (buf + of_nat j))"
proof -
  obtain slot where sl: "fd_slot s fd = Some slot" "fd_inode (open_files s slot) = iid"
    using assms(4) by (auto simp: open_map_def Let_def)
  have find: "find_fd_inode fd s = Some slot" by (rule find_fd_inode_slot [OF assms(1,3) sl(1)]) (use sl(2) assms(5) in simp)
  let ?t = "fs_store (unat iid) buf sz s"
  obtain s' where s': "fs_write fd buf sz s = Some (sint sz, s')" "ram s' = ram ?t"
    using find sl(2) assms(6,7,9,10) by (auto simp: fs_write_def Let_def ret32_def)
  note st = fs_store_result [OF assms(2,5,11) _ _ _ refl, unfolded assms(6), OF assms(12-14)]
  have "unat (d + ucast sz) = unat d + unat sz" using unat_add_of_nat [OF assms(12)] by simp
  then show ?thesis using s' st(6,7) assms(8) by auto
qed

theorem fs_write_overruns_the_block_witness:
  "\<exists>s s' :: fsys. heap_owns s {(0xffff800000200018, 4096), (0xffff800000201030, 4096), (0xffff800000202048, 212992)} \<and>
    ino_data s 1 = 0xffff800000200018 \<and> fs_write 1 0xffff800000300000 4100 s = Some (4100, s') \<and> ram s' 0xffff80000020101C = 0"
proof -
  obtain s :: fsys where s: "files_inv s" "open_map s 1 = Some (1, 0, 0)" "inodes_ok s" "inode_table s = 0xffff800000202048"
      "heap_inv s 0xffff800000200000 [] [(4096, False), (4096, False), (212992, False), (1875872, True)]"
    using small_open by blast
  let ?L = "{(0xffff800000200018, 4096), (0xffff800000201030, 4096), (0xffff800000202048, 212992)} :: (nat \<times> nat) set"
  let ?t = "set_ino_data 1 0xffff800000200018 s"
  have L: "heap_owns s ?L" unfolding heap_owns_def by (intro exI conjI, rule s(5)) auto
  have tb: "table_bytes s = {0xffff800000202048 ..< 0xffff800000202048 + 212992}"
    by (simp add: table_bytes_def s(4) sizeof_inode_def FS_MAX_INODES_def)
  have one: "1 < FS_MAX_INODES" by (simp add: FS_MAX_INODES_def)
  have "same_on (- in_blocks ?L) (ram ?t) (ram s)"
    by (rule set_ino_frame(1) [OF s(3) one]) (auto simp: tb in_blocks_def)
  from heap.owns_write [OF L _ this] have own: "heap_owns ?t ?L" by simp
  have inv: "files_inv ?t" "open_map ?t 1 = Some (1, 0, 0)" "inodes_ok ?t"
    using s(1-3) files_inv_cong [of ?t s] files_cong(4) [of ?t s] by simp_all
  have d: "ino_data ?t (unat (1 :: u32)) = 0xffff800000200018" using ino_set(1) [OF s(3) one] by simp
  obtain s' where "fs_write 1 0xffff800000300000 4100 ?t = Some (4100, s')" "ram s' (0xffff800000200018 + ucast (4100 :: u32)) = 0"
    using fs_write_overruns_the_block [OF inv(1,3) _ inv(2) _ d, of 4096 4100 "0xffff800000300000"] one tb by auto
  then show ?thesis using own d by (intro exI [of _ ?t] exI [of _ s']) simp
qed

end
