(* ===== verification/Caches.thy ===== *)
theory Caches
  imports Mount
begin

text \<open>
  The inode cache of \<open>src/src/kernel/fs/inode.c\<close>, the block cache of \<open>fs/block.c\<close> and the directory
  calls of \<open>fs/dir.c\<close>.

  The two cache tables are static arrays, and callers get pointers into them, so they live in
  memory: \<open>inode_cache\<close> and \<open>block_cache\<close> are the addresses the linker gives them. The fields of
  an entry are reached with the table accesses of \<open>Structs\<close>. \<open>memcpy\<close> has the argument order of
  \<open>lib.h\<close>: from, to, length.
\<close>

section \<open>State\<close>

definition INODE_CACHE_SIZE :: nat where "INODE_CACHE_SIZE = 256"
definition BLOCK_CACHE_SIZE :: nat where "BLOCK_CACHE_SIZE = 64"
definition MAX_DIR_ENTRIES :: nat where "MAX_DIR_ENTRIES = 256"

record caches = fsys +
  inode_cache :: u64
  block_cache :: u64
  block_storage :: u64

text \<open>\<open>inode_cache_entry_t\<close>: \<open>inode_id\<close>, \<open>data\<close>, \<open>dirty\<close>, \<open>ref_count\<close>.\<close>

definition sizeof_ice :: nat where "sizeof_ice = 120"
definition IC_ID :: nat where "IC_ID = 0"
definition IC_DATA :: nat where "IC_DATA = 8"
definition IC_DIRTY :: nat where "IC_DIRTY = 112"
definition IC_REF :: nat where "IC_REF = 116"

definition ice :: "nat \<Rightarrow> 'a caches_scheme \<Rightarrow> nat \<Rightarrow> u32" where
  "ice f s i = rd32 (ram s) (cell (inode_cache s) sizeof_ice i f)"

definition set_ice :: "nat \<Rightarrow> nat \<Rightarrow> u32 \<Rightarrow> 'a caches_scheme \<Rightarrow> 'a caches_scheme" where
  "set_ice f i v s = s\<lparr>ram := wr32 (cell (inode_cache s) sizeof_ice i f) v (ram s)\<rparr>"

definition ice_data :: "'a caches_scheme \<Rightarrow> nat \<Rightarrow> u64" where
  "ice_data s i = cell (inode_cache s) sizeof_ice i IC_DATA"

text \<open>\<open>block_cache_entry_t\<close>: \<open>block_num\<close>, \<open>data\<close>, \<open>dirty\<close>, \<open>ref_count\<close>.\<close>

definition sizeof_bce :: nat where "sizeof_bce = 4108"
definition BC_NUM :: nat where "BC_NUM = 0"
definition BC_DATA :: nat where "BC_DATA = 4"
definition BC_DIRTY :: nat where "BC_DIRTY = 4100"
definition BC_REF :: nat where "BC_REF = 4104"

definition bce :: "nat \<Rightarrow> 'a caches_scheme \<Rightarrow> nat \<Rightarrow> u32" where
  "bce f s i = rd32 (ram s) (cell (block_cache s) sizeof_bce i f)"

definition set_bce :: "nat \<Rightarrow> nat \<Rightarrow> u32 \<Rightarrow> 'a caches_scheme \<Rightarrow> 'a caches_scheme" where
  "set_bce f i v s = s\<lparr>ram := wr32 (cell (block_cache s) sizeof_bce i f) v (ram s)\<rparr>"

definition bce_data :: "'a caches_scheme \<Rightarrow> nat \<Rightarrow> u64" where
  "bce_data s i = cell (block_cache s) sizeof_bce i BC_DATA"

text \<open>A field of a structure behind a pointer, and the copies between buffers.\<close>

definition put32 :: "u64 \<Rightarrow> u32 \<Rightarrow> 'a machine_scheme \<Rightarrow> 'a machine_scheme" where
  "put32 a v s = s\<lparr>ram := wr32 a v (ram s)\<rparr>"

definition copy_block :: "u64 \<Rightarrow> u64 \<Rightarrow> 'a machine_scheme \<Rightarrow> 'a machine_scheme" where
  "copy_block src dst s = s\<lparr>ram := memcpy src dst FS_BLOCK_SIZE (ram s)\<rparr>"

section \<open>Inode cache\<close>

definition inode_cache_init :: "'a caches_scheme \<Rightarrow> 'a caches_scheme" where
  "inode_cache_init s =
     fold (\<lambda>i t. set_ice IC_REF i 0 (set_ice IC_DIRTY i 0 (set_ice IC_ID i 0xFFFFFFFF t)))
       [0..<INODE_CACHE_SIZE] (printk ''[INODE] Initializing inode cache\<newline>'' [] s)"

definition init_inode :: "u64 \<Rightarrow> u32 \<Rightarrow> 'a machine_scheme \<Rightarrow> 'a machine_scheme" where
  "init_inode p type s =
     put32 (p + of_nat I_INDIRECT) 0xFFFFFFFF
      (fold (\<lambda>i. put32 (p + of_nat (I_DIRECT + 4 * i)) 0xFFFFFFFF) [0..<12]
       (put32 (p + of_nat I_BLOCKS) 0 (put32 (p + of_nat I_LINKS) 1 (put32 (p + of_nat I_OWNER) 0
         (put32 (p + of_nat I_PERM) 420 (put32 (p + of_nat I_SIZE) 0 (put32 (p + of_nat I_TYPE) type s)))))))"

definition inode_create :: "u32 \<Rightarrow> 'a caches_scheme \<Rightarrow> (u64 \<times> 'a caches_scheme) option" where
  "inode_create type s = do {
     (p, s1) \<leftarrow> malloc (of_nat sizeof_inode) s;
     if p = 0 then Some (0, printk ''[INODE] ERROR: Failed to allocate inode\<newline>'' [] s1)
     else Some (p, printk ''[INODE] Created inode of type %d\<newline>'' [vnum type] (init_inode p type s1))
   }"

definition drop_inode :: "nat \<Rightarrow> 'a caches_scheme \<Rightarrow> 'a caches_scheme" where
  "drop_inode i s = set_ice IC_DIRTY i 0 (set_ice IC_REF i 0 (set_ice IC_ID i 0xFFFFFFFF s))"

definition inode_delete :: "u32 \<Rightarrow> 'a caches_scheme \<Rightarrow> int \<times> 'a caches_scheme" where
  "inode_delete inode_id s =
     (if unat inode_id \<ge> FS_MAX_INODES then (-1, s)
      else
        let s1 = (case scan (\<lambda>i. ice IC_ID s i = inode_id) 0 INODE_CACHE_SIZE of
                    Some i \<Rightarrow> drop_inode i s | None \<Rightarrow> s)
        in (0, printk ''[INODE] Deleted inode %d\<newline>'' [vnum inode_id] s1))"

definition inode_hit :: "u32 \<Rightarrow> 'a caches_scheme \<Rightarrow> nat option" where
  "inode_hit inode_id s = scan (\<lambda>i. ice IC_ID s i = inode_id \<and> ice IC_REF s i > 0) 0 INODE_CACHE_SIZE"

definition free_inode_slot :: "'a caches_scheme \<Rightarrow> nat option" where
  "free_inode_slot s = scan (\<lambda>i. ice IC_REF s i = 0) 0 INODE_CACHE_SIZE"

definition load_inode :: "nat \<Rightarrow> u32 \<Rightarrow> 'a caches_scheme \<Rightarrow> 'a caches_scheme" where
  "load_inode i inode_id s = set_ice IC_DIRTY i 0 (set_ice IC_REF i 1 (set_ice IC_ID i inode_id s))"

definition inode_read :: "u32 \<Rightarrow> 'a caches_scheme \<Rightarrow> u64 \<times> 'a caches_scheme" where
  "inode_read inode_id s =
     (if unat inode_id \<ge> FS_MAX_INODES then (0, s)
      else case inode_hit inode_id s of
        Some i \<Rightarrow> (ice_data s i, printk ''[INODE] Cache hit for inode %d\<newline>'' [vnum inode_id]
                     (set_ice IC_REF i (ice IC_REF s i + 1) s))
      | None \<Rightarrow>
          (case free_inode_slot s of
             None \<Rightarrow> (0, printk ''[INODE] ERROR: Cache full\<newline>'' [] s)
           | Some i \<Rightarrow>
               let s1 = printk ''[INODE] Cache miss for inode %d, loading from disk\<newline>'' [vnum inode_id] s
               in (ice_data s1 i, load_inode i inode_id s1)))"

definition inode_write :: "u32 \<Rightarrow> u64 \<Rightarrow> 'a caches_scheme \<Rightarrow> int \<times> 'a caches_scheme" where
  "inode_write inode_id data s =
     (if data = 0 \<or> unat inode_id \<ge> FS_MAX_INODES then (-1, s)
      else case scan (\<lambda>i. ice IC_ID s i = inode_id) 0 INODE_CACHE_SIZE of
        None \<Rightarrow> (-1, s)
      | Some i \<Rightarrow>
          let s1 = s\<lparr>ram := copied data (ice_data s i) sizeof_inode (ram s)\<rparr>
          in (0, printk ''[INODE] Wrote inode %d (marked dirty)\<newline>'' [vnum inode_id] (set_ice IC_DIRTY i 1 s1)))"

definition inode_lookup :: "u32 \<Rightarrow> 'a caches_scheme \<Rightarrow> u64 \<times> 'a caches_scheme" where
  "inode_lookup inode_id s = inode_read inode_id s"

definition inode_cache_flush :: "'a caches_scheme \<Rightarrow> 'a caches_scheme" where
  "inode_cache_flush s =
     fold (\<lambda>i t. if ice IC_DIRTY t i \<noteq> 0
        then set_ice IC_DIRTY i 0 (printk ''[INODE] Flushed inode %d\<newline>'' [vnum (ice IC_ID t i)] t) else t)
       [0..<INODE_CACHE_SIZE] (printk ''[INODE] Flushing inode cache to disk\<newline>'' [] s)"

text \<open>\<open>inode->direct_blocks[i]\<close>.\<close>

definition direct_block :: "memory \<Rightarrow> u64 \<Rightarrow> nat \<Rightarrow> u32" where
  "direct_block m p i = rd32 m (p + of_nat (I_DIRECT + 4 * i))"

definition inode_add_block :: "u32 \<Rightarrow> u32 \<Rightarrow> 'a caches_scheme \<Rightarrow> int \<times> 'a caches_scheme" where
  "inode_add_block inode_id block_num s =
     (let (p, s1) = inode_read inode_id s in
      if p = 0 then (-1, s1)
      else case scan (\<lambda>i. direct_block (ram s1) p i = 0xFFFFFFFF) 0 12 of
        Some i \<Rightarrow>
          let s2 = put32 (p + of_nat (I_DIRECT + 4 * i)) block_num s1;
              s3 = put32 (p + of_nat I_BLOCKS) (rd32 (ram s2) (p + of_nat I_BLOCKS) + 1) s2
          in (0, printk ''[INODE] Added block %d to inode %d\<newline>'' [vnum block_num, vnum inode_id] s3)
      | None \<Rightarrow> (-1, printk ''[INODE] ERROR: Direct blocks full, indirect blocks not implemented\<newline>'' [] s1))"

definition inode_remove_block :: "u32 \<Rightarrow> u32 \<Rightarrow> 'a caches_scheme \<Rightarrow> int \<times> 'a caches_scheme" where
  "inode_remove_block inode_id block_num s =
     (let (p, s1) = inode_read inode_id s in
      if p = 0 then (-1, s1)
      else case scan (\<lambda>i. direct_block (ram s1) p i = block_num) 0 12 of
        Some i \<Rightarrow>
          let s2 = put32 (p + of_nat (I_DIRECT + 4 * i)) 0xFFFFFFFF s1;
              s3 = put32 (p + of_nat I_BLOCKS) (rd32 (ram s2) (p + of_nat I_BLOCKS) - 1) s2
          in (0, printk ''[INODE] Removed block %d from inode %d\<newline>'' [vnum block_num, vnum inode_id] s3)
      | None \<Rightarrow> (-1, s1))"

section \<open>Block cache\<close>

definition block_cache_init :: "'a caches_scheme \<Rightarrow> 'a caches_scheme option" where
  "block_cache_init s =
     (let s1 = fold (\<lambda>i t. set_bce BC_REF i 0 (set_bce BC_DIRTY i 0 (set_bce BC_NUM i 0xFFFFFFFF t)))
             [0..<BLOCK_CACHE_SIZE] (printk ''[BLOCK] Initializing block cache\<newline>'' [] s);
          storage_size = FS_BLOCK_SIZE * 16
      in do {
        (p, s2) \<leftarrow> malloc (of_nat storage_size) s1;
        let s3 = s2\<lparr>block_storage := p\<rparr>;
        Some (if p = 0
              then printk ''[BLOCK] WARNING: Could not allocate block storage, using cache only\<newline>'' [] s3
              else printk ''[BLOCK] Allocated %d bytes for block storage\<newline>'' [vnat storage_size] s3)
      })"

definition block_hit :: "u32 \<Rightarrow> 'a caches_scheme \<Rightarrow> nat option" where
  "block_hit block_num s = scan (\<lambda>i. bce BC_NUM s i = block_num \<and> bce BC_REF s i > 0) 0 BLOCK_CACHE_SIZE"

definition free_block_slot :: "'a caches_scheme \<Rightarrow> nat option" where
  "free_block_slot s = scan (\<lambda>i. bce BC_REF s i = 0) 0 BLOCK_CACHE_SIZE"

definition storage_at :: "'a caches_scheme \<Rightarrow> u32 \<Rightarrow> u64" where
  "storage_at s block_num = block_storage s + ucast (block_num * of_nat FS_BLOCK_SIZE)"

definition load_block :: "nat \<Rightarrow> u32 \<Rightarrow> 'a caches_scheme \<Rightarrow> 'a caches_scheme" where
  "load_block i block_num s = set_bce BC_DIRTY i 0 (set_bce BC_REF i 1 (set_bce BC_NUM i block_num s))"

definition block_read :: "u32 \<Rightarrow> u64 \<Rightarrow> 'a caches_scheme \<Rightarrow> int \<times> 'a caches_scheme" where
  "block_read block_num buffer s =
     (if buffer = 0 \<or> unat block_num \<ge> FS_MAX_BLOCKS then (-1, s)
      else case block_hit block_num s of
        Some i \<Rightarrow>
          let s1 = copy_block buffer (bce_data s i) s
          in (int FS_BLOCK_SIZE, printk ''[BLOCK] Cache hit for block %d\<newline>'' [vnum block_num]
                (set_bce BC_REF i (bce BC_REF s1 i + 1) s1))
      | None \<Rightarrow>
          (case free_block_slot s of
             Some i \<Rightarrow>
               if block_storage s \<noteq> 0 then
                 let s1 = copy_block (bce_data s i) (storage_at s block_num) s;
                     s2 = load_block i block_num s1;
                     s3 = copy_block buffer (bce_data s2 i) s2
                 in (int FS_BLOCK_SIZE, printk ''[BLOCK] Read block %d into cache slot %d\<newline>'' [vnum block_num, vnat i] s3)
               else (-1, s)
           | None \<Rightarrow> (-1, s)))"

definition block_write_slot :: "u32 \<Rightarrow> 'a caches_scheme \<Rightarrow> nat option" where
  "block_write_slot block_num s =
     (case scan (\<lambda>i. bce BC_NUM s i = block_num) 0 BLOCK_CACHE_SIZE of
        Some i \<Rightarrow> Some i | None \<Rightarrow> free_block_slot s)"

definition mark_written :: "nat \<Rightarrow> u32 \<Rightarrow> 'a caches_scheme \<Rightarrow> 'a caches_scheme" where
  "mark_written i block_num s =
     (let s1 = set_bce BC_DIRTY i 1 (set_bce BC_NUM i block_num s) in set_bce BC_REF i (bce BC_REF s1 i + 1) s1)"

definition block_write :: "u32 \<Rightarrow> u64 \<Rightarrow> 'a caches_scheme \<Rightarrow> int \<times> 'a caches_scheme" where
  "block_write block_num buffer s =
     (if buffer = 0 \<or> unat block_num \<ge> FS_MAX_BLOCKS then (-1, s)
      else case block_write_slot block_num s of
        None \<Rightarrow> (-1, s)
      | Some i \<Rightarrow> (int FS_BLOCK_SIZE, printk ''[BLOCK] Wrote block %d (marked dirty)\<newline>'' [vnum block_num]
                    (mark_written i block_num (copy_block (bce_data s i) buffer s))))"

definition block_allocate :: "'a caches_scheme \<Rightarrow> u32 \<times> 'a caches_scheme" where
  "block_allocate s =
     (case scan (\<lambda>i. i div 8 < FS_BLOCK_SIZE) 0 FS_MAX_BLOCKS of
        Some i \<Rightarrow> (of_nat i, printk ''[BLOCK] Allocated block %d\<newline>'' [vnat i] s)
      | None \<Rightarrow> (0xFFFFFFFF, printk ''[BLOCK] ERROR: No free blocks\<newline>'' [] s))"

definition drop_block :: "nat \<Rightarrow> 'a caches_scheme \<Rightarrow> 'a caches_scheme" where
  "drop_block i s = set_bce BC_DIRTY i 0 (set_bce BC_REF i 0 (set_bce BC_NUM i 0xFFFFFFFF s))"

definition block_free :: "u32 \<Rightarrow> 'a caches_scheme \<Rightarrow> int \<times> 'a caches_scheme" where
  "block_free block_num s =
     (if unat block_num \<ge> FS_MAX_BLOCKS then (-1, s)
      else
        let s1 = (case scan (\<lambda>i. bce BC_NUM s i = block_num) 0 BLOCK_CACHE_SIZE of
                    Some i \<Rightarrow> drop_block i s | None \<Rightarrow> s)
        in (0, printk ''[BLOCK] Freed block %d\<newline>'' [vnum block_num] s1))"

text \<open>\<open>zeros\<close> is the address of the local array.\<close>

definition block_clear :: "u64 \<Rightarrow> u32 \<Rightarrow> 'a caches_scheme \<Rightarrow> int \<times> 'a caches_scheme" where
  "block_clear zeros block_num s =
     (if unat block_num \<ge> FS_MAX_BLOCKS then (-1, s)
      else block_write block_num zeros (s\<lparr>ram := memset zeros 0 FS_BLOCK_SIZE (ram s)\<rparr>))"

definition block_cache_flush :: "'a caches_scheme \<Rightarrow> 'a caches_scheme" where
  "block_cache_flush s =
     fold (\<lambda>i t. if bce BC_DIRTY t i \<noteq> 0 \<and> block_storage t \<noteq> 0
        then let t1 = set_bce BC_DIRTY i 0 (copy_block (storage_at t (bce BC_NUM t i)) (bce_data t i) t)
             in printk ''[BLOCK] Flushed block %d\<newline>'' [vnum (bce BC_NUM t1 i)] t1
        else t)
       [0..<BLOCK_CACHE_SIZE] (printk ''[BLOCK] Flushing block cache to disk\<newline>'' [] s)"

section \<open>Directories\<close>

text \<open>\<open>dir_t\<close>: \<open>inode_id\<close>, \<open>name[256]\<close>, \<open>type\<close>, \<open>entry_count\<close>; \<open>dir_entry_t\<close>: \<open>inode_id\<close>, \<open>name[256]\<close>, \<open>type\<close>.\<close>

definition sizeof_dir :: nat where "sizeof_dir = 268"
definition sizeof_dir_entry :: nat where "sizeof_dir_entry = 264"
definition D_NAME :: nat where "D_NAME = 4"
definition D_TYPE :: nat where "D_TYPE = 260"
definition D_COUNT :: nat where "D_COUNT = 264"

definition put_name :: "u64 \<Rightarrow> string \<Rightarrow> 'a machine_scheme \<Rightarrow> 'a machine_scheme" where
  "put_name p name s =
     (let len = min (length name) (FS_MAX_NAME_LEN - 1);
          m = fold (\<lambda>i m. m(p + of_nat i := of_char (name ! i))) [0..<len] (ram s)
      in s\<lparr>ram := m(p + of_nat len := 0)\<rparr>)"

definition dir_create :: "string option \<Rightarrow> 'a caches_scheme \<Rightarrow> (u64 \<times> 'a caches_scheme) option" where
  "dir_create name s =
     (case name of
        None \<Rightarrow> Some (0, s)
      | Some nm \<Rightarrow> do {
          (p, s1) \<leftarrow> malloc (of_nat sizeof_dir) s;
          if p = 0 then Some (0, printk ''[DIR] ERROR: Failed to allocate directory\<newline>'' [] s1)
          else Some (p, printk ''[DIR] Created directory: %s\<newline>'' [VStr (Some nm)]
                 (put_name (p + of_nat D_NAME) nm
                   (put32 (p + of_nat D_TYPE) FS_TYPE_DIR (put32 (p + of_nat D_COUNT) 0 (put32 p 0 s1)))))
        })"

definition dir_delete :: "u32 \<Rightarrow> 'a caches_scheme \<Rightarrow> int \<times> 'a caches_scheme" where
  "dir_delete dir_inode_id s =
     (if unat dir_inode_id \<ge> FS_MAX_INODES then (-1, s)
      else (0, printk ''[DIR] Deleted directory with inode %d\<newline>'' [vnum dir_inode_id] s))"

definition dir_add_entry :: "u32 \<Rightarrow> string option \<Rightarrow> u32 \<Rightarrow> u32 \<Rightarrow> 'a caches_scheme \<Rightarrow> int \<times> 'a caches_scheme" where
  "dir_add_entry dir_inode_id name inode_id type s =
     (if name = None \<or> unat dir_inode_id \<ge> FS_MAX_INODES then (-1, s)
      else (0, printk ''[DIR] Added entry '%s' (inode %d, type %d) to directory inode %d\<newline>''
                 [VStr name, vnum inode_id, vnum type, vnum dir_inode_id] s))"

definition dir_remove_entry :: "u32 \<Rightarrow> string option \<Rightarrow> 'a caches_scheme \<Rightarrow> int \<times> 'a caches_scheme" where
  "dir_remove_entry dir_inode_id name s =
     (if name = None \<or> unat dir_inode_id \<ge> FS_MAX_INODES then (-1, s)
      else (0, printk ''[DIR] Removed entry '%s' from directory inode %d\<newline>'' [VStr name, vnum dir_inode_id] s))"

definition dir_lookup :: "u32 \<Rightarrow> string option \<Rightarrow> 'a caches_scheme \<Rightarrow> (u64 \<times> 'a caches_scheme) option" where
  "dir_lookup dir_inode_id name s =
     (if name = None \<or> unat dir_inode_id \<ge> FS_MAX_INODES then Some (0, s)
      else do {
        (p, s1) \<leftarrow> malloc (of_nat sizeof_dir_entry)
                    (printk ''[DIR] Looking up '%s' in directory inode %d\<newline>'' [VStr name, vnum dir_inode_id] s);
        if p = 0 then Some (0, s1)
        else Some (p, put32 (p + of_nat D_TYPE) 0 (put32 p 0 s1))
      })"

text \<open>\<open>entry_count\<close> is the address the caller passes.\<close>

definition dir_list :: "u32 \<Rightarrow> u64 \<Rightarrow> 'a caches_scheme \<Rightarrow> (u64 \<times> 'a caches_scheme) option" where
  "dir_list dir_inode_id entry_count s =
     (if entry_count = 0 \<or> unat dir_inode_id \<ge> FS_MAX_INODES then Some (0, s)
      else do {
        (p, s1) \<leftarrow> malloc (of_nat (sizeof_dir_entry * MAX_DIR_ENTRIES))
                    (put32 entry_count 0 (printk ''[DIR] Listing directory inode %d\<newline>'' [vnum dir_inode_id] s));
        if p = 0 then Some (0, printk ''[DIR] ERROR: Failed to allocate entries\<newline>'' [] s1)
        else Some (p, s1)
      })"

text \<open>\<open>count\<close> is the address of the local variable.\<close>

definition dir_is_empty :: "u64 \<Rightarrow> u32 \<Rightarrow> 'a caches_scheme \<Rightarrow> (int \<times> 'a caches_scheme) option" where
  "dir_is_empty count dir_inode_id s =
     (if unat dir_inode_id \<ge> FS_MAX_INODES then Some (-1, s)
      else do {
        (p, s1) \<leftarrow> dir_list dir_inode_id count (put32 count 0 s);
        Some (if rd32 (ram s1) count = 0 then 1 else 0, s1)
      })"

section \<open>The cache tables as tables of structures\<close>

definition ice_ok :: "'a caches_scheme \<Rightarrow> bool" where
  "ice_ok s \<longleftrightarrow> fits (inode_cache s) sizeof_ice INODE_CACHE_SIZE"

definition bce_ok :: "'a caches_scheme \<Rightarrow> bool" where
  "bce_ok s \<longleftrightarrow> fits (block_cache s) sizeof_bce BLOCK_CACHE_SIZE"

definition bce_bytes :: "'a caches_scheme \<Rightarrow> nat set" where
  "bce_bytes s = {unat (block_cache s) ..< unat (block_cache s) + sizeof_bce * BLOCK_CACHE_SIZE}"

lemmas ice_offsets = sizeof_ice_def IC_ID_def IC_DATA_def IC_DIRTY_def IC_REF_def
lemmas bce_offsets = sizeof_bce_def BC_NUM_def BC_DATA_def BC_DIRTY_def BC_REF_def

lemma log_keeps_caches [simp]:
  "inode_cache (printk f as s) = inode_cache s" "block_cache (printk f as s) = block_cache s"
  "block_storage (printk f as s) = block_storage s"
  "ice g (printk f as s) = ice g s" "bce g (printk f as s) = bce g s" "ice_ok (printk f as s) = ice_ok s" "bce_ok (printk f as s) = bce_ok s"
  "ice_data (printk f as s) = ice_data s" "bce_data (printk f as s) = bce_data s"
  by (simp_all add: printk_def ice_def bce_def ice_ok_def bce_ok_def ice_data_def bce_data_def fun_eq_iff)

lemma set_cache_simps [simp]:
  "inode_cache (set_ice f i v s) = inode_cache s" "block_cache (set_bce f i v s) = block_cache s"
  "ice_ok (set_ice f i v s) = ice_ok s" "bce_ok (set_bce f i v s) = bce_ok s"
  "ice_data (set_ice f i v s) = ice_data s" "bce_data (set_bce f i v s) = bce_data s"
  "bce_bytes (set_bce f i v s) = bce_bytes s" "bce_bytes (printk g as s) = bce_bytes s"
  by (simp_all add: set_ice_def set_bce_def ice_ok_def bce_ok_def ice_data_def bce_data_def bce_bytes_def fun_eq_iff)

lemma ice_set_ice:
  assumes "ice_ok s" "i < INODE_CACHE_SIZE" "j < INODE_CACHE_SIZE" "4 dvd f" "4 dvd g" "f + 4 \<le> sizeof_ice" "g + 4 \<le> sizeof_ice"
  shows "ice f (set_ice g j v s) i = (if i = j \<and> f = g then v else ice f s i)"
proof (cases "i = j \<and> f = g")
  case False
  then have "i \<noteq> j \<or> f + 4 \<le> g \<or> g + 4 \<le> f" using assms(4,5) by (auto simp: dvd_def)
  then show ?thesis
    using False rd_wr_cell_other(1) [OF assms(1) [unfolded ice_ok_def] assms(2,3,6,7)] by (auto simp: ice_def set_ice_def)
qed (use rd_wr_cell_same(1) [OF assms(1) [unfolded ice_ok_def] assms(2,6)] in \<open>auto simp: ice_def set_ice_def\<close>)

lemma bce_set_bce:
  assumes "bce_ok s" "i < BLOCK_CACHE_SIZE" "j < BLOCK_CACHE_SIZE" "4 dvd f" "4 dvd g" "f + 4 \<le> sizeof_bce" "g + 4 \<le> sizeof_bce"
  shows "bce f (set_bce g j v s) i = (if i = j \<and> f = g then v else bce f s i)"
proof (cases "i = j \<and> f = g")
  case False
  then have "i \<noteq> j \<or> f + 4 \<le> g \<or> g + 4 \<le> f" using assms(4,5) by (auto simp: dvd_def)
  then show ?thesis
    using False rd_wr_cell_other(1) [OF assms(1) [unfolded bce_ok_def] assms(2,3,6,7)] by (auto simp: bce_def set_bce_def)
qed (use rd_wr_cell_same(1) [OF assms(1) [unfolded bce_ok_def] assms(2,6)] in \<open>auto simp: bce_def set_bce_def\<close>)

section \<open>The caches as maps\<close>

definition ice_used :: "'a caches_scheme \<Rightarrow> nat \<Rightarrow> bool" where "ice_used s i \<longleftrightarrow> ice IC_REF s i \<noteq> 0"
definition bce_used :: "'a caches_scheme \<Rightarrow> nat \<Rightarrow> bool" where "bce_used s i \<longleftrightarrow> bce BC_REF s i \<noteq> 0"

interpretation icache: keyed_table ice_used INODE_CACHE_SIZE free_inode_slot "ice IC_ID" "\<lambda>s k. inode_hit k s"
  by unfold_locales
    (auto simp: free_inode_slot_def ice_used_def inode_hit_def scan_Some_iff scan_None_iff word_gt_0 intro!: scan_cong)

interpretation bcache: keyed_table bce_used BLOCK_CACHE_SIZE free_block_slot "bce BC_NUM" "\<lambda>s k. block_hit k s"
  by unfold_locales
    (auto simp: free_block_slot_def bce_used_def block_hit_def scan_Some_iff scan_None_iff word_gt_0 intro!: scan_cong)

definition cached_inodes :: "'a caches_scheme \<Rightarrow> u32 \<rightharpoonup> nat" where
  "cached_inodes s = (\<lambda>k. inode_hit k s)"

definition icache_inv :: "'a caches_scheme \<Rightarrow> bool" where
  "icache_inv s \<longleftrightarrow> ice_ok s \<and> distinct_keys ice_used INODE_CACHE_SIZE (ice IC_ID) s"

lemma icache_same:
  fixes s s' :: "'a caches_scheme"
  assumes "\<And>j. j < INODE_CACHE_SIZE \<Longrightarrow> ice_used s' j = ice_used s j \<and> (ice_used s j \<longrightarrow> ice IC_ID s' j = ice IC_ID s j)" "ice_ok s' = ice_ok s"
  shows "icache_inv s' = icache_inv s" "cached_inodes s' = cached_inodes s"
  using icache.fetch_same [of s' s] assms by (simp_all add: icache_inv_def cached_inodes_def)

lemma icache_full: "icache_inv s \<Longrightarrow> (\<exists>i. free_inode_slot s = Some i) \<longleftrightarrow> card (dom (cached_inodes s)) < INODE_CACHE_SIZE"
  unfolding icache.find_slot_iff cached_inodes_def by (subst icache.card_fetch) (simp_all add: icache_inv_def)

text \<open>What \<open>inode_read\<close> does to the cache.\<close>

lemma inode_read_result:
  fixes s s' :: "'a caches_scheme"
  assumes inv: "icache_inv s" and id: "unat k < FS_MAX_INODES" and rd: "inode_read k s = (p, s')"
    and nowrap: "\<And>i. cached_inodes s k = Some i \<Longrightarrow> ice IC_REF s i \<noteq> 0xFFFFFFFF"
  shows "icache_inv s' \<and> (case cached_inodes s k of
      Some i \<Rightarrow> p = ice_data s i \<and> cached_inodes s' = cached_inodes s \<and> ice IC_REF s' i = ice IC_REF s i + 1
    | None \<Rightarrow> (if card (dom (cached_inodes s)) < INODE_CACHE_SIZE
        then \<exists>i < INODE_CACHE_SIZE. free_inode_slot s = Some i \<and> p = ice_data s i \<and> cached_inodes s' = (cached_inodes s)(k \<mapsto> i)
        else p = 0 \<and> cached_inodes s' = cached_inodes s))"
proof (cases "cached_inodes s k")
  case (Some i)
  then have hit: "inode_hit k s = Some i" by (simp add: cached_inodes_def)
  note i = icache.fetch_SomeD [OF hit]
  have ok: "ice_ok s" using inv by (simp add: icache_inv_def)
  let ?t = "set_ice IC_REF i (ice IC_REF s i + 1) s"
  have r: "p = ice_data s i" "s' = printk ''[INODE] Cache hit for inode %d\<newline>'' [vnum k] ?t"
    using rd id hit by (auto simp: inode_read_def)
  have nz: "ice IC_REF s i + 1 \<noteq> 0" using nowrap [OF Some] by (metis add.commute add_eq_0_iff fd_succ(3) word_gt_0)
  have new: "ice IC_REF s' i = ice IC_REF s i + 1" using ice_set_ice [OF ok, of i i IC_REF IC_REF] i by (simp add: r(2) ice_offsets)
  have "ice_used s' j = ice_used s j \<and> ice IC_ID s' j = ice IC_ID s j" if "j < INODE_CACHE_SIZE" for j
    using that i nz by (simp add: r(2) ice_used_def ice_set_ice [OF ok] ice_offsets)
  then show ?thesis using icache_same [of s' s] inv Some r new by (simp add: r(2))
next
  case None
  then have miss: "inode_hit k s = None" by (simp add: cached_inodes_def)
  show ?thesis
  proof (cases "free_inode_slot s")
    case None
    then have "p = 0" "s' = printk ''[INODE] ERROR: Cache full\<newline>'' [] s" using rd id miss by (auto simp: inode_read_def)
    then show ?thesis using icache_same [of s' s] inv \<open>cached_inodes s k = None\<close> icache_full [OF inv] None
      by (simp add: ice_used_def)
  next
    case (Some i)
    note i = icache.found [OF Some]
    have ok: "ice_ok s" and d: "distinct_keys ice_used INODE_CACHE_SIZE (ice IC_ID) s" using inv by (simp_all add: icache_inv_def)
    let ?s1 = "printk ''[INODE] Cache miss for inode %d, loading from disk\<newline>'' [vnum k] s"
    have r: "p = ice_data s i" "s' = load_inode i k ?s1" using rd id miss Some by (auto simp: inode_read_def Let_def)
    have ok': "ice_ok s'" using ok by (simp add: r(2) load_inode_def)
    have new: "ice_used s' i" "ice IC_ID s' i = k"
      using i ok by (simp_all add: r(2) load_inode_def ice_used_def ice_set_ice ice_offsets)
    have old: "ice_used s' j = ice_used s j \<and> (ice_used s j \<longrightarrow> ice IC_ID s' j = ice IC_ID s j)"
      if "j < INODE_CACHE_SIZE" "j \<noteq> i" for j
      using that i ok by (simp add: r(2) load_inode_def ice_used_def ice_set_ice ice_offsets)
    note fill = icache.fetch_fill [OF d Some miss new old]
    have "cached_inodes s' = (cached_inodes s)(k \<mapsto> i)" using fill(2) by (simp add: cached_inodes_def)
    then show ?thesis
      using fill(1) ok' r(1) Some i \<open>cached_inodes s k = None\<close> icache_full [OF inv] by (auto simp: icache_inv_def)
  qed
qed

lemma ice_used_frame:
  assumes "ice_ok s" "i < INODE_CACHE_SIZE" "j < INODE_CACHE_SIZE"
  shows "ice IC_REF (set_ice IC_DIRTY i v s) j = ice IC_REF s j" "ice IC_ID (set_ice IC_DIRTY i v s) j = ice IC_ID s j"
  using assms by (simp_all add: ice_set_ice ice_offsets)

text \<open>A flush clears the dirty flags and keeps every entry pinned.\<close>

lemma inode_cache_flush_keeps:
  fixes s :: "'a caches_scheme"
  assumes "ice_ok s"
  shows "cached_inodes (inode_cache_flush s) = cached_inodes s" "icache_inv (inode_cache_flush s) = icache_inv s"
proof -
  let ?P = "\<lambda>t :: 'a caches_scheme. ice_ok t \<and> (\<forall>j < INODE_CACHE_SIZE. ice IC_REF t j = ice IC_REF s j \<and> ice IC_ID t j = ice IC_ID s j)"
  have "?P (inode_cache_flush s)"
    unfolding inode_cache_flush_def
    by (rule fold_invariant) (use assms in \<open>auto simp: ice_used_frame\<close>)
  then show "cached_inodes (inode_cache_flush s) = cached_inodes s" "icache_inv (inode_cache_flush s) = icache_inv s"
    using icache_same [of "inode_cache_flush s" s] assms by (simp_all add: ice_used_def)
qed

lemma inode_cache_init_empty:
  fixes s :: "'a caches_scheme"
  assumes ok: "ice_ok s"
  shows "icache_inv (inode_cache_init s)" "cached_inodes (inode_cache_init s) = Map.empty"
proof -
  let ?f = "\<lambda>i t :: 'a caches_scheme. set_ice IC_REF i 0 (set_ice IC_DIRTY i 0 (set_ice IC_ID i 0xFFFFFFFF t))"
  have "ice_ok (fold ?f [0..<n] t) \<and> (\<forall>j < n. ice IC_REF (fold ?f [0..<n] t) j = 0)"
    if "n \<le> INODE_CACHE_SIZE" "ice_ok t" for n t
    using that
  proof (induction n)
    case (Suc n)
    then show ?case by (auto simp: ice_set_ice ice_offsets less_Suc_eq)
  qed simp
  from this [OF order.refl, of "printk ''[INODE] Initializing inode cache\<newline>'' [] s"]
  have r: "ice_ok (inode_cache_init s)" "\<And>j. j < INODE_CACHE_SIZE \<Longrightarrow> \<not> ice_used (inode_cache_init s) j"
    using ok by (simp_all add: inode_cache_init_def ice_used_def)
  then show "icache_inv (inode_cache_init s)" by (simp add: icache_inv_def distinct_keys_def)
  show "cached_inodes (inode_cache_init s) = Map.empty"
    unfolding cached_inodes_def fun_eq_iff using r(2) by (auto simp: icache.fetch_None)
qed

section \<open>Block copies\<close>

lemma unat_bce_data:
  assumes "bce_ok s" "i < BLOCK_CACHE_SIZE"
  shows "unat (bce_data s i) + FS_BLOCK_SIZE \<le> 2 ^ 64" "bytes_at (bce_data s i) FS_BLOCK_SIZE \<subseteq> bce_bytes s"
proof -
  have "BC_DATA + FS_BLOCK_SIZE \<le> sizeof_bce" "0 < FS_BLOCK_SIZE" by (simp_all add: bce_offsets FS_BLOCK_SIZE_def)
  note u = unat_cell [OF assms(1) [unfolded bce_ok_def] assms(2) this]
  show "unat (bce_data s i) + FS_BLOCK_SIZE \<le> 2 ^ 64" using u(2) by (simp add: bce_data_def)
  show "bytes_at (bce_data s i) FS_BLOCK_SIZE \<subseteq> bce_bytes s" using u(1,3) by (auto simp: bce_data_def bce_bytes_def)
qed

text \<open>The bookkeeping fields lie apart from the data of every entry and from everything outside the table.\<close>

lemma set_bce_frame:
  assumes "bce_ok s" "i < BLOCK_CACHE_SIZE" "j < BLOCK_CACHE_SIZE" "f \<in> {BC_NUM, BC_DIRTY, BC_REF}"
  shows "same_on (- bce_bytes s \<union> bytes_at (bce_data s j) FS_BLOCK_SIZE) (ram (set_bce f i v s)) (ram s)"
proof -
  note ok = assms(1) [unfolded bce_ok_def]
  have f: "f + 4 \<le> sizeof_bce" "BC_DATA + FS_BLOCK_SIZE \<le> sizeof_bce" "(0 :: nat) < 4" "0 < FS_BLOCK_SIZE"
    "f + 4 \<le> BC_DATA \<or> BC_DATA + FS_BLOCK_SIZE \<le> f"
    using assms(4) by (auto simp: bce_offsets FS_BLOCK_SIZE_def)
  note u = unat_cell [OF ok assms(2) f(1,3)]
  have "bytes_at (cell (block_cache s) sizeof_bce i f) 4 \<inter> bytes_at (bce_data s j) FS_BLOCK_SIZE = {}"
    unfolding bce_data_def by (rule cells_apart [OF ok assms(2,3) f(1-4)]) (use f(5) in blast)
  moreover have "bytes_at (cell (block_cache s) sizeof_bce i f) 4 \<subseteq> bce_bytes s" using u(1,3) by (auto simp: bce_bytes_def)
  ultimately have "(- bce_bytes s \<union> bytes_at (bce_data s j) FS_BLOCK_SIZE) \<inter> bytes_at (cell (block_cache s) sizeof_bce i f) 4 = {}" by blast
  from wr_same_on(1) [OF u(2) this] show ?thesis by (simp add: set_bce_def)
qed

lemma copy_block_bytes:
  assumes "unat src + FS_BLOCK_SIZE \<le> 2 ^ 64" "unat dst + FS_BLOCK_SIZE \<le> 2 ^ 64"
    and "bytes_at src FS_BLOCK_SIZE \<inter> bytes_at dst FS_BLOCK_SIZE = {}" "x < FS_BLOCK_SIZE"
  shows "ram (copy_block src dst s) (dst + of_nat x) = ram s (src + of_nat x)" "ram (copy_block src dst s) (src + of_nat x) = ram s (src + of_nat x)"
proof -
  have m: "ram (copy_block src dst s) = copied src dst FS_BLOCK_SIZE (ram s)"
    unfolding copy_block_def using memcpy_copied [OF assms(1-3)] by simp
  have "unat (dst + of_nat x) = unat dst + x" "unat (src + of_nat x) = unat src + x"
    using assms(1,2,4) by (simp_all add: unat_add_of_nat)
  then show "ram (copy_block src dst s) (dst + of_nat x) = ram s (src + of_nat x)"
    "ram (copy_block src dst s) (src + of_nat x) = ram s (src + of_nat x)"
    using assms(3,4) by (auto simp: m copied_def disjoint_iff)
qed

lemma copy_block_simps [simp]:
  fixes s :: "'a caches_scheme"
  shows "block_cache (copy_block src dst s) = block_cache s" "bce_data (copy_block src dst s) = bce_data s"
  "bce_ok (copy_block src dst s) = bce_ok s" "bce_bytes (copy_block src dst s) = bce_bytes s"
  by (simp_all add: copy_block_def bce_data_def bce_ok_def bce_bytes_def fun_eq_iff)

lemma block_copies:
  fixes s :: "'a caches_scheme"
  assumes ok: "bce_ok s" and b: "unat b < FS_MAX_BLOCKS" and buf: "buf \<noteq> 0" "unat buf + FS_BLOCK_SIZE \<le> 2 ^ 64"
      "bytes_at buf FS_BLOCK_SIZE \<inter> bce_bytes s = {}" and x: "x < FS_BLOCK_SIZE"
  shows "block_hit b s = Some i \<Longrightarrow> fst (block_read b buf s) = 4096 \<and>
      ram (snd (block_read b buf s)) (buf + of_nat x) = ram s (buf + of_nat x) \<and>
      ram (snd (block_read b buf s)) (bce_data s i + of_nat x) = ram s (buf + of_nat x)"
    and "block_write_slot b s = Some j \<Longrightarrow> fst (block_write b buf s) = 4096 \<and>
      ram (snd (block_write b buf s)) (buf + of_nat x) = ram s (bce_data s j + of_nat x) \<and>
      ram (snd (block_write b buf s)) (bce_data s j + of_nat x) = ram s (bce_data s j + of_nat x)"
proof -
  have in_table: "k < BLOCK_CACHE_SIZE \<Longrightarrow> bytes_at buf FS_BLOCK_SIZE \<inter> bytes_at (bce_data s k) FS_BLOCK_SIZE = {}" for k
    using unat_bce_data(2) [OF ok, of k] buf(3) by blast
  have out: "unat (buf + of_nat x) \<in> - bce_bytes s"
    using unat_add_of_nat [of buf x] buf(2,3) x by (auto simp: disjoint_iff)
  have data: "unat (bce_data s k + of_nat x) \<in> bytes_at (bce_data s k) FS_BLOCK_SIZE" if "k < BLOCK_CACHE_SIZE" for k
    using unat_add_of_nat [of "bce_data s k" x] unat_bce_data(1) [OF ok that] x by simp
  show "fst (block_read b buf s) = 4096 \<and> ram (snd (block_read b buf s)) (buf + of_nat x) = ram s (buf + of_nat x) \<and>
      ram (snd (block_read b buf s)) (bce_data s i + of_nat x) = ram s (buf + of_nat x)" if h: "block_hit b s = Some i"
  proof -
    have i: "i < BLOCK_CACHE_SIZE" using bcache.fetch_SomeD [OF h] by blast
    let ?c = "copy_block buf (bce_data s i) s"
    have e: "block_read b buf s = (int FS_BLOCK_SIZE, printk ''[BLOCK] Cache hit for block %d\<newline>'' [vnum b] (set_bce BC_REF i (bce BC_REF ?c i + 1) ?c))"
      using b buf(1) h by (simp add: block_read_def Let_def)
    have "same_on (- bce_bytes s \<union> bytes_at (bce_data s i) FS_BLOCK_SIZE) (ram (snd (block_read b buf s))) (ram ?c)"
      using set_bce_frame [of ?c i i BC_REF] ok i by (simp add: e)
    moreover note copy_block_bytes [OF buf(2) unat_bce_data(1) [OF ok i] in_table [OF i] x, of s]
    ultimately show ?thesis using out data [OF i] by (simp add: e same_on_def FS_BLOCK_SIZE_def)
  qed
  show "fst (block_write b buf s) = 4096 \<and> ram (snd (block_write b buf s)) (buf + of_nat x) = ram s (bce_data s j + of_nat x) \<and>
      ram (snd (block_write b buf s)) (bce_data s j + of_nat x) = ram s (bce_data s j + of_nat x)" if h: "block_write_slot b s = Some j"
  proof -
    have j: "j < BLOCK_CACHE_SIZE"
      using h bcache.found [of s] by (auto simp: block_write_slot_def scan_Some_iff split: option.splits)
    let ?c = "copy_block (bce_data s j) buf s"
    have e: "block_write b buf s = (int FS_BLOCK_SIZE, printk ''[BLOCK] Wrote block %d (marked dirty)\<newline>'' [vnum b] (mark_written j b ?c))"
      using b buf(1) h by (simp add: block_write_def)
    let ?S = "- bce_bytes s \<union> bytes_at (bce_data s j) FS_BLOCK_SIZE"
    let ?n = "set_bce BC_NUM j b ?c"
    let ?d = "set_bce BC_DIRTY j 1 ?n"
    have "same_on ?S (ram ?n) (ram ?c)" "same_on ?S (ram ?d) (ram ?n)" "same_on ?S (ram (mark_written j b ?c)) (ram ?d)"
      using set_bce_frame [of ?c j j BC_NUM] set_bce_frame [of ?n j j BC_DIRTY] set_bce_frame [of ?d j j BC_REF] ok j
      by (simp_all add: mark_written_def Let_def)
    then have "same_on ?S (ram (snd (block_write b buf s))) (ram ?c)" by (simp add: e) (blast intro: same_on_trans)
    moreover have "bytes_at (bce_data s j) FS_BLOCK_SIZE \<inter> bytes_at buf FS_BLOCK_SIZE = {}" using in_table [OF j] by blast
    note copy_block_bytes [OF unat_bce_data(1) [OF ok j] buf(2) this x, of s]
    ultimately show ?thesis using out data [OF j] by (simp add: e same_on_def FS_BLOCK_SIZE_def)
  qed
qed

section \<open>Properties\<close>


text \<open>The caches before their initialization, at two addresses.\<close>

definition cache_boot :: caches where
  "cache_boot = fsys.extend unmounted \<lparr>inode_cache = 0x100000, block_cache = 0x200000, block_storage = 0\<rparr>"

lemma cache_boot_ok: "ice_ok cache_boot" "bce_ok cache_boot" "inode_cache cache_boot = 0x100000" "block_cache cache_boot = 0x200000"
  by (simp_all add: cache_boot_def fsys.extend_def ice_ok_def bce_ok_def fits_def ice_offsets bce_offsets
      INODE_CACHE_SIZE_def BLOCK_CACHE_SIZE_def)


text \<open>\<open>inode_add_block\<close> cannot add a block to an inode it has to load: \<open>inode_read\<close> leaves the
  zeros of the static table in the entry, none of the twelve block numbers is the free mark
  \<open>0xFFFFFFFF\<close>, and the call reports a full inode. The entry stays pinned.\<close>

theorem inode_add_block_fails_on_loaded_inode:
  fixes s :: "'a caches_scheme"
  assumes "icache_inv s" "unat k < FS_MAX_INODES" "cached_inodes s k = None" "free_inode_slot s = Some i" "ice_data s i \<noteq> 0"
    and "\<And>n. n < 12 \<Longrightarrow> direct_block (ram s) (ice_data s i) n = 0"
  shows "fst (inode_add_block k b s) = -1 \<and> cached_inodes (snd (inode_add_block k b s)) = (cached_inodes s)(k \<mapsto> i)"
proof -
  obtain p t where rd: "inode_read k s = (p, t)" by fastforce
  have ok: "ice_ok s" and i: "i < INODE_CACHE_SIZE" using assms(1) icache.found [OF assms(4)] by (simp_all add: icache_inv_def)
  have "card (dom (cached_inodes s)) < INODE_CACHE_SIZE" using icache_full [OF assms(1)] assms(4) by blast
  then have p: "p = ice_data s i" "cached_inodes t = (cached_inodes s)(k \<mapsto> i)" "icache_inv t"
    using inode_read_result [OF assms(1,2) rd] assms(3,4) by auto
  have field: "direct_block (ram u) (ice_data u i) n = ice (IC_DATA + I_DIRECT + 4 * n) u i" for u :: "'a caches_scheme" and n
    by (simp add: direct_block_def ice_def ice_data_def cell_def add_ac)
  have "t = load_inode i k (printk ''[INODE] Cache miss for inode %d, loading from disk\<newline>'' [vnum k] s)"
    using rd assms(2-4) by (simp add: inode_read_def cached_inodes_def Let_def)
  then have t: "ice (IC_DATA + I_DIRECT + 4 * n) t i = ice (IC_DATA + I_DIRECT + 4 * n) s i \<and> ice_data t i = ice_data s i" if "n < 12" for n
    using that ok i by (simp add: load_inode_def ice_set_ice ice_offsets I_DIRECT_def)
  have "direct_block (ram t) p n = 0" if "n < 12" for n
    using field [of t n] field [of s n] t [OF that] assms(6) [OF that] by (simp add: p(1))
  then have "scan (\<lambda>n. direct_block (ram t) p n = 0xFFFFFFFF) 0 12 = None" by (simp add: scan_None_iff)
  then have "inode_add_block k b s = (-1, printk ''[INODE] ERROR: Direct blocks full, indirect blocks not implemented\<newline>'' [] t)"
    using rd assms(5) p(1) by (simp add: inode_add_block_def)
  moreover have "cached_inodes (printk f as t) = cached_inodes t" for f as
    by (rule icache_same(2)) (simp_all add: ice_used_def)
  ultimately show ?thesis using p(2) by simp
qed

theorem inode_add_block_fails_on_loaded_inode_witness:
  "fst (inode_add_block 5 9 (cache_boot\<lparr>ram := \<lambda>_. 0\<rparr>)) = -1"
proof -
  let ?s = "cache_boot\<lparr>ram := \<lambda>_. 0\<rparr>"
  have z: "load_le n (\<lambda>_. 0) a = 0" for n a by (induction n arbitrary: a) simp_all
  have u: "\<not> ice_used ?s i" for i by (simp add: ice_used_def ice_def rd32_def z)
  have inv: "icache_inv ?s" using u cache_boot_ok(1) by (simp add: icache_inv_def distinct_keys_def ice_ok_def)
  have none: "cached_inodes ?s 5 = None" using u by (simp add: cached_inodes_def icache.fetch_None)
  have "free_inode_slot ?s = Some 0"
    using u by (auto simp: free_inode_slot_def scan_Some_iff INODE_CACHE_SIZE_def ice_used_def)
  moreover have "ice_data ?s 0 \<noteq> 0" by (simp add: ice_data_def cell_def cache_boot_ok(3) ice_offsets)
  moreover have "unat (5 :: u32) < FS_MAX_INODES" by (simp add: FS_MAX_INODES_def)
  ultimately show ?thesis
    using inode_add_block_fails_on_loaded_inode [OF inv _ none] by (simp add: direct_block_def rd32_def z)
qed

text \<open>C40: \<open>memcpy\<close> takes the source first, and the block cache passes the destination first. So
  \<open>block_read\<close> of a cached block leaves the caller's buffer as it is and overwrites the cached
  block with it, and \<open>block_write\<close> leaves the cache as it is and overwrites the caller's buffer;
  both report success.\<close>

theorem block_calls_copy_backwards:
  fixes s :: "'a caches_scheme"
  assumes "bce_ok s" "unat b < FS_MAX_BLOCKS" "buf \<noteq> 0" "unat buf + FS_BLOCK_SIZE \<le> 2 ^ 64"
    "bytes_at buf FS_BLOCK_SIZE \<inter> bce_bytes s = {}" "block_hit b s = Some i" "block_write_slot b s = Some j" "x < FS_BLOCK_SIZE"
  shows "fst (block_read b buf s) = 4096 \<and>
    ram (snd (block_read b buf s)) (buf + of_nat x) = ram s (buf + of_nat x) \<and>
    ram (snd (block_read b buf s)) (bce_data s i + of_nat x) = ram s (buf + of_nat x) \<and>
    fst (block_write b buf s) = 4096 \<and>
    ram (snd (block_write b buf s)) (buf + of_nat x) = ram s (bce_data s j + of_nat x) \<and>
    ram (snd (block_write b buf s)) (bce_data s j + of_nat x) = ram s (bce_data s j + of_nat x)"
  using block_copies [OF assms(1-5,8)] assms(6,7) by blast

theorem block_calls_copy_backwards_witness:
  "\<exists>s :: caches. block_hit 7 s = Some 0 \<and> fst (block_read 7 0x900000 s) = 4096 \<and>
    ram (snd (block_read 7 0x900000 s)) (0x900000 + of_nat 3) = ram s (0x900000 + of_nat 3)"
proof -
  let ?s = "set_bce BC_REF 0 1 (set_bce BC_NUM 0 7 cache_boot)"
  have ok: "bce_ok ?s" using cache_boot_ok(2) by simp
  have z: "(0 :: nat) < BLOCK_CACHE_SIZE" by (simp add: BLOCK_CACHE_SIZE_def)
  have "bce BC_NUM ?s 0 = 7" "bce BC_REF ?s 0 = 1"
    using cache_boot_ok(2) z by (simp_all add: bce_set_bce bce_offsets)
  then have hit: "block_hit 7 ?s = Some 0" and here: "scan (\<lambda>i. bce BC_NUM ?s i = 7) 0 BLOCK_CACHE_SIZE = Some 0"
    using z by (auto simp: block_hit_def scan_Some_iff)
  from here have slot: "block_write_slot 7 ?s = Some 0" by (simp only: block_write_slot_def option.case)
  have "bytes_at 0x900000 FS_BLOCK_SIZE \<inter> bce_bytes ?s = {}"
    by (simp add: bce_bytes_def set_bce_def cache_boot_ok(4) bce_offsets BLOCK_CACHE_SIZE_def FS_BLOCK_SIZE_def)
  from block_calls_copy_backwards [OF ok _ _ _ this hit slot, of 3]
  show ?thesis using hit by (intro exI [of _ ?s]) (simp add: FS_MAX_BLOCKS_def FS_BLOCK_SIZE_def)
qed

end
