(* ===== verification/Session.thy ===== *)
theory Session
  imports Caches
begin

text \<open>
  \<open>init_filesystem\<close> of \<open>src/src/kernel/kernel.c\<close>: the file system is mounted, the caches are
  initialized, a file is created, written, closed, opened again and printed.

  \<open>hello\<close> is the address of the literal \<open>"Hello FS!"\<close> and \<open>buffer\<close> that of the 16-byte local array.
  A descriptor is an \<open>uint32_t\<close> in this code, so the tests \<open>fd >= 0\<close> are tests of a word.
  \<open>stored\<close> is the contract the steps between the write and the read keep.
\<close>

section \<open>The session\<close>

definition FS_MODE_READ :: u32 where "FS_MODE_READ = 0x1"
definition FS_MODE_WRITE :: u32 where "FS_MODE_WRITE = 0x2"

definition write_demo :: "u64 \<Rightarrow> 'a fsys_scheme \<Rightarrow> 'a fsys_scheme option" where
  "write_demo hello s =
     (let (file_inode, s1) = fs_create_file (Some ''test.txt'') (printk ''[TEST] Creating file.. .\<newline>'' [] s);
          s2 = printk ''[TEST] File created with inode: %d\<newline>'' [vint file_inode] s1;
          (r, s3) = fs_open (Some ''test.txt'') FS_MODE_WRITE (printk ''[TEST] About to open file for writing...\<newline>'' [] s2);
          fd = word_of_int r :: u32;
          s4 = printk ''[TEST] fs_open returned fd: %d\<newline>'' [vnum fd] s3
      in if fd \<ge> 0 then do {
           (bytes_written, s5) \<leftarrow> fs_write fd hello 9 (printk ''[TEST] About to write to file...\<newline>'' [] s4);
           let s6 = printk ''[TEST] fs_write returned: %d\<newline>'' [vint bytes_written] s5;
           let s7 = snd (fs_close fd (printk ''[TEST] About to close file...\<newline>'' [] s6));
           Some (printk ''[TEST] File closed\<newline>'' [] s7)
         }
         else Some (printk ''[TEST] ERROR: fs_open failed for writing\<newline>'' [] s4))"

definition mkdir_demo :: "'a fsys_scheme \<Rightarrow> 'a fsys_scheme" where
  "mkdir_demo s = snd (fs_create_dir (Some ''mydir'') (printk ''[TEST] Creating directory...\<newline>'' [] s))"

text \<open>The byte at the position, promoted from the signed \<open>char\<close>, and from \<open>uint8_t\<close>.\<close>

definition char_msg :: "u8 \<Rightarrow> kmsg" where
  "char_msg b = Printk ''%c'' [VNum (ucast (scast b :: u32))]"

definition hex_msg :: "u8 \<Rightarrow> kmsg" where
  "hex_msg b = Printk ''%02x '' [VNum (ucast b)]"

text \<open>A loop \<open>for (i = 0; i < n; i++) printk(\<dots>, buffer[i])\<close>.\<close>

definition show_bytes :: "(u8 \<Rightarrow> kmsg) \<Rightarrow> u64 \<Rightarrow> int \<Rightarrow> 'a machine_scheme \<Rightarrow> 'a machine_scheme" where
  "show_bytes msg buffer n s = fold (\<lambda>i t. t\<lparr>klog := klog t @ [msg (ram t (buffer + of_nat i))]\<rparr>) [0..<nat n] s"

definition print_string_at :: "string \<Rightarrow> u64 \<Rightarrow> 'a machine_scheme \<Rightarrow> 'a machine_scheme option" where
  "print_string_at fmt p s = do { x \<leftarrow> string_at (ram s) p; Some (printk fmt [VStr (Some x)] s) }"

text \<open>What is printed of the buffer.\<close>

definition report :: "u64 \<Rightarrow> int \<Rightarrow> 'a machine_scheme \<Rightarrow> 'a machine_scheme option" where
  "report buffer n s = do {
     let s1 = show_bytes char_msg buffer n (printk ''[TEST] File contents:  '' [] s);
     s2 \<leftarrow> print_string_at ''[TEST] As string: %s\<newline>'' buffer (printk ''\<newline>'' [] s1);
     let s3 = show_bytes hex_msg buffer n (printk ''[TEST] File contents (hex): '' [] s2);
     print_string_at ''[TEST] File contents (string): %s\<newline>'' buffer (printk ''\<newline>'' [] s3)
   }"

definition read_demo :: "u64 \<Rightarrow> 'a fsys_scheme \<Rightarrow> 'a fsys_scheme option" where
  "read_demo buffer s =
     (let (r, s1) = fs_open (Some ''test.txt'') FS_MODE_READ (printk ''[TEST] About to open file for reading...\<newline>'' [] s);
          fd = word_of_int r :: u32;
          s2 = printk ''[TEST] fs_open for reading returned fd: %d\<newline>'' [vnum fd] s1
      in if fd \<ge> 0 then do {
           let s3 = printk ''[TEST] Buffer declared\<newline>'' [] (printk ''[TEST] Inside if block\<newline>'' [] s2);
           let s4 = printk ''[TEST] Buffer initialized\<newline>'' [] (s3\<lparr>ram := (ram s3)(buffer := 0)\<rparr>);
           let s5 = printk ''[TEST] About to call fs_read.. .\<newline>'' [] (printk ''[TEST] bytes_read initialized\<newline>'' [] s4);
           let (bytes_read, s6) = fs_read fd buffer 9 s5;
           s7 \<leftarrow> report buffer bytes_read (printk ''[TEST] fs_read returned: %d\<newline>'' [vint bytes_read] s6);
           let s8 = snd (fs_close fd (printk ''[TEST] About to close file...\<newline>'' [] s7));
           Some (printk ''[TEST] File closed after reading\<newline>'' [] s8)
         }
         else Some (printk ''[TEST] ERROR: fs_open failed for reading\<newline>'' [] s2))"

definition init_filesystem :: "u64 \<Rightarrow> u64 \<Rightarrow> 'a caches_scheme \<Rightarrow> 'a caches_scheme option" where
  "init_filesystem hello buffer s = do {
     s1 \<leftarrow> fs_init s;
     s2 \<leftarrow> block_cache_init (inode_cache_init s1);
     s3 \<leftarrow> write_demo hello s2;
     s4 \<leftarrow> read_demo buffer (mkdir_demo s3);
     Some (printk ''[TEST] All file operations complete!\<newline>'' [] s4)
   }"

section \<open>What is stored stays\<close>

text \<open>Inode \<open>i\<close> has the bytes \<open>cs\<close> in the heap block \<open>(d, kd)\<close>; the inode table is a block too.\<close>

definition stored :: "(nat \<times> nat) set \<Rightarrow> nat \<Rightarrow> u64 \<Rightarrow> nat \<Rightarrow> u8 list \<Rightarrow> 'a fsys_scheme \<Rightarrow> bool" where
  "stored L i d kd cs s \<longleftrightarrow> files_inv s \<and> heap_owns s L \<and>
     (\<exists>kt. (unat (inode_table s), kt) \<in> L \<and> sizeof_inode * FS_MAX_INODES \<le> kt) \<and>
     (unat d, kd) \<in> L \<and> d \<noteq> inode_table s \<and> length cs < kd \<and> length cs < 2 ^ 31 \<and>
     i < FS_MAX_INODES \<and> d \<noteq> 0 \<and> ino_data s i = d \<and> ino I_ID s i \<noteq> 0 \<and> ino I_SIZE s i = of_nat (length cs) \<and>
     (\<forall>j < length cs. ram s (d + of_nat j) = cs ! j)"

lemma stored_cong:
  fixes s s' :: "'a fsys_scheme"
  assumes st: "stored L i d kd cs s" and inv: "files_inv s'" and same: "same_globals s s'" "inode_table s' = inode_table s"
    and m: "same_on (- in_blocks L \<union> bytes_at d kd) (ram s') (ram s)"
    and f: "ino_data s' i = ino_data s i" "ino I_SIZE s' i = ino I_SIZE s i" "ino I_ID s' i = ino I_ID s i"
  shows "stored L i d kd cs s'"
proof -
  have "heap_owns s' L"
    by (rule heap.owns_write [OF _ same(1)]) (use st same_on_subset [OF m] in \<open>auto simp: stored_def\<close>)
  moreover have "ram s' (d + of_nat j) = ram s (d + of_nat j)" if "j < length cs" for j
  proof -
    have b: "unat d + kd < 2 ^ 64" "j < kd"
      using st that heap.owns_bounds [of s L "unat d" kd] by (auto simp: stored_def)
    then have "unat (d + of_nat j) = unat d + j" by (intro unat_add_of_nat) simp
    then show ?thesis using m b(2) by (simp add: same_on_def)
  qed
  ultimately show ?thesis using st inv same(2) f by (simp add: stored_def)
qed

lemma stored_log: "stored L i d kd cs s \<Longrightarrow> stored L i d kd cs (printk f as s)"
  by (rule stored_cong) (auto simp: stored_def same_globals_def same_on_def files_inv_cong [of "printk f as s" s] ino_def ino_data_def)

lemma ram_same_stored:
  fixes s s' :: "'a fsys_scheme"
  assumes "stored L i d kd cs s" "files_inv s'" "same_globals s s'" "inode_table s' = inode_table s" "ram s' = ram s"
  shows "stored L i d kd cs s'"
  by (rule stored_cong [OF assms(1-4)]) (simp_all add: assms(4,5) same_on_def ino_def ino_data_def)

lemma fs_close_frame:
  fixes s :: "'a fsys_scheme"
  assumes "fs_close fd s = (r, s')"
  shows "same_globals s s'" "ram s' = ram s" "inode_table s' = inode_table s" "next_fd s' = next_fd s"
proof -
  have s': "s' = snd (fs_close fd s)" using assms by simp
  show "same_globals s s'" "ram s' = ram s" "inode_table s' = inode_table s" "next_fd s' = next_fd s"
    by (auto simp: s' fs_close_def Let_def same_globals_def set_open_def split: option.splits)
qed

lemma stored_open:
  fixes s :: "'a fsys_scheme"
  assumes st: "stored L i d kd cs s" and nx: "next_fd s \<noteq> 0xFFFFFFFF" and o: "fs_open (Some name) mode s = (r, s')"
  shows "stored L i d kd cs s'"
proof -
  have "files_inv s" using st by (simp add: stored_def)
  note inv = fs_open_result(1) [OF this nx o]
  show ?thesis by (rule ram_same_stored [OF st inv]) (rule fs_open_frame [OF o])+
qed

lemma stored_close:
  fixes s :: "'a fsys_scheme"
  assumes st: "stored L i d kd cs s" and fd: "fd \<noteq> 0" and c: "fs_close fd s = (r, s')"
  shows "stored L i d kd cs s'" "open_map s' = (open_map s)(fd := None)"
proof -
  have "files_inv s" using st by (simp add: stored_def)
  note inv = fs_close_result [OF this fd c]
  show "stored L i d kd cs s'" by (rule ram_same_stored [OF st]) (use inv fs_close_frame [OF c] in simp_all)
  show "open_map s' = (open_map s)(fd := None)" using inv by simp
qed

text \<open>The inode table is apart from the data.\<close>

lemma stored_table:
  fixes s :: "'a fsys_scheme"
  assumes "stored L i d kd cs s"
  shows "inodes_ok s" "table_bytes s \<subseteq> in_blocks L" "table_bytes s \<inter> bytes_at d kd = {}"
proof -
  obtain kt where kt: "heap_owns s L" "(unat (inode_table s), kt) \<in> L" "sizeof_inode * FS_MAX_INODES \<le> kt"
      "(unat d, kd) \<in> L" "d \<noteq> inode_table s"
    using assms by (auto simp: stored_def)
  note t = table_fits [OF kt(1-3)]
  show "inodes_ok s" "table_bytes s \<subseteq> in_blocks L" by (rule t)+
  show "table_bytes s \<inter> bytes_at d kd = {}" by (rule t(3) [OF kt(4)]) (use kt(5) word_unat_eq_iff in blast)
qed

lemma stored_create:
  fixes s :: "'a fsys_scheme"
  assumes st: "stored L i d kd cs s" and f: "fresh_inode n ty links s s'" and ne: "n \<noteq> i"
  shows "stored L i d kd cs s'" "open_map s' = open_map s" "next_fd s' = next_fd s"
proof -
  note t = stored_table [OF st]
  have i: "i < FS_MAX_INODES" using st by (simp add: stored_def)
  have e: "open_files s' = open_files s" "next_fd s' = next_fd s" "inode_table s' = inode_table s" "same_globals s s'"
      "same_on (- table_bytes s) (ram s') (ram s)" "ino_data s' i = ino_data s i" "ino I_SIZE s' i = ino I_SIZE s i" "ino I_ID s' i = ino I_ID s i"
    using f i ne by (simp_all add: fresh_inode_def)
  have "files_inv s'" using st files_inv_cong [OF e(1,2)] by (simp add: stored_def)
  then show "stored L i d kd cs s'"
    by (rule stored_cong [OF st _ e(4,3) _ e(6-8)]) (rule same_on_subset [OF e(5)], use t in blast)
  show "open_map s' = open_map s" by (rule files_cong(4) [OF e(1)])
  show "next_fd s' = next_fd s" by (rule e(2))
qed

text \<open>Reading a stored file into a buffer in use.\<close>

lemma stored_read:
  fixes s :: "'a fsys_scheme"
  assumes st: "stored L i d kd cs s" and fd: "fd \<noteq> 0" "open_map s fd = Some (of_nat i, md, pos)"
    and buf: "buffer \<noteq> 0" "bytes_at buffer (length cs) \<subseteq> in_blocks L - bytes_at d kd" "length cs \<noteq> 0"
  shows "fst (fs_read fd buffer (of_nat (length cs)) s) = int (length cs)"
    "j < length cs \<Longrightarrow> ram (snd (fs_read fd buffer (of_nat (length cs)) s)) (buffer + of_nat j) = cs ! j"
proof -
  let ?n = "length cs"
  have f: "files_inv s" "heap_owns s L" "(unat d, kd) \<in> L" "?n < kd" "?n < 2 ^ 31" "i < FS_MAX_INODES" "d \<noteq> 0" "ino_data s i = d"
      "ino I_SIZE s i = of_nat ?n" "\<And>j. j < ?n \<Longrightarrow> ram s (d + of_nat j) = cs ! j"
    using st by (auto simp: stored_def)
  have u: "unat (of_nat ?n :: u32) = ?n" using f(5) by (simp add: unat_of_nat)
  have sn: "sint (of_nat ?n :: u32) = int ?n" using f(5) by (simp add: signed_of_nat signed_take_bit_int_eq_self)
  have n0: "(of_nat ?n :: u32) \<noteq> 0" using u buf(3) by auto
  obtain slot where sl: "fd_slot s fd = Some slot" "fd_inode (open_files s slot) = of_nat i"
    using fd(2) by (auto simp: open_map_def Let_def)
  have ui: "unat (of_nat i :: u32) = i" using inode_number [OF f(6)] by blast
  have find: "find_fd fd s = Some slot" using find_fd_slot [OF f(1) fd(1)] sl(1) by simp
  have bd: "unat d + kd < 2 ^ 64" using heap.owns_bounds [OF f(2,3)] by simp
  have bb: "unat buffer + ?n \<le> 2 ^ 64" by (rule buffer_bound [OF f(2)]) (use buf in auto)
  have ap: "bytes_at d ?n \<inter> bytes_at buffer ?n = {}"
  proof -
    have "bytes_at d ?n \<subseteq> bytes_at d kd" using f(4) by auto
    then show ?thesis using buf(2) by blast
  qed
  have r: "fst (fs_read fd buffer (of_nat ?n) s) = sint (of_nat ?n :: u32) \<and>
      ram (snd (fs_read fd buffer (of_nat ?n) s)) = copied d buffer (unat (of_nat ?n :: u32)) (ram s)"
    using fs_read_result [OF find, of i buffer "of_nat ?n" "of_nat ?n"] sl(2) ui f(4,6-9) buf(1) n0 u bb bd ap by simp
  show "fst (fs_read fd buffer (of_nat ?n) s) = int ?n" using r sn by simp
  show "ram (snd (fs_read fd buffer (of_nat ?n) s)) (buffer + of_nat j) = cs ! j" if "j < ?n"
  proof -
    have "unat (buffer + of_nat j) = unat buffer + j" using that bb by (intro unat_add_of_nat) simp
    then show ?thesis using r u that f(10) by (simp add: copied_def)
  qed
qed

section \<open>The write leaves a stored file\<close>

lemma ino_field_cong:
  assumes "inodes_ok s" "inode_table s' = inode_table s" "i < FS_MAX_INODES" "f + 4 \<le> sizeof_inode"
    "same_on (table_bytes s) (ram s') (ram s)"
  shows "ino f s' i = ino f s i"
proof -
  note z = field_in_table [OF assms(1,3,4)]
  show ?thesis unfolding ino_def assms(2)
    by (rule rd_cong(1)) (use z same_on_subset [OF assms(5)] in simp_all)
qed

lemma fs_store_keeps_id:
  fixes s :: "'a fsys_scheme"
  assumes ok: "inodes_ok s" "i < FS_MAX_INODES" and room: "unat buf + unat sz \<le> 2 ^ 64" "unat (ino_data s i) + unat sz < 2 ^ 64"
    and ap: "bytes_at buf (unat sz) \<inter> bytes_at (ino_data s i) (unat sz) = {}"
      "table_bytes s \<inter> bytes_at (ino_data s i) (Suc (unat sz)) = {}"
  shows "ino I_ID (fs_store i buf sz s) i = ino I_ID s i"
proof -
  let ?d = "ino_data s i" and ?n = "unat sz"
  define t where "t = s\<lparr>ram := (copied buf ?d ?n (ram s))(?d + of_nat ?n := 0)\<rparr>"
  have m: "memcpy buf ?d ?n (ram s) = copied buf ?d ?n (ram s)"
    by (rule memcpy_copied) (use room ap(1) in auto)
  have u: "unat (?d + of_nat ?n) = unat ?d + ?n" using room(2) by (intro unat_add_of_nat) simp
  have f: "fs_store i buf sz s = set_ino I_SIZE i sz t"
  proof -
    have "ino_data (s\<lparr>ram := copied buf ?d ?n (ram s)\<rparr>) i = ?d"
      by (rule ino_cong(1) [OF ok(1) _ ok(2)]) (use ap(2) in \<open>auto simp: same_on_def copied_def\<close>)
    then show ?thesis unfolding fs_store_def Let_def m by (simp add: t_def)
  qed
  have tb: "inodes_ok t" "inode_table t = inode_table s" using ok(1) by (simp_all add: t_def inodes_ok_def)
  have "ino I_ID (set_ino I_SIZE i sz t) i = ino I_ID t i"
    using ino_set_ino [OF tb(1) ok(2) ok(2), of I_ID I_SIZE sz] by (simp add: field_offsets)
  also have "\<dots> = ino I_ID s i"
    by (rule ino_field_cong [OF ok(1) tb(2) ok(2)])
      (use ap(2) u in \<open>auto simp: field_offsets t_def same_on_def copied_def\<close>)
  finally show ?thesis by (simp add: f)
qed

lemma fs_write_keeps_id:
  fixes s s1 :: "'a fsys_scheme"
  assumes inv: "files_inv s" "heap_owns s L" and tab: "(unat (inode_table s), kt) \<in> L" "sizeof_inode * FS_MAX_INODES \<le> kt"
    and fd: "fd \<noteq> 0" "fd_slot s fd = Some slot" "i = unat (fd_inode (open_files s slot))" "i < FS_MAX_INODES" "ino_data s i = 0"
    and buf: "buf \<noteq> 0" "sz \<noteq> 0" "bytes_at buf (unat sz) \<subseteq> in_blocks L"
    and w: "fs_write fd buf sz s = Some (r, s1)" "r \<noteq> -1"
  shows "ino I_ID s1 i = ino I_ID s i"
proof -
  have keep: "inode_table t = inode_table s \<and> same_on (in_blocks L) (ram t) (ram s)" if "malloc m s = Some (d, t)" for m d t
    using heap.alloc_keeps [OF inv(2) that] more_keeps_fs(1) [of t s] by blast
  note tf = table_fits [OF inv(2) tab]
  obtain d t where m: "malloc (ucast (sz + 1)) s = Some (d, t)" "d \<noteq> 0" and
      s1: "ram s1 = ram (fs_store i buf sz (set_ino_data i d t))" "inode_table s1 = inode_table t"
    using fs_write_first_state [OF find_fd_inode_slot [OF inv(1) fd(1,2)] fd(3,5,4) buf(1,2) w] fd(3,4) keep tf(1) table_bytes_cong(2)
    by metis
  note k = keep [OF m(1)]
  obtain kd where kd: "unat sz < kd" "unat d + unat sz < 2 ^ 64" "in_blocks L \<inter> bytes_at d kd = {}"
    using file_block [OF inv(2) m] by blast
  define t1 where "t1 = set_ino_data i d t"
  have tb: "inodes_ok t" "inodes_ok t1" "table_bytes t1 = table_bytes s" using k tf(1) by (simp_all add: t1_def table_bytes_def inodes_ok_def)
  have d1: "ino_data t1 i = d" unfolding t1_def by (rule ino_set(1) [OF tb(1) fd(4)])
  have sub: "bytes_at d (Suc (unat sz)) \<subseteq> bytes_at d kd" "bytes_at d (unat sz) \<subseteq> bytes_at d kd" using kd(1) by auto
  have bb: "unat buf + unat sz \<le> 2 ^ 64" by (rule buffer_bound [OF inv(2) buf(3)]) (use buf(2) in \<open>simp add: unat_gt_0\<close>)
  have "ino I_ID s1 i = ino I_ID (fs_store i buf sz t1) i"
    using s1 by (simp add: ino_def t1_def fs_store_def Let_def)
  also have "\<dots> = ino I_ID t1 i"
    by (rule fs_store_keeps_id [OF tb(2) fd(4) bb, unfolded d1 tb(3), OF kd(2)])
      (use buf(3) sub kd(3) tf(2) in blast)+
  also have "\<dots> = ino I_ID t i"
    unfolding t1_def by (rule ino_set_ino_data [OF tb(1) fd(4) fd(4)]) (simp add: field_offsets)
  also have "\<dots> = ino I_ID s i"
    by (rule ino_field_cong [OF tf(1) _ fd(4)]) (use k tf(2) same_on_subset in \<open>auto simp: field_offsets\<close>)
  finally show ?thesis .
qed

lemma fs_write_stores:
  fixes s s1 :: "'a fsys_scheme"
  assumes inv: "files_inv s" "heap_owns s L" and tab: "(unat (inode_table s), kt) \<in> L" "sizeof_inode * FS_MAX_INODES \<le> kt"
    and fd: "fd \<noteq> 0" "fd_slot s fd = Some slot" "i = unat (fd_inode (open_files s slot))" "i < FS_MAX_INODES" "ino_data s i = 0"
      "ino I_ID s i \<noteq> 0"
    and buf: "buf \<noteq> 0" "sz \<noteq> 0" "bytes_at buf (unat sz) \<subseteq> in_blocks L" "bytes_at buf (unat sz) \<inter> table_bytes s = {}" "unat sz < 2 ^ 31"
    and w: "fs_write fd buf sz s = Some (r, s1)" "r \<noteq> -1"
  obtains d kd where "stored (insert (unat d, kd) L) i d kd (map (\<lambda>j. ram s (buf + of_nat j)) [0..<unat sz]) s1"
    "in_blocks L \<inter> bytes_at d kd = {}" "next_fd s1 = next_fd s" "inode_table s1 = inode_table s"
    "same_on (in_blocks L - table_bytes s) (ram s1) (ram s)" "dom (open_map s1) = dom (open_map s)"
proof -
  obtain d kd where x: "r = sint sz" "d \<noteq> 0" "unat sz < kd" "heap_owns s1 (insert (unat d, kd) L)" "(unat d, kd) \<notin> L"
      "in_blocks L \<inter> bytes_at d kd = {}" "inode_table s1 = inode_table s" "next_fd s1 = next_fd s" "ino_data s1 i = d" "ino I_SIZE s1 i = sz"
      "open_files s1 = (open_files s)(slot := (open_files s slot)\<lparr>fd_offset := fd_offset (open_files s slot) + sz\<rparr>)"
      "\<And>j. j < unat sz \<Longrightarrow> ram s1 (d + of_nat j) = ram s (buf + of_nat j)"
      "same_on (in_blocks L - table_bytes s) (ram s1) (ram s)"
    by (rule fs_write_first [OF inv tab fd(1-5) buf(1-4) w]) (rule that)
  have id: "ino I_ID s1 i \<noteq> 0" using fs_write_keeps_id [OF inv tab fd(1-5) buf(1-3) w] fd(6) by simp
  have so: "open_files s1 = open_files (set_open slot (\<lambda>e. e\<lparr>fd_offset := fd_offset (open_files s slot) + sz\<rparr>) s)"
    by (simp add: x(11) set_open_def)
  note of = set_offset_files [OF inv(1) fd(2), of "set_open slot (\<lambda>e. e\<lparr>fd_offset := fd_offset (open_files s slot) + sz\<rparr>) s"
      "fd_offset (open_files s slot) + sz"]
  have fi: "files_inv s1" using of files_inv_cong [OF so] x(8) by (simp add: set_open_def)
  have dm: "dom (open_map s1) = dom (open_map s)"
    using of files_cong(4) [OF so] open_slot_dom [OF fd(2)] by (auto simp: set_open_def)
  have ne: "d \<noteq> inode_table s"
  proof
    assume "d = inode_table s"
    then have "unat d \<in> in_blocks L" using tab
      by (auto simp: in_blocks_def sizeof_inode_def FS_MAX_INODES_def intro!: bexI [OF _ tab(1)])
    then show False using x(3,6) by auto
  qed
  have "stored (insert (unat d, kd) L) i d kd (map (\<lambda>j. ram s (buf + of_nat j)) [0..<unat sz]) s1"
    using fi x tab fd(4) id ne buf(5) by (auto simp: stored_def)
  then show thesis by (rule that) (use x dm in simp_all)
qed

lemma fs_write_total:
  fixes s :: "'a fsys_scheme"
  assumes "heap_owns s L"
  shows "\<exists>r s'. fs_write fd buf sz s = Some (r, s')"
proof -
  obtain p t where "malloc (ucast (sz + 1)) s = Some (p, t)" using heap.alloc_total [OF assms] by blast
  then show ?thesis by (auto simp: fs_write_def Let_def split: option.splits)
qed

lemma fs_close_log: "\<exists>ms. klog (snd (fs_close fd s)) = klog s @ ms"
  by (auto simp: fs_close_def Let_def set_open_def printk_def split: option.splits)

lemma open_test_file:
  fixes s :: "'a fsys_scheme"
  assumes "files_inv s" "open_map s = Map.empty" "next_fd s \<noteq> 0xFFFFFFFF" "fs_open (Some ''test.txt'') mode s = (r, s')"
  shows "r = sint (next_fd s)" "open_map s' = [next_fd s \<mapsto> (1, mode, 0)]" "next_fd s' = next_fd s + 1" "next_fd s \<noteq> 0" "files_inv s'"
proof -
  note o = fs_open_result [OF assms(1,3,4)]
  have "fst (fs_resolve ''test.txt'' s) = 1" by (simp add: fs_resolve_def)
  then show r: "r = sint (next_fd s)" "open_map s' = [next_fd s \<mapsto> (1, mode, 0)]"
    using o(2) assms(2) by (simp_all add: FS_MAX_OPEN_FILES_def)
  show "files_inv s'" by (rule o(1))
  show "next_fd s \<noteq> 0" using assms(1) by (auto simp: files_inv_def)
  obtain i where "free_fd s = Some i" using table_full [of s] assms(1,2) by (auto simp: FS_MAX_OPEN_FILES_def)
  then show "next_fd s' = next_fd s + 1"
    using assms(4) by (auto simp: fs_open_def fs_resolve_def free_fd_def Let_def set_open_def)
qed

lemma write_demo_result:
  fixes s :: "'a fsys_scheme"
  assumes m: "mounted s" and own: "heap_owns s L" and tab: "(unat (inode_table s), kt) \<in> L" "sizeof_inode * FS_MAX_INODES \<le> kt"
    and nx: "next_fd s \<noteq> 0xFFFFFFFF" and hello: "hello \<noteq> 0" "bytes_at hello 9 \<subseteq> in_blocks L - table_bytes s"
  obtains s1 where "write_demo hello s = Some s1" "Printk ''[TEST] fs_write returned: %d\<newline>'' [vint (-1)] \<in> set (klog s1)"
  | s1 d kd where "write_demo hello s = Some s1" "in_blocks L \<inter> bytes_at d kd = {}"
      "stored (insert (unat d, kd) L) 1 d kd (map (\<lambda>j. ram s (hello + of_nat j)) [0..<9]) s1"
      "open_map s1 = Map.empty" "next_fd s1 = next_fd s + 1" "inode_table s1 = inode_table s"
proof -
  note tf = table_fits [OF own tab]
  define a where "a = printk ''[TEST] Creating file.. .\<newline>'' [] s"
  have ma: "mounted a" "inodes_ok a" "inode_table a = inode_table s" "open_files a = open_files s" "next_fd a = next_fd s" "ram a = ram s"
    using m tf(1) by (simp_all add: a_def)
  have id0: "ino I_ID a i = 0" if "i < FS_MAX_INODES" for i using ma(1) that by (simp add: mounted_def)
  have fi: "find_inode a = Some 1"
    using id0 by (simp add: find_inode_def scan_Some_iff FS_MAX_INODES_def)
  obtain fin b where b: "fs_create_file (Some ''test.txt'') a = (fin, b)" by fastforce
  have fresh: "fresh_inode 1 FS_TYPE_FILE 1 a b"
    using fs_create_result [OF ma(2), of "fs_create_file (Some ''test.txt'')" FS_TYPE_FILE 1 "''test.txt''"] fi b by simp
  define c where "c = printk ''[TEST] About to open file for writing...\<newline>'' [] (printk ''[TEST] File created with inode: %d\<newline>'' [vint fin] b)"
  have cs: "open_files c = open_files s" "next_fd c = next_fd s" "inode_table c = inode_table s" "same_on (- table_bytes s) (ram c) (ram s)"
      "same_globals a c" "ino I_ID c 1 = 1" "ino_data c 1 = 0"
    using fresh ma(3-6) table_bytes_cong(1) [OF ma(3)]
    by (simp_all add: fresh_inode_def c_def same_globals_def)
  have own_c: "heap_owns c L"
  proof -
    have "heap_owns a L" unfolding a_def by (rule heap.owns_log(1) [OF own])
    then show ?thesis
      by (rule heap.owns_write [OF _ cs(5)]) (use cs(4) ma(6) tf(2) in \<open>auto simp: same_on_def\<close>)
  qed
  have fc: "files_inv c" "open_map c = Map.empty" "next_fd c \<noteq> 0xFFFFFFFF"
    using m nx files_inv_cong [OF cs(1,2)] files_cong(4) [OF cs(1)] cs(2) by (simp_all add: mounted_def)
  obtain r e where e: "fs_open (Some ''test.txt'') FS_MODE_WRITE c = (r, e)" by fastforce
  note o = open_test_file [OF fc e] and oe = fs_open_frame [OF e]
  define fd where "fd = next_fd s"
  have fd: "word_of_int r = fd" "fd \<noteq> 0" "open_map e = [fd \<mapsto> (1, FS_MODE_WRITE, 0)]" "next_fd e = fd + 1"
    using o cs(2) by (simp_all add: fd_def)
  define f where "f = printk ''[TEST] About to write to file...\<newline>'' [] (printk ''[TEST] fs_open returned fd: %d\<newline>'' [vnum fd] e)"
  have ff: "files_inv f" "open_map f = [fd \<mapsto> (1, FS_MODE_WRITE, 0)]" "next_fd f = fd + 1" "inode_table f = inode_table s" "ram f = ram c"
      "ino I_ID f 1 = 1" "ino_data f 1 = 0"
    using o(5) fd(3,4) oe cs files_inv_cong [of f e] files_cong(4) [of f e] by (simp_all add: f_def ino_def ino_data_def)
  have own_f: "heap_owns f L"
    by (rule heap_owns_cong [OF own_c]) (use oe in \<open>simp_all add: f_def same_globals_def\<close>)
  have tabf: "(unat (inode_table f), kt) \<in> L" "table_bytes f = table_bytes s" using tab(1) ff(4) by (simp_all add: table_bytes_def)
  obtain slot where sl: "fd_slot f fd = Some slot" "fd_inode (open_files f slot) = 1"
    using ff(2) by (auto simp: open_map_def Let_def fun_eq_iff split: if_splits)
  obtain n g where g: "fs_write fd hello 9 f = Some (n, g)" using fs_write_total [OF own_f] by blast
  define h where "h = printk ''[TEST] About to close file...\<newline>'' [] (printk ''[TEST] fs_write returned: %d\<newline>'' [vint n] g)"
  obtain q k where k: "fs_close fd h = (q, k)" by fastforce
  have run: "write_demo hello s = Some (printk ''[TEST] File closed\<newline>'' [] k)"
    unfolding write_demo_def Let_def a_def [symmetric] b prod.case c_def [symmetric] e fd(1) f_def [symmetric]
    by (simp add: g h_def [symmetric] k)
  show thesis
  proof (cases "n = -1")
    case True
    obtain ms where "klog k = klog h @ ms" using fs_close_log [of fd h] k by auto
    then have "Printk ''[TEST] fs_write returned: %d\<newline>'' [vint (-1)] \<in> set (klog (printk ''[TEST] File closed\<newline>'' [] k))"
      using True by (simp add: h_def printk_def)
    then show thesis by (rule that(1) [OF run])
  next
    case False
    have sub: "bytes_at hello (unat (9 :: u32)) \<subseteq> in_blocks L" "bytes_at hello (unat (9 :: u32)) \<inter> table_bytes f = {}"
      using hello(2) tabf(2) by auto
    have one: "(1 :: nat) = unat (fd_inode (open_files f slot))" "(1 :: nat) < FS_MAX_INODES" "ino I_ID f 1 \<noteq> 0"
      using sl(2) ff(6) by (simp_all add: FS_MAX_INODES_def)
    have nine: "(9 :: u32) \<noteq> 0" "unat (9 :: u32) < 2 ^ 31" by simp_all
    obtain d kd where w: "stored (insert (unat d, kd) L) 1 d kd (map (\<lambda>j. ram f (hello + of_nat j)) [0..<unat (9 :: u32)]) g"
        "in_blocks L \<inter> bytes_at d kd = {}" "next_fd g = next_fd f" "inode_table g = inode_table f"
        "same_on (in_blocks L - table_bytes f) (ram g) (ram f)" "dom (open_map g) = dom (open_map f)"
      by (rule fs_write_stores [OF ff(1) own_f tabf(1) tab(2) fd(2) sl(1) one(1,2) ff(7) one(3) hello(1) nine(1) sub nine(2) g False])
    have "ram f (hello + of_nat j) = ram s (hello + of_nat j)" if "j < 9" for j
    proof -
      have "unat hello + 9 \<le> 2 ^ 64" by (rule buffer_bound [OF own, of hello 9]) (use hello(2) in auto)
      then have "unat (hello + of_nat j) = unat hello + j" using that by (intro unat_add_of_nat) simp
      then have "unat (hello + of_nat j) \<in> bytes_at hello 9" using that by simp
      then show ?thesis using hello(2) cs(4) ff(5) by (auto simp: same_on_def)
    qed
    then have cont: "map (\<lambda>j. ram f (hello + of_nat j)) [0..<unat (9 :: u32)] = map (\<lambda>j. ram s (hello + of_nat j)) [0..<9]" by simp
    have sh: "stored (insert (unat d, kd) L) 1 d kd (map (\<lambda>j. ram s (hello + of_nat j)) [0..<9]) h" "open_map h = open_map g"
      unfolding h_def using stored_log [OF stored_log [OF w(1) [unfolded cont]]] files_cong(4) [of "printk _ _ (printk _ _ g)" g]
      by simp_all
    note cl = stored_close [OF sh(1) fd(2) k]
    have "dom (open_map h) \<subseteq> {fd}" using sh(2) w(6) ff(2) by simp
    then have "open_map h x = None" if "x \<noteq> fd" for x using that by (metis domIff subsetD singletonD)
    then have "open_map k = Map.empty" using cl(2) by (simp add: fun_eq_iff)
    then show thesis
      by (intro that(2) [OF run w(2)])
        (use cl(1) fs_close_frame [OF k] w(3,4) ff(3,4) files_cong(4) [of "printk ''[TEST] File closed\<newline>'' [] k" k] in \<open>simp_all add: stored_log h_def fd_def\<close>)
  qed
qed

section \<open>The read prints it\<close>

lemma show_bytes_effect:
  "ram (show_bytes msg p n s) = ram s" "machine.more (show_bytes msg p n s) = machine.more s"
  "klog (show_bytes msg p n s) = klog s @ map (\<lambda>i. msg (ram s (p + of_nat i))) [0..<nat n]"
proof -
  have "fold (\<lambda>i t. t\<lparr>klog := klog t @ [msg (ram t (p + of_nat i))]\<rparr>) [0..<k] s
      = s\<lparr>klog := klog s @ map (\<lambda>i. msg (ram s (p + of_nat i))) [0..<k]\<rparr>" for k
    by (induction k) simp_all
  from this [of "nat n"] show "ram (show_bytes msg p n s) = ram s" "machine.more (show_bytes msg p n s) = machine.more s"
    "klog (show_bytes msg p n s) = klog s @ map (\<lambda>i. msg (ram s (p + of_nat i))) [0..<nat n]"
    by (simp_all add: show_bytes_def)
qed

text \<open>The report changes nothing but the log, and the log gets the characters.\<close>

lemma report_effect:
  assumes "report p n s = Some s'"
  shows "ram s' = ram s" "machine.more s' = machine.more s"
    "\<exists>pre post. klog s' = pre @ map (\<lambda>i. char_msg (ram s (p + of_nat i))) [0..<nat n] @ post"
proof -
  obtain x y where s': "s' = printk ''[TEST] File contents (string): %s\<newline>'' [VStr (Some y)] (printk ''\<newline>'' []
      (show_bytes hex_msg p n (printk ''[TEST] File contents (hex): '' [] (printk ''[TEST] As string: %s\<newline>'' [VStr (Some x)]
        (printk ''\<newline>'' [] (show_bytes char_msg p n (printk ''[TEST] File contents:  '' [] s)))))))"
    using assms by (auto simp: report_def print_string_at_def Let_def bind_eq_Some_conv)
  show "ram s' = ram s" "machine.more s' = machine.more s" by (simp_all add: s' show_bytes_effect)
  show "\<exists>pre post. klog s' = pre @ map (\<lambda>i. char_msg (ram s (p + of_nat i))) [0..<nat n] @ post"
    by (rule exI [of _ "klog s @ [Printk ''[TEST] File contents:  '' []]"]) (simp add: s' show_bytes_effect printk_def)
qed

lemma mkdir_keeps:
  fixes s :: "'a fsys_scheme"
  assumes st: "stored L i d kd cs s"
  shows "stored L i d kd cs (mkdir_demo s)" "open_map (mkdir_demo s) = open_map s" "next_fd (mkdir_demo s) = next_fd s"
    "inode_table (mkdir_demo s) = inode_table s"
proof -
  let ?s = "printk ''[TEST] Creating directory...\<newline>'' [] s"
  have st': "stored L i d kd cs ?s" by (rule stored_log [OF st])
  have same: "open_map ?s = open_map s" by (rule files_cong(4)) simp
  have "stored L i d kd cs (mkdir_demo s) \<and> open_map (mkdir_demo s) = open_map s \<and> next_fd (mkdir_demo s) = next_fd s \<and>
      inode_table (mkdir_demo s) = inode_table s" (is ?Q)
  proof (cases "find_inode ?s")
    case None
    then have "mkdir_demo s = printk ''[FS] ERROR: No free inodes\<newline>'' [] (printk ''[FS] ERROR: No free inodes\<newline>'' [] ?s)"
      by (simp add: mkdir_demo_def fs_create_dir_def fs_alloc_inode_def find_inode_def)
    then show ?Q
      using stored_log [OF stored_log [OF st']] same files_cong(4) [of "printk _ _ (printk _ _ ?s)" ?s] by simp
  next
    case (Some n)
    have f: "fresh_inode n FS_TYPE_DIR 2 ?s (mkdir_demo s)"
      using fs_create_result [OF stored_table(1) [OF st'], of "fs_create_dir (Some ''mydir'')" FS_TYPE_DIR 2 "''mydir''"] Some
      by (simp add: mkdir_demo_def)
    have ne: "n \<noteq> i" using inodes.found [OF Some] st' by (auto simp: stored_def)
    have "inode_table (mkdir_demo s) = inode_table ?s" using f unfolding fresh_inode_def by blast
    then show ?Q using stored_create [OF st' f ne] same by simp
  qed
  then show "stored L i d kd cs (mkdir_demo s)" "open_map (mkdir_demo s) = open_map s" "next_fd (mkdir_demo s) = next_fd s"
    "inode_table (mkdir_demo s) = inode_table s" by blast+
qed

lemma stored_poke:
  fixes s :: "'a fsys_scheme"
  assumes st: "stored L i d kd cs s" and x: "unat a \<in> in_blocks L" "unat a \<notin> table_bytes s" "unat a \<notin> bytes_at d kd"
  shows "stored L i d kd cs (s\<lparr>ram := (ram s)(a := v)\<rparr>)"
proof -
  let ?s = "s\<lparr>ram := (ram s)(a := v)\<rparr>"
  note t = stored_table [OF st]
  have i: "i < FS_MAX_INODES" using st by (simp add: stored_def)
  have tb: "same_on (table_bytes s) (ram ?s) (ram s)" using x(2) by (auto simp: same_on_def)
  show ?thesis
  proof (rule stored_cong [OF st])
    show "files_inv ?s" using st files_inv_cong [of ?s s] by (simp add: stored_def)
    show "same_on (- in_blocks L \<union> bytes_at d kd) (ram ?s) (ram s)" using x(1,3) by (auto simp: same_on_def)
    show "ino_data ?s i = ino_data s i" "ino I_SIZE ?s i = ino I_SIZE s i" by (rule ino_cong [OF t(1) _ i tb], simp)+
    show "ino I_ID ?s i = ino I_ID s i" by (rule ino_field_cong [OF t(1) _ i _ tb]) (simp_all add: field_offsets)
  qed (simp_all add: same_globals_def)
qed

lemma read_demo_result:
  fixes s :: "'a fsys_scheme"
  assumes st: "stored L 1 d kd cs s" and empty: "open_map s = Map.empty" and nx: "next_fd s \<noteq> 0xFFFFFFFF" and len: "length cs = 9"
    and buf: "buffer \<noteq> 0" "bytes_at buffer 9 \<subseteq> in_blocks L - table_bytes s - bytes_at d kd"
    and rd: "read_demo buffer s = Some s'"
  shows "\<forall>j < 9. ram s' (buffer + of_nat j) = cs ! j" "\<exists>pre post. klog s' = pre @ map char_msg cs @ post"
proof -
  let ?a = "printk ''[TEST] About to open file for reading...\<newline>'' [] s"
  have sa: "stored L 1 d kd cs ?a" by (rule stored_log [OF st])
  have fa: "files_inv ?a" "open_map ?a = Map.empty" "next_fd ?a \<noteq> 0xFFFFFFFF"
    using sa empty nx files_cong(4) [of ?a s] by (simp_all add: stored_def)
  obtain r b where b: "fs_open (Some ''test.txt'') FS_MODE_READ ?a = (r, b)" by fastforce
  note o = open_test_file [OF fa b] and ob = fs_open_frame [OF b]
  have sb: "stored L 1 d kd cs b" by (rule stored_open [OF sa fa(3) b])
  define fd where "fd = next_fd s"
  have fd: "word_of_int r = fd" "fd \<noteq> 0" "open_map b = [fd \<mapsto> (1, FS_MODE_READ, 0)]" using o by (simp_all add: fd_def)
  define c where "c = printk ''[TEST] Buffer declared\<newline>'' [] (printk ''[TEST] Inside if block\<newline>'' []
      (printk ''[TEST] fs_open for reading returned fd: %d\<newline>'' [vnum fd] b))"
  define e where "e = printk ''[TEST] About to call fs_read.. .\<newline>'' [] (printk ''[TEST] bytes_read initialized\<newline>'' []
      (printk ''[TEST] Buffer initialized\<newline>'' [] (c\<lparr>ram := (ram c)(buffer := 0)\<rparr>)))"
  have tb: "table_bytes c = table_bytes s" using ob(3) by (simp add: c_def table_bytes_def)
  have "unat buffer \<in> in_blocks L - table_bytes s - bytes_at d kd" by (rule subsetD [OF buf(2)]) simp
  then have bx: "unat buffer \<in> in_blocks L" "unat buffer \<notin> table_bytes c" "unat buffer \<notin> bytes_at d kd" using tb by simp_all
  have "stored L 1 d kd cs c" unfolding c_def by (intro stored_log sb)
  then have se: "stored L 1 d kd cs e" unfolding e_def by (intro stored_log stored_poke bx)
  have oe: "open_map e fd = Some (of_nat 1, FS_MODE_READ, 0)" using fd(3) files_cong(4) [of e b] by (simp add: e_def c_def)
  obtain n f where f: "fs_read fd buffer 9 e = (n, f)" by fastforce
  have sub: "bytes_at buffer (length cs) \<subseteq> in_blocks L - bytes_at d kd" using buf(2) len by auto
  have nz: "length cs \<noteq> 0" using len by simp
  note sr = stored_read [OF se fd(2) oe buf(1) sub nz, unfolded len]
  have n: "n = 9" "\<And>j. j < 9 \<Longrightarrow> ram f (buffer + of_nat j) = cs ! j" using sr f by simp_all
  obtain g where g: "report buffer n (printk ''[TEST] fs_read returned: %d\<newline>'' [vint n] f) = Some g" and
      s': "s' = printk ''[TEST] File closed after reading\<newline>'' [] (snd (fs_close fd (printk ''[TEST] About to close file...\<newline>'' [] g)))"
    using rd unfolding read_demo_def Let_def b prod.case fd(1) c_def [symmetric] e_def [symmetric] f
    by (auto simp: bind_eq_Some_conv c_def [symmetric] e_def [symmetric])
  note re = report_effect [OF g]
  have rs: "ram s' = ram f"
    using fs_close_frame(2) [of fd "printk ''[TEST] About to close file...\<newline>'' [] g", OF surjective_pairing] re(1) by (simp add: s')
  show "\<forall>j < 9. ram s' (buffer + of_nat j) = cs ! j" using n(2) by (simp add: rs)
  have "map (\<lambda>i. char_msg (ram f (buffer + of_nat i))) [0..<9] = map char_msg (map (\<lambda>i. cs ! i) [0..<9])" using n(2) by simp
  also have "map (\<lambda>i. cs ! i) [0..<9] = cs" using map_nth [of cs] len by simp
  finally have chars: "map (\<lambda>i. char_msg (ram f (buffer + of_nat i))) [0..<9] = map char_msg cs" .
  obtain pre post where "klog g = pre @ map char_msg cs @ post" using re(3) n(1) chars by auto
  moreover obtain ms where "klog s' = klog g @ ms"
    using fs_close_log [of fd "printk ''[TEST] About to close file...\<newline>'' [] g"] by (auto simp: s' printk_def)
  ultimately show "\<exists>pre post. klog s' = pre @ map char_msg cs @ post" by (metis append.assoc)
qed



end
