(* ===== verification/Tasks.thy ===== *)
theory Tasks
  imports Sched "HOL-Library.Monad_Syntax"
begin

text \<open>
  The demo processes of \<open>src/src/kernel/kernel.c\<close> (\<open>process_A\<close>, \<open>process_B\<close>, \<open>process_infinite\<close>),
  \<open>compute_factorial\<close>, \<open>test_malloc_demo\<close> and \<open>debug_scheduler_info\<close>, and their cooperative run.

  A process gives up the processor in \<open>process_yield\<close> only, so its body is cut there: a \<open>frame\<close>
  holds the locals that are live across a yield (the pid and the loop counter), and one step of
  \<open>dispatch\<close> runs the current process from its frame to the end of its next \<open>process_yield\<close> or
  \<open>process_exit\<close>. A process that has not run yet has no frame: its body is the one at the entry
  address that \<open>process_create\<close> left in \<open>rbx\<close>. The delay loops over a volatile counter change
  nothing the model sees. Signed overflow is undefined in C and is the result \<open>None\<close>.
\<close>

section \<open>The bodies\<close>

definition INT_MAX :: int where "INT_MAX = 2 ^ 31 - 1"

function compute_factorial :: "int \<Rightarrow> int option" where
  "compute_factorial n =
     (if n \<le> 1 then Some 1
      else case compute_factorial (n - 1) of
        None \<Rightarrow> None
      | Some f \<Rightarrow> if n * f \<le> INT_MAX then Some (n * f) else None)"
  by pat_completeness auto
termination
  by (relation "measure nat") auto

declare compute_factorial.simps [simp del]

datatype body = process_A | process_B | process_infinite

text \<open>The addresses the loader gives to the code.\<close>

record code =
  wrapper_code :: u64
  idle_code :: u64
  A_code :: u64
  B_code :: u64
  infinite_code :: u64

definition body_at :: "code \<Rightarrow> u64 \<Rightarrow> body option" where
  "body_at c entry =
     (if entry = A_code c then Some process_A
      else if entry = B_code c then Some process_B
      else if entry = infinite_code c then Some process_infinite else None)"

datatype frame = Frame body u64 int

definition process_start :: "body \<Rightarrow> 'a sched_scheme \<Rightarrow> frame \<times> 'a sched_scheme" where
  "process_start b s =
     (let me = get_current_pid s;
          msg = (case b of process_A \<Rightarrow> ''[PID %d] Process A started\<newline>''
                 | process_B \<Rightarrow> ''[PID %d] Process B started\<newline>''
                 | process_infinite \<Rightarrow> ''[PID %d] Background process started\<newline>'')
      in (Frame b me 0, printk msg [VNum me] s))"

text \<open>One iteration of the loop of each body, up to the call of \<open>process_yield\<close>.\<close>

definition A_iteration :: "u64 \<Rightarrow> int \<Rightarrow> 'a sched_scheme \<Rightarrow> 'a sched_scheme option" where
  "A_iteration me i s = do {
     (ptr, s1) \<leftarrow> malloc 64 (printk ''[PID %d] A: iteration %d\<newline>'' [VNum me, vint i] s);
     if ptr \<noteq> 0 then free ptr (printk ''[PID %d] A: malloc OK\<newline>'' [VNum me] s1) else Some s1
   }"

definition B_iteration :: "u64 \<Rightarrow> int \<Rightarrow> 'a sched_scheme \<Rightarrow> 'a sched_scheme option" where
  "B_iteration me i s = do {
     f \<leftarrow> compute_factorial (i + 1);
     Some (printk ''[PID %d] B: factorial(%d) = %d\<newline>'' [VNum me, vint (i + 1), vint f] s)
   }"

text \<open>Here the counter is incremented first; \<open>counter'\<close> is its new value.\<close>

definition infinite_iteration :: "u64 \<Rightarrow> int \<Rightarrow> 'a sched_scheme \<Rightarrow> 'a sched_scheme option" where
  "infinite_iteration me counter s =
     (let counter' = counter + 1 in
      if counter' > INT_MAX then None
      else Some (if counter' mod 1000 = 0
                 then printk ''[PID %d] Heartbeat: %d\<newline>'' [VNum me, vint counter'] s else s))"

text \<open>From the head of the loop to the end of the next \<open>process_yield\<close> or \<open>process_exit\<close>; no frame
  is left behind by a process that exits.\<close>

fun run_body :: "code \<Rightarrow> frame \<Rightarrow> 'a sched_scheme \<Rightarrow> (frame option \<times> 'a sched_scheme) option" where
  "run_body c (Frame process_A me i) s =
     (if i < 3 then map_option (\<lambda>t. (Some (Frame process_A me (i + 1)), process_yield t)) (A_iteration me i s)
      else map_option (Pair None) (process_exit (wrapper_code c) (idle_code c)
             (printk ''[PID %d] Process A finished\<newline>'' [VNum me] s)))"
| "run_body c (Frame process_B me i) s =
     (if i < 3 then map_option (\<lambda>t. (Some (Frame process_B me (i + 1)), process_yield t)) (B_iteration me i s)
      else map_option (Pair None) (process_exit (wrapper_code c) (idle_code c)
             (printk ''[PID %d] Process B finished\<newline>'' [VNum me] s)))"
| "run_body c (Frame process_infinite me i) s =
     map_option (\<lambda>t. (Some (Frame process_infinite me (i + 1)), process_yield t)) (infinite_iteration me i s)"

text \<open>\<open>None\<close>: no process is current, or it is none of the three (the idle process, which stops the
  processor).\<close>

definition dispatch ::
    "code \<Rightarrow> frame option array \<times> 'a sched_scheme \<Rightarrow> (frame option array \<times> 'a sched_scheme) option" where
  "dispatch c = (\<lambda>(fr, s).
     let i = nat (g_current s) in
     if g_current s < 0 then None
     else case fr i of
       Some f \<Rightarrow> map_option (\<lambda>(f', s'). (fr(i := f'), s')) (run_body c f s)
     | None \<Rightarrow> map_option (\<lambda>b. let (f, s') = process_start b s in (fr(i := Some f), s')) (body_at c (rbx (cpu s))))"

primrec dispatches ::
    "nat \<Rightarrow> code \<Rightarrow> frame option array \<times> 'a sched_scheme \<Rightarrow> (frame option array \<times> 'a sched_scheme) option" where
  "dispatches 0 c k = Some k"
| "dispatches (Suc n) c k = (case dispatch c k of None \<Rightarrow> None | Some k' \<Rightarrow> dispatches n c k')"

section \<open>The other demos\<close>

definition test_malloc_demo :: "'a kmem_scheme \<Rightarrow> 'a kmem_scheme option" where
  "test_malloc_demo s = do {
     (p1, s1) \<leftarrow> malloc 64 (log_str ''\<newline>[TEST] Simple malloc demo:\<newline>'' s);
     (p2, s2) \<leftarrow> malloc 128 s1;
     let s3 = printk ''[TEST] malloc(64) -> 0x%016lx\<newline>'' [VNum p1] s2;
     let s4 = printk ''[TEST] malloc(128) -> 0x%016lx\<newline>'' [VNum p2] s3;
     if p1 = 0 \<or> p2 = 0 then Some (log_str ''[TEST] malloc FAILED\<newline>'' s4)
     else do {
       s5 \<leftarrow> free p1 (log_str ''[TEST] malloc OK\<newline>'' s4);
       free p2 s5
     }
   }"

definition debug_scheduler_info :: "'a sched_scheme \<Rightarrow> 'a sched_scheme" where
  "debug_scheduler_info s =
     (let s1 = log_str ''\<newline>[SCHED] Debug information:\<newline>'' s;
          count = get_process_count s1
      in debug_print_processes (printk ''[SCHED] Active processes: %d\<newline>'' [vint (int count)] s1))"

section \<open>Factorials\<close>

lemma fact_bounds: "2 \<le> n \<Longrightarrow> n \<le> 12 \<Longrightarrow> (fact n :: int) \<le> INT_MAX"
proof -
  assume "2 \<le> n" "n \<le> 12"
  then have "(fact n :: int) \<le> fact 12" by (intro fact_mono) simp
  also have "(fact 12 :: int) \<le> INT_MAX" by (simp add: INT_MAX_def fact_numeral)
  finally show ?thesis .
qed

lemma factorial_small: "n \<le> 12 \<Longrightarrow> compute_factorial (int n) = Some (fact n)"
proof (induction n)
  case (Suc n)
  show ?case
  proof (cases "n = 0")
    case False
    have "int (Suc n) * fact n = fact (Suc n)" by (simp add: algebra_simps)
    moreover have "(fact (Suc n) :: int) \<le> INT_MAX" using Suc.prems False by (intro fact_bounds) auto
    ultimately show ?thesis using Suc False by (simp add: compute_factorial.simps [of "1 + int n"] del: fact_Suc)
  qed (simp add: compute_factorial.simps)
qed (simp add: compute_factorial.simps)

lemma factorial_overflow: "12 < n \<Longrightarrow> compute_factorial n = None"
proof (induction n rule: compute_factorial.induct)
  case (1 n)
  show ?case
  proof (cases "n = 13")
    case True
    have "compute_factorial 12 = Some (fact 12)" using factorial_small [of 12] by simp
    then show ?thesis using True by (simp add: compute_factorial.simps [of 13] INT_MAX_def fact_numeral)
  next
    case False
    then show ?thesis using 1 by (simp add: compute_factorial.simps [of n])
  qed
qed

text \<open>C36: \<open>compute_factorial\<close> computes the factorial for arguments up to 12 (and 1 below 1); for every
  larger argument a product exceeds the range of \<open>int\<close>, so the result is undefined in C.\<close>

theorem compute_factorial_exact:
  "compute_factorial n = (if n \<le> 12 then Some (fact (nat n)) else None)"
proof (cases "n \<le> 12 \<and> 0 \<le> n")
  case True
  then have "nat n \<le> 12" by linarith
  then show ?thesis using factorial_small [of "nat n"] True by simp
next
  case False
  then show ?thesis using factorial_overflow [of n] by (auto simp: compute_factorial.simps [of n])
qed

section \<open>The heap under the demos\<close>

lemma log_str_owns: "heap_owns s L \<Longrightarrow> heap_owns (log_str str s) L"
  by (erule heap.owns_write) (simp_all add: same_globals_def log_str_def)

text \<open>What a step that only borrows from the heap keeps.\<close>

lemma borrow_inv:
  fixes s s' :: "'a sched_scheme"
  assumes "sched_inv s L" "heap_owns s' L" "kmem.more s' = kmem.more s"
  shows "sched_inv s' L" "g_procs s' = g_procs s" "g_current s' = g_current s" "g_next_pid s' = g_next_pid s"
    "g_scheduler_started s' = g_scheduler_started s" "cpu s' = cpu s"
proof -
  note same = more_keeps_sched [OF assms(3)]
  show "g_procs s' = g_procs s" "g_current s' = g_current s" "g_next_pid s' = g_next_pid s"
    "g_scheduler_started s' = g_scheduler_started s" "cpu s' = cpu s" by (simp_all add: same)
  show "sched_inv s' L"
    using assms(1,2) same unfolding sched_inv_def by (auto intro: table_ok_cong stacks_ok_cong)
qed

lemma malloc_then_free:
  fixes s :: "'a kmem_scheme"
  assumes own: "heap_owns s L"
  shows "\<exists>ptr s1 s2. malloc n s = Some (ptr, s1) \<and>
    (if ptr \<noteq> 0 then free ptr (printk f as s1) else Some s1) = Some s2 \<and> heap_owns s2 L \<and> kmem.more s2 = kmem.more s"
proof -
  obtain ptr s1 where m: "malloc n s = Some (ptr, s1)" using heap.alloc_total [OF own] by blast
  have more: "kmem.more s1 = kmem.more s" using heap.alloc_keeps [OF own m] by blast
  show ?thesis
  proof (cases "ptr = 0")
    case True
    then show ?thesis using m more heap.alloc_fail [OF own] by auto
  next
    case False
    obtain k where k: "heap_owns s1 (insert (unat ptr, k) L)" "(unat ptr, k) \<notin> L"
      using heap.alloc_ok [OF own m False] by blast
    obtain s2 where "free ptr (printk f as s1) = Some s2" "heap_owns s2 (insert (unat ptr, k) L - {(unat ptr, k)})"
        "kmem.more s2 = kmem.more (printk f as s1)"
      using heap.dealloc_ok [OF heap.owns_log(1) [OF k(1)], of ptr k] by blast
    then show ?thesis using m more False k(2) by auto
  qed
qed

lemma A_iteration_borrows:
  assumes "sched_inv s L"
  shows "\<exists>s'. A_iteration me i s = Some s' \<and> heap_owns s' L \<and> kmem.more s' = kmem.more s"
proof -
  let ?s = "printk ''[PID %d] A: iteration %d\<newline>'' [VNum me, vint i] s"
  have "heap_owns ?s L" using assms heap.owns_log(1) by (auto simp: sched_inv_def)
  from malloc_then_free [OF this, of 64 "''[PID %d] A: malloc OK\<newline>''" "[VNum me]"]
  show ?thesis by (auto simp: A_iteration_def)
qed

section \<open>The run of the demo\<close>

text \<open>Every process that is not gone is in \<open>process_A\<close> or \<open>process_B\<close>, at a point the bodies reach or
  still before its first instruction; no process is blocked and free slots hold no frame.\<close>

definition entry_of :: "'a sched_scheme \<Rightarrow> nat \<Rightarrow> u64" where
  "entry_of s i = (if g_current s = int i then rbx (cpu s) else rbx (ctx (g_procs s i)))"

definition frame_ok :: "code \<Rightarrow> u64 \<Rightarrow> frame option \<Rightarrow> bool" where
  "frame_ok c entry fr \<longleftrightarrow>
     (case fr of None \<Rightarrow> entry \<in> {A_code c, B_code c}
      | Some (Frame b me k) \<Rightarrow> b \<in> {process_A, process_B} \<and> 0 \<le> k \<and> k \<le> 3)"

definition tasks_ok :: "code \<Rightarrow> frame option array \<Rightarrow> 'a sched_scheme \<Rightarrow> bool" where
  "tasks_ok c fr s \<longleftrightarrow> g_scheduler_started s \<and>
     (\<forall>i < 8. if proc_is s i PROC_UNUSED then fr i = None
       else state (g_procs s i) \<in> {PROC_READY, PROC_RUNNING} \<and> frame_ok c (entry_of s i) (fr i))"

text \<open>The dispatches a slot still needs, at most.\<close>

definition steps_left :: "frame option \<Rightarrow> nat" where
  "steps_left fr = (case fr of None \<Rightarrow> 5 | Some (Frame b me k) \<Rightarrow> nat (4 - k))"

definition work :: "frame option array \<Rightarrow> 'a sched_scheme \<Rightarrow> nat" where
  "work fr s = (\<Sum>i < 8. if proc_is s i PROC_UNUSED then 0 else steps_left (fr i))"

text \<open>The end of the demo: the idle process runs alone, or none could be created.\<close>

definition demo_over :: "code \<Rightarrow> frame option array \<Rightarrow> 'a sched_scheme \<Rightarrow> bool" where
  "demo_over c fr s \<longleftrightarrow> dispatch c (fr, s) = None \<and> get_process_count s \<le> 1"

lemma running_slot:
  assumes "sched_inv s L" "g_scheduler_started s"
  shows "nat (g_current s) < 8" "g_current s = int (nat (g_current s))" "proc_is s (nat (g_current s)) PROC_RUNNING"
    "i < 8 \<Longrightarrow> proc_is s i PROC_RUNNING \<Longrightarrow> i = nat (g_current s)"
  using assms by (auto simp: sched_inv_def table_ok_defs)

text \<open>A step inside the current process followed by a yield.\<close>

lemma yield_after:
  assumes inv: "sched_inv s L" and ok: "tasks_ok c fr s" and t: "heap_owns t L" "kmem.more t = kmem.more s"
    and f: "frame_ok c (entry_of s cur) (Some f)" "steps_left (Some f) < steps_left (fr cur)"
    and cur: "cur = nat (g_current s)"
  shows "sched_inv (process_yield t) L" "tasks_ok c (fr(cur := Some f)) (process_yield t)"
    "g_next_pid (process_yield t) = g_next_pid s" "work (fr(cur := Some f)) (process_yield t) < work fr s"
proof -
  have st: "g_scheduler_started s" using ok by (simp add: tasks_ok_def)
  note b = borrow_inv [OF inv t]
  note r = running_slot [OF inv st, folded cur]
  show "sched_inv (process_yield t) L" by (rule process_yield_inv [OF b(1)])
  have tok: "table_ok t" "g_scheduler_started t" using b(1,5) st by (simp_all add: sched_inv_def)
  let ?y = "process_yield t"
  have "g_scheduler_started ?y \<and> g_next_pid ?y = g_next_pid s \<and>
      (\<forall>i. proc_is ?y i PROC_UNUSED = proc_is s i PROC_UNUSED) \<and>
      (\<forall>i. state (g_procs s i) \<in> {PROC_READY, PROC_RUNNING} \<longrightarrow> state (g_procs ?y i) \<in> {PROC_READY, PROC_RUNNING}) \<and>
      (\<forall>i. i < 8 \<longrightarrow> i \<noteq> cur \<longrightarrow> entry_of ?y i = entry_of s i)" (is ?Q)
    using tok
  proof (cases rule: process_yield_cases)
    case stay
    then show ?Q using b st by (simp add: entry_of_def)
  next
    case (switch n)
    have n: "n \<noteq> cur" "proc_is s n PROC_READY" using switch(2,4) b(2,3) cur by simp_all
    have g: "g_scheduler_started ?y" "g_next_pid ?y = g_next_pid s" "g_current ?y = int n"
      using b(4,5) st by (simp_all add: switch(5))
    have s: "state (g_procs ?y j) = (if j = n then PROC_RUNNING else if j = cur then PROC_READY else state (g_procs s j))" for j
      using n(1) b(2,3) cur by (simp add: switch(5))
    have x: "cpu ?y = ctx (g_procs s n)" "j \<noteq> cur \<Longrightarrow> ctx (g_procs ?y j) = ctx (g_procs s j)" for j
      using n(1) b(2,3) cur by (simp_all add: switch(5) context_switch_asm_def save_context_def Let_def)
    have e: "entry_of ?y i = entry_of s i" if "i \<noteq> cur" for i
      using that x r(2) by (auto simp: entry_of_def g(3))
    show ?Q using g(1,2) s n(2) r(3) e by simp
  qed
  then have y: "g_scheduler_started ?y" "g_next_pid ?y = g_next_pid s"
      "\<And>i. proc_is ?y i PROC_UNUSED = proc_is s i PROC_UNUSED"
      "\<And>i. state (g_procs s i) \<in> {PROC_READY, PROC_RUNNING} \<Longrightarrow> state (g_procs ?y i) \<in> {PROC_READY, PROC_RUNNING}"
      "\<And>i. i < 8 \<Longrightarrow> i \<noteq> cur \<Longrightarrow> entry_of ?y i = entry_of s i"
    by blast+
  show "g_next_pid ?y = g_next_pid s" by (rule y(2))
  show "tasks_ok c (fr(cur := Some f)) ?y"
    unfolding tasks_ok_def
  proof (intro conjI allI impI)
    fix i assume i: "i < (8 :: nat)"
    show "if proc_is ?y i PROC_UNUSED then (fr(cur := Some f)) i = None
       else state (g_procs ?y i) \<in> {PROC_READY, PROC_RUNNING} \<and> frame_ok c (entry_of ?y i) ((fr(cur := Some f)) i)"
    proof (cases "i = cur")
      case True
      then show ?thesis using y(3,4) [of i] r(3) f(1) by (simp add: frame_ok_def)
    next
      case False
      then show ?thesis using y(3,4) [of i] y(5) [OF i False] ok i by (auto simp: tasks_ok_def)
    qed
  qed (rule y(1))
  have "work (fr(cur := Some f)) ?y = (\<Sum>i < 8. if proc_is s i PROC_UNUSED then 0 else steps_left ((fr(cur := Some f)) i))"
    unfolding work_def by (simp only: y(3))
  also have "\<dots> < work fr s"
    unfolding work_def using r(1,3) f(2) by (intro sum_strict_mono_ex1) auto
  finally show "work (fr(cur := Some f)) ?y < work fr s" .
qed

lemma tasks_okD: "tasks_ok c fr s \<Longrightarrow> i < 8 \<Longrightarrow> \<not> proc_is s i PROC_UNUSED \<Longrightarrow> frame_ok c (entry_of s i) (fr i)"
  unfolding tasks_ok_def by (metis (full_types))

lemma tasks_ok_frame:
  assumes ok: "tasks_ok c fr s" and cur: "proc_is s cur PROC_RUNNING" and f: "\<And>e. frame_ok c e (Some f)"
  shows "tasks_ok c (fr(cur := Some f)) (printk msg as s)"
proof -
  have e: "entry_of (printk msg as s) i = entry_of s i" for i by (simp add: entry_of_def)
  show ?thesis
    unfolding tasks_ok_def e
  proof (intro conjI allI impI)
    fix i assume i: "i < (8 :: nat)"
    have "if proc_is s i PROC_UNUSED then fr i = None
        else state (g_procs s i) \<in> {PROC_READY, PROC_RUNNING} \<and> frame_ok c (entry_of s i) (fr i)"
      using ok i unfolding tasks_ok_def by blast
    then show "if proc_is (printk msg as s) i PROC_UNUSED then (fr(cur := Some f)) i = None
        else state (g_procs (printk msg as s) i) \<in> {PROC_READY, PROC_RUNNING} \<and> frame_ok c (entry_of s i) ((fr(cur := Some f)) i)"
      using cur f by (cases "i = cur") (simp_all split: if_splits)
  qed (use ok in \<open>simp add: tasks_ok_def\<close>)
qed

lemma steps_left_bounds: "frame_ok c e f \<Longrightarrow> 0 < steps_left f \<and> steps_left f \<le> 5"
  by (auto simp: frame_ok_def steps_left_def split: option.splits frame.splits)

lemma alone: "\<forall>i < 8. i \<noteq> n \<longrightarrow> proc_is s i PROC_UNUSED \<Longrightarrow> get_process_count s \<le> 1"
proof -
  assume "\<forall>i < 8. i \<noteq> n \<longrightarrow> proc_is s i PROC_UNUSED"
  then have "set (filter (\<lambda>i. \<not> proc_is s i PROC_UNUSED) [0..<8]) \<subseteq> {n}" by auto
  then have "card (set (filter (\<lambda>i. \<not> proc_is s i PROC_UNUSED) [0..<8])) \<le> 1" using card_mono [of "{n}"] by fastforce
  moreover have "length (filter (\<lambda>i. \<not> proc_is s i PROC_UNUSED) [0..<8]) = card (set (filter (\<lambda>i. \<not> proc_is s i PROC_UNUSED) [0..<8]))"
    by (rule distinct_card [symmetric]) simp
  ultimately have "length (filter (\<lambda>i. \<not> proc_is s i PROC_UNUSED) [0..<8]) \<le> 1" by linarith
  then show ?thesis by (simp add: get_process_count_def)
qed

text \<open>The current process exits.\<close>

lemma exit_after:
  assumes inv: "sched_inv s L" and ok: "tasks_ok c fr s" and np: "g_next_pid s \<noteq> -1"
    and idle: "body_at c (idle_code c) = None" and cur: "cur = nat (g_current s)" and f: "0 < steps_left (fr cur)"
  obtains s' L' where "process_exit (wrapper_code c) (idle_code c) (printk msg as s) = Some s'" "sched_inv s' L'"
    "tasks_ok c (fr(cur := None)) s' \<and> g_next_pid s' = g_next_pid s \<and> work (fr(cur := None)) s' < work fr s
     \<or> demo_over c (fr(cur := None)) s'"
proof -
  let ?t = "printk msg as s" and ?fr = "fr(cur := None)"
  have st: "g_scheduler_started s" using ok by (simp add: tasks_ok_def)
  note r = running_slot [OF inv st, folded cur]
  have t: "sched_inv ?t L" "g_next_pid ?t \<noteq> -1" "g_scheduler_started ?t" using inv np st by simp_all
  have slots: "if proc_is s i PROC_UNUSED then fr i = None
      else state (g_procs s i) \<in> {PROC_READY, PROC_RUNNING} \<and> frame_ok c (entry_of s i) (fr i)" if "i < 8" for i
    using ok that unfolding tasks_ok_def by blast
  have quiet: "proc_is s i PROC_UNUSED" if "\<forall>i < 8. i \<noteq> cur \<longrightarrow> \<not> proc_is s i PROC_READY" "i < 8" "i \<noteq> cur" for i
    using slots [OF that(2)] that r(4) [OF that(2)] by (auto split: if_splits)
  have cl: "state (clear_process p) = PROC_UNUSED" for p by (simp add: clear_process_def)
  from t show thesis
  proof (cases rule: process_exit_cases [where w = "wrapper_code c" and idle = "idle_code c"])
    case (switch n s' k)
    have n: "n \<noteq> cur" "n < 8" "proc_is s n PROC_READY" using switch(4-6) cur by simp_all
    have p: "g_procs s' = (g_procs s)(cur := clear_process (g_procs s cur), n := (g_procs s n)\<lparr>state := PROC_RUNNING\<rparr>)"
      using switch(9) cur by simp
    have u: "proc_is s' i PROC_UNUSED \<longleftrightarrow> i = cur \<or> proc_is s i PROC_UNUSED" for i
      using n cl by (auto simp: p)
    have e: "entry_of s' i = entry_of s i" if "i \<noteq> cur" for i
      using that n switch(7,11) r(2) by (auto simp: entry_of_def p)
    have "tasks_ok c ?fr s'"
      unfolding tasks_ok_def
    proof (intro conjI allI impI)
      fix i assume i: "i < (8 :: nat)"
      show "if proc_is s' i PROC_UNUSED then ?fr i = None
         else state (g_procs s' i) \<in> {PROC_READY, PROC_RUNNING} \<and> frame_ok c (entry_of s' i) (?fr i)"
      proof (cases "i = cur")
        case False
        then show ?thesis using slots [OF i] u [of i] e [OF False] by (auto simp: p)
      qed (simp add: u)
    qed (rule switch(8))
    moreover have "work ?fr s' < work fr s"
      unfolding work_def u using r(1,3) f by (intro sum_strict_mono_ex1) auto
    ultimately show thesis using switch(1,3,10) that by simp
  next
    case (idles n s' k x)
    have p: "g_procs s' i = ((g_procs s)(cur := clear_process (g_procs s cur))) i" if "i \<noteq> n" for i
      using idles(10) that cur by simp
    have "\<forall>i < 8. i \<noteq> cur \<longrightarrow> \<not> proc_is s i PROC_READY" using idles(4) cur by simp
    then have "\<forall>i < 8. i \<noteq> n \<longrightarrow> proc_is s' i PROC_UNUSED" using quiet cl by (auto simp: p)
    moreover have "?fr n = None" using idles(5,6) slots [of n] cur by (auto split: if_splits)
    ultimately have "demo_over c ?fr s'"
      using alone [of n s'] idle idles(7,9) by (simp add: demo_over_def dispatch_def)
    then show thesis using idles(1,3) that by blast
  next
    case (stops s' k)
    have "\<forall>i < 8. i \<noteq> cur \<longrightarrow> \<not> proc_is s i PROC_READY" using stops(4) cur by simp
    then have "\<forall>i < 8. i \<noteq> cur \<longrightarrow> proc_is s' i PROC_UNUSED" using quiet stops(6) cur by simp
    then have "demo_over c ?fr s'" using alone [of cur s'] stops(5) by (simp add: demo_over_def dispatch_def)
    then show thesis using stops(1,3) that by blast
  qed
qed

lemma B_iteration_runs:
  assumes "0 \<le> i" "i < 3" "sched_inv s L"
  shows "\<exists>s'. B_iteration me i s = Some s' \<and> heap_owns s' L \<and> kmem.more s' = kmem.more s"
proof -
  obtain n where "i + 1 = int n" "n \<le> 12" using assms(1,2) by (intro that [of "nat (i + 1)"]) auto
  then have "compute_factorial (i + 1) = Some (fact n)" using factorial_small by simp
  then show ?thesis using assms(3) by (auto simp: B_iteration_def sched_inv_def intro: heap.owns_log)
qed

text \<open>One dispatch makes progress.\<close>

lemma dispatch_progress:
  assumes inv: "sched_inv s L" and ok: "tasks_ok c fr s" and np: "g_next_pid s \<noteq> -1"
    and idle: "body_at c (idle_code c) = None"
  obtains fr' s' L' where "dispatch c (fr, s) = Some (fr', s')" "sched_inv s' L'"
    "tasks_ok c fr' s' \<and> g_next_pid s' = g_next_pid s \<and> work fr' s' < work fr s \<or> demo_over c fr' s'"
proof -
  define cur where "cur = nat (g_current s)"
  have st: "g_scheduler_started s" using ok by (simp add: tasks_ok_def)
  note r = running_slot [OF inv st, folded cur_def]
  have f: "frame_ok c (entry_of s cur) (fr cur)" and e: "entry_of s cur = rbx (cpu s)"
    using ok r(1-3) by (auto simp: tasks_ok_def entry_of_def)
  have d: "dispatch c (fr, s) = (case fr cur of
       Some f \<Rightarrow> map_option (\<lambda>(f', s'). (fr(cur := f'), s')) (run_body c f s)
     | None \<Rightarrow> map_option (\<lambda>b. let (f, s') = process_start b s in (fr(cur := Some f), s')) (body_at c (rbx (cpu s))))"
    using r(2) by (simp add: dispatch_def cur_def [symmetric])
  note result = that
  have yielded: thesis
    if t: "heap_owns t L" "kmem.more t = kmem.more s" and "fr cur = Some (Frame b me i)"
      "b \<in> {process_A, process_B}" "0 \<le> i" "i < 3"
      and "run_body c (Frame b me i) s = Some (Some (Frame b me (i + 1)), process_yield t)" for t b me i
  proof (rule result)
    have fo: "frame_ok c (entry_of s cur) (Some (Frame b me (i + 1)))" "steps_left (Some (Frame b me (i + 1))) < steps_left (fr cur)"
      using that by (auto simp: frame_ok_def steps_left_def)
    note y = yield_after [OF inv ok t fo cur_def]
    show "dispatch c (fr, s) = Some (fr(cur := Some (Frame b me (i + 1))), process_yield t)" using that d by simp
    show "sched_inv (process_yield t) L" by (rule y(1))
    show "tasks_ok c (fr(cur := Some (Frame b me (i + 1)))) (process_yield t) \<and> g_next_pid (process_yield t) = g_next_pid s \<and>
        work (fr(cur := Some (Frame b me (i + 1)))) (process_yield t) < work fr s \<or> demo_over c (fr(cur := Some (Frame b me (i + 1)))) (process_yield t)"
      using y(2-4) by simp
  qed
  show thesis
  proof (cases "fr cur")
    case None
    then have "rbx (cpu s) \<in> {A_code c, B_code c}" using f e by (simp add: frame_ok_def)
    then have "body_at c (rbx (cpu s)) = Some process_A \<or> body_at c (rbx (cpu s)) = Some process_B"
      by (auto simp: body_at_def)
    then obtain b where b: "body_at c (rbx (cpu s)) = Some b" "b \<in> {process_A, process_B}" by blast
    obtain me msg where s': "process_start b s = (Frame b me 0, printk msg [VNum me] s)" by (auto simp: process_start_def Let_def)
    let ?fr = "fr(cur := Some (Frame b me 0))" and ?s = "printk msg [VNum me] s"
    have "frame_ok c en (Some (Frame b me 0))" for en using b(2) by (auto simp: frame_ok_def)
    then have "tasks_ok c ?fr ?s" by (rule tasks_ok_frame [OF ok r(3)])
    moreover have "work ?fr ?s < work fr s"
      unfolding work_def using r(1,3) None by (intro sum_strict_mono_ex1) (auto simp: steps_left_def)
    ultimately show thesis
      by (intro that [of ?fr ?s L]) (use inv s' b(1) None in \<open>simp_all add: d\<close>)
  next
    case (Some g)
    obtain b me i where g: "g = Frame b me i" by (cases g)
    then have b: "b \<in> {process_A, process_B}" "0 \<le> i" "i \<le> 3" using f Some by (auto simp: frame_ok_def)
    show thesis
    proof (cases "i < 3")
      case True
      from b(1) consider "b = process_A" | "b = process_B" by blast
      then show thesis
      proof cases
        case 1
        obtain t where "A_iteration me i s = Some t" "heap_owns t L" "kmem.more t = kmem.more s"
          using A_iteration_borrows [OF inv] by blast
        then show thesis by (intro yielded [of t b me i]) (simp_all add: Some g 1 True b(2))
      next
        case 2
        obtain t where "B_iteration me i s = Some t" "heap_owns t L" "kmem.more t = kmem.more s"
          using B_iteration_runs [OF b(2) True inv] by blast
        then show thesis by (intro yielded [of t b me i]) (simp_all add: Some g 2 True b(2))
      qed
    next
      case False
      have l: "0 < steps_left (fr cur)" using Some g b(3) by (simp add: steps_left_def)
      define msg where "msg = (if b = process_A then ''[PID %d] Process A finished\<newline>'' else ''[PID %d] Process B finished\<newline>'')"
      obtain s' L' where x: "process_exit (wrapper_code c) (idle_code c) (printk msg [VNum me] s) = Some s'" "sched_inv s' L'"
          "tasks_ok c (fr(cur := None)) s' \<and> g_next_pid s' = g_next_pid s \<and> work (fr(cur := None)) s' < work fr s
           \<or> demo_over c (fr(cur := None)) s'"
        by (rule exit_after [OF inv ok np idle cur_def l])
      have "run_body c g s = Some (None, s')" using b(1) False g x(1) by (auto simp: msg_def)
      then show thesis by (intro result [OF _ x(2,3)]) (simp add: d Some)
    qed
  qed
qed

lemma work_bound: "tasks_ok c fr s \<Longrightarrow> work fr s \<le> 5 * get_process_count s"
proof -
  assume ok: "tasks_ok c fr s"
  have u: "get_process_count s = card {i \<in> {..<8}. \<not> proc_is s i PROC_UNUSED}"
    using distinct_card [of "filter (\<lambda>i. \<not> proc_is s i PROC_UNUSED) [0..<8]"]
    by (simp add: get_process_count_def lessThan_atLeast0)
  have "steps_left (fr i) \<le> 5" if "i < 8" "\<not> proc_is s i PROC_UNUSED" for i
    using steps_left_bounds [OF tasks_okD [OF ok that]] by blast
  then have "work fr s \<le> (\<Sum>i < 8. if \<not> proc_is s i PROC_UNUSED then 5 else 0)"
    unfolding work_def by (intro sum_mono) auto
  also have "\<dots> = 5 * get_process_count s" unfolding u by (subst sum.inter_filter [symmetric]) simp_all
  finally show ?thesis .
qed

lemma demo_ends:
  assumes "sched_inv s L" "tasks_ok c fr s" "g_next_pid s \<noteq> -1" "body_at c (idle_code c) = None"
  shows "\<exists>n \<le> work fr s. \<exists>fr' s' L'. dispatches n c (fr, s) = Some (fr', s') \<and> sched_inv s' L' \<and> demo_over c fr' s'"
  using assms(1-3)
proof (induction "work fr s" arbitrary: fr s L rule: less_induct)
  case less
  obtain fr1 s1 L1 where d: "dispatch c (fr, s) = Some (fr1, s1)" "sched_inv s1 L1"
      "tasks_ok c fr1 s1 \<and> g_next_pid s1 = g_next_pid s \<and> work fr1 s1 < work fr s \<or> demo_over c fr1 s1"
    by (rule dispatch_progress [OF less.prems assms(4)])
  have pos: "0 < work fr s"
  proof -
    have st: "g_scheduler_started s" using less.prems(2) by (simp add: tasks_ok_def)
    note r = running_slot [OF less.prems(1) st]
    have "0 < steps_left (fr (nat (g_current s)))"
      using steps_left_bounds [OF tasks_okD [OF less.prems(2) r(1)]] r(3) by simp
    then show ?thesis
      unfolding work_def using r(1,3) by (intro sum_pos2 [where i = "nat (g_current s)"]) auto
  qed
  show ?case
  proof (cases "demo_over c fr1 s1")
    case True
    then show ?thesis using d(1,2) pos by (intro exI [of _ 1]) auto
  next
    case False
    then have t: "tasks_ok c fr1 s1" "g_next_pid s1 = g_next_pid s" "work fr1 s1 < work fr s" using d(3) by blast+
    then obtain n fr' s' L' where "n \<le> work fr1 s1" "dispatches n c (fr1, s1) = Some (fr', s')" "sched_inv s' L'" "demo_over c fr' s'"
      using less.hyps [OF t(3) d(2) t(1)] less.prems(3) by metis
    then show ?thesis using d(1) t(3) by (intro exI [of _ "Suc n"]) auto
  qed
qed





end
