(* ===== verification/Kernel.thy ===== *)
theory Kernel
  imports Messages Devices Session Tasks
begin

text \<open>
  The start of the kernel and its life afterwards: \<open>kernel_init\<close> of \<open>src/src/kernel/kernel.c\<close> and the
  interrupts that follow it.

  The record \<open>kernel\<close> joins the states of the components: the memory and its managers, the console
  with the shell, the two interrupt descriptor tables, the processor's IDT register and interrupt
  flag, the tick counter and the keyboard controller. What a component logs is shown on the console
  when it returns (\<open>flush\<close>). The record \<open>env\<close> holds what is not in the C files: the linker's
  symbols, the addresses of the tables and of the assembly stubs, and the port input.

  After \<open>kernel_init\<close> the processor halts and only interrupts happen: \<open>kernel_step\<close> is the timer
  tick, the keyboard interrupt, and the arrival of scan codes at the controller.
\<close>

section \<open>State\<close>

record 'd kernel =
  mem :: caches
  screen :: shell
  exception_idt :: idt
  interrupt_idt :: idt
  idtr :: idt_ptr
  interrupts_on :: bool
  ticks :: u64
  ps2 :: 'd

record 'd env =
  isr_stub :: "nat \<Rightarrow> u64"
  exception_idt_addr :: u64
  interrupt_idt_addr :: u64
  timer_stub :: u64
  keyboard_stub :: u64
  inb_of :: "'d inb"
  link_syms :: "u64 \<times> u64 \<times> u64 \<times> u64"

text \<open>The logged calls reach the console.\<close>

definition flush :: "'a machine_scheme \<times> 'b console_scheme \<Rightarrow> ('a machine_scheme \<times> 'b console_scheme) option" where
  "flush = (\<lambda>(m, c). map_option (Pair (m\<lparr>klog := []\<rparr>)) (display (klog m) c))"

section \<open>kernel_init\<close>

text \<open>The calls before \<open>init_memory\<close>. The register loaded by the first \<open>lidt\<close> is loaded again by the
  second.\<close>

definition init_devices :: "'d env \<Rightarrow> 'd kernel \<Rightarrow> 'd kernel" where
  "init_devices e k =
     (let (t1, r1) = idt_init (isr_stub e) (exception_idt_addr e) (exception_idt k);
          c1 = console_init (screen k);
          (t2, r2, c2) = interrupt_init (timer_stub e) (keyboard_stub e) (interrupt_idt_addr e) (interrupt_idt k) c1;
          d = keyboard_init (inb_of e) (ps2 k);
          (n, c3) = timer_init 100 c2;
          c4 = print_str ''\<newline>========================================\<newline>'' c3;
          c5 = print_str ''LightNightOS Kernel Initialized\<newline>'' c4;
          c6 = print_str ''========================================\<newline>\<newline>'' c5
      in k\<lparr>exception_idt := t1, interrupt_idt := t2, idtr := r2, ps2 := d, ticks := n, screen := c6\<rparr>)"

definition kernel_init :: "'d env \<Rightarrow> 'd kernel \<Rightarrow> 'd kernel option" where
  "kernel_init e k0 = (let k = init_devices e k0 in do {
     (m, c) \<leftarrow> flush (init_memory (link_syms e) (mem k), screen k);
     c' \<leftarrow> shell_init c;
     Some (k\<lparr>mem := m, interrupts_on := True, screen := c'\<rparr>)
   })"

section \<open>Interrupts\<close>

definition timer_interrupt :: "'d kernel \<Rightarrow> 'd kernel" where
  "timer_interrupt k =
     (let (n, s, c) = timer_handler_c (ticks k) (mem k) (screen k) in k\<lparr>ticks := n, mem := s, screen := c\<rparr>)"

definition keyboard_interrupt :: "'d env \<Rightarrow> 'd kernel \<Rightarrow> 'd kernel option" where
  "keyboard_interrupt e k =
     map_option (\<lambda>(d, c). k\<lparr>ps2 := d, screen := c\<rparr>) (keyboard_handler_c (inb_of e) (ps2 k) (screen k))"

text \<open>An interrupt is taken when the flag is set and its gate is present.\<close>

inductive kernel_step :: "'d env \<Rightarrow> 'd kernel \<Rightarrow> 'd kernel \<Rightarrow> bool" for e where
  timer: "interrupts_on k \<Longrightarrow> present (interrupt_idt k 32) \<Longrightarrow> kernel_step e k (timer_interrupt k)"
| keyboard: "interrupts_on k \<Longrightarrow> present (interrupt_idt k 33) \<Longrightarrow> keyboard_interrupt e k = Some k' \<Longrightarrow> kernel_step e k k'"
| arrive: "kernel_step e k (k\<lparr>ps2 := d\<rparr>)"

inductive kernel_reach :: "'d env \<Rightarrow> 'd kernel \<Rightarrow> 'd kernel \<Rightarrow> bool" for e k0 where
  start: "kernel_init e k0 = Some k \<Longrightarrow> kernel_reach e k0 k"
| step: "kernel_reach e k0 k \<Longrightarrow> kernel_step e k k' \<Longrightarrow> kernel_reach e k0 k'"

section \<open>The running kernel\<close>

text \<open>The gates of the loaded table: the timer and the keyboard only.\<close>

definition gates_ok :: "'d env \<Rightarrow> 'd kernel \<Rightarrow> bool" where
  "gates_ok e k \<longleftrightarrow> base (idtr k) = interrupt_idt_addr e \<and>
     (\<forall>n < 256. present (interrupt_idt k n) \<longleftrightarrow> n \<in> {32, 33}) \<and>
     gate_address (interrupt_idt k 32) = timer_stub e \<and> gate_address (interrupt_idt k 33) = keyboard_stub e"

definition kernel_inv :: "'d env \<Rightarrow> 'd kernel \<Rightarrow> bool" where
  "kernel_inv e k \<longleftrightarrow> interrupts_on k \<and> gates_ok e k \<and> shell_inv (screen k)"

text \<open>The static variables at boot.\<close>

definition boots :: "'d kernel \<Rightarrow> bool" where
  "boots k \<longleftrightarrow> interrupt_idt k = (\<lambda>_. zero_entry) \<and> klog (mem k) = [] \<and>
     history_ok (screen k) \<and> tty_cur (screen k) < 4 \<and> (\<forall>t < 4. unat (tty_row (screen k) t) < 25)"

lemma outb_con [simp]: "con_inv (outb p v c) = con_inv c"
  by (simp add: outb_def con_inv_defs active_def backed_up_def TBUF_def)

lemma irq_gates:
  "present (fst (irq_idt_init t kb a (\<lambda>_. zero_entry)) n) \<longleftrightarrow> n \<in> {32, 33}"
  "gate_address (fst (irq_idt_init t kb a (\<lambda>_. zero_entry)) 32) = t"
  "gate_address (fst (irq_idt_init t kb a (\<lambda>_. zero_entry)) 33) = kb"
  "base (snd (irq_idt_init t kb a i)) = a"
  using gate_roundtrip(2) [of 33 kb "irq_set_gate 32 t (\<lambda>_. zero_entry)"] gate_roundtrip(2) [of 32 t "\<lambda>_. zero_entry"]
  by (auto simp: irq_idt_init_def irq_set_gate_def present_def zero_entry_def)

lemma init_devices_result:
  assumes "boots k"
  shows "con_inv (screen (init_devices e k))" "gates_ok e (init_devices e k)" "mem (init_devices e k) = mem k"
    "ticks (init_devices e k) = 0"
proof -
  have c: "con_inv (console_init (screen k))"
    unfolding console_init_def by (rule clear_screen_inv) (use assms in \<open>simp_all add: boots_def\<close>)
  have "con_inv (pic_init c)" if "con_inv c" for c :: shell
    unfolding pic_init_def by (rule fold_invariant) (use that in auto)
  then show "con_inv (screen (init_devices e k))"
    using c by (simp add: init_devices_def interrupt_init_def timer_init_def Let_def case_prod_beta print_str_def print_str_color_inv)
  have z: "interrupt_idt k = (\<lambda>_. zero_entry)" using assms by (simp add: boots_def)
  show "gates_ok e (init_devices e k)"
    unfolding gates_ok_def by (simp add: init_devices_def interrupt_init_def Let_def case_prod_beta z irq_gates del: insert_iff)
  show "mem (init_devices e k) = mem k" "ticks (init_devices e k) = 0"
    by (simp_all add: init_devices_def timer_init_def Let_def case_prod_beta)
qed

lemma kernel_init_result:
  assumes "boots k"
  shows "\<exists>k'. kernel_init e k = Some k' \<and> kernel_inv e k' \<and> shell_active (screen k') \<and> edited (screen k') = ([], 0) \<and>
    ticks k' = 0 \<and> klog (mem k') = [] \<and> ram (mem k') = ram (init_memory (link_syms e) (mem k))"
proof -
  note d = init_devices_result [OF assms, of e]
  let ?k = "init_devices e k" and ?m = "init_memory (link_syms e) (mem k)"
  have "log_ok ?m" using assms by (intro init_memory_log) (simp add: boots_def log_ok_def)
  then obtain c where c: "display (klog ?m) (screen ?k) = Some c" "con_inv c"
    using display_defined [of "klog ?m" "screen ?k"] d(1) by (auto simp: log_ok_def con.keeps_def)
  obtain c' where c': "shell_init c = Some c'" "shell_inv c'" "shell_active c'" "edited c' = ([], 0)"
    using shell_init_total [OF c(2)] by blast
  have "kernel_init e k = Some (?k\<lparr>mem := ?m\<lparr>klog := []\<rparr>, interrupts_on := True, screen := c'\<rparr>)"
    by (simp add: kernel_init_def flush_def Let_def d(3) c(1) c'(1))
  then show ?thesis using c' d(2,4) by (simp add: kernel_inv_def gates_ok_def)
qed

lemma keyboard_interrupt_result:
  assumes "ps2_queue (inb_of e) q" "kernel_inv e k"
  shows "\<exists>k'. keyboard_interrupt e k = Some k' \<and> kernel_inv e k' \<and> q (ps2 k') = []"
proof -
  have s: "shell_inv (screen k)" using assms(2) by (simp add: kernel_inv_def)
  obtain t where t: "handle_all (q (ps2 k)) (screen k) = Some t" "shell_inv t" using handle_all_total [OF s] by blast
  show ?thesis
    using keyboard_handler_result [OF assms(1) t(1)] assms(2) t(2)
    by (auto simp: keyboard_interrupt_def kernel_inv_def gates_ok_def)
qed

lemma kernel_step_inv:
  assumes "ps2_queue (inb_of e) q" "kernel_step e k k'" "kernel_inv e k"
  shows "kernel_inv e k'"
  using assms(2)
proof (cases rule: kernel_step.cases)
  case timer
  then show ?thesis using assms(3)
    by (simp add: timer_interrupt_def timer_handler_c_def kernel_inv_def gates_ok_def Let_def)
next
  case keyboard
  then show ?thesis using keyboard_interrupt_result [OF assms(1,3)] by auto
next
  case (arrive d)
  then show ?thesis using assms(3) by (simp add: kernel_inv_def gates_ok_def)
qed

lemma kernel_reach_inv:
  assumes "boots k0" "ps2_queue (inb_of e) q"
  shows "kernel_reach e k0 k \<Longrightarrow> kernel_inv e k"
proof (induction rule: kernel_reach.induct)
  case (start k)
  then show ?case using kernel_init_result [OF assms(1), of e] by auto
next
  case (step k k')
  then show ?case using kernel_step_inv [OF assms(2)] by blast
qed

text \<open>A machine at power on.\<close>

definition power_on :: "u8 list kernel" where
  "power_on = \<lparr>mem = cache_boot\<lparr>klog := []\<rparr>, screen = idle_shell, exception_idt = (\<lambda>_. zero_entry),
     interrupt_idt = (\<lambda>_. zero_entry), idtr = \<lparr>limit = 0, base = 0\<rparr>, interrupts_on = False, ticks = 0, ps2 = []\<rparr>"

definition pc_env :: "u8 list env" where
  "pc_env = \<lparr>isr_stub = (\<lambda>n. 0x100000 + 16 * of_nat n), exception_idt_addr = 0x120000, interrupt_idt_addr = 0x130000,
     timer_stub = 0x101000, keyboard_stub = 0x102000, inb_of = list_inb, link_syms = (0x100000, 0x140000, 0x150000, 0x160000)\<rparr>"

lemma power_on_boots: "boots power_on"
proof -
  have "con_inv (screen power_on)" using idle_shell_con by (simp add: power_on_def)
  then show ?thesis by (simp add: boots_def con_inv_defs) (simp add: power_on_def)
qed

section \<open>Properties\<close>



text \<open>C6: the kernel stays alive. After the start and any sequence of timer ticks, keyboard interrupts and
  arriving scan codes the shell is in order and the gates are in place, and the next keyboard
  interrupt is taken, returns and leaves no scan code behind.\<close>

theorem kernel_keeps_answering_the_keyboard:
  assumes "boots k0" "ps2_queue (inb_of e) q" "kernel_reach e k0 k"
  shows "kernel_inv e k \<and> (\<exists>k'. kernel_step e k k' \<and> keyboard_interrupt e k = Some k' \<and> q (ps2 k') = [])"
proof -
  have inv: "kernel_inv e k" by (rule kernel_reach_inv [OF assms])
  obtain k' where k': "keyboard_interrupt e k = Some k'" "q (ps2 k') = []"
    using keyboard_interrupt_result [OF assms(2) inv] by blast
  have "interrupts_on k" "present (interrupt_idt k 33)" using inv by (simp_all add: kernel_inv_def gates_ok_def)
  then show ?thesis using inv k' kernel_step.keyboard by blast
qed

theorem kernel_keeps_answering_the_keyboard_witness:
  "\<exists>k k'. kernel_init pc_env power_on = Some k \<and>
    keyboard_interrupt pc_env (timer_interrupt (k\<lparr>ps2 := [0x23, 0xA3, 0x1C]\<rparr>)) = Some k' \<and> ps2 k' = []"
proof -
  have q: "ps2_queue (inb_of pc_env) (\<lambda>d. d)" using list_inb_queue by (simp add: pc_env_def)
  obtain k where k: "kernel_init pc_env power_on = Some k" using kernel_init_result [OF power_on_boots, of pc_env] by blast
  have r: "kernel_reach pc_env power_on (k\<lparr>ps2 := [0x23, 0xA3, 0x1C]\<rparr>)"
    by (rule kernel_reach.step [OF kernel_reach.start [OF k] kernel_step.arrive])
  have "kernel_inv pc_env (k\<lparr>ps2 := [0x23, 0xA3, 0x1C]\<rparr>)" by (rule kernel_reach_inv [OF power_on_boots q r])
  then have "kernel_reach pc_env power_on (timer_interrupt (k\<lparr>ps2 := [0x23, 0xA3, 0x1C]\<rparr>))"
    by (intro kernel_reach.step [OF r kernel_step.timer]) (simp_all add: kernel_inv_def gates_ok_def)
  from kernel_keeps_answering_the_keyboard [OF power_on_boots q this] k show ?thesis by auto
qed

end
