(* ===== verification/Spec2Isabelle.thy ===== *)
theory Spec2Isabelle
  imports Kernel
begin

text \<open>
  A verification library for LightNightOS, a small x86-64 kernel in C.

  \<^bold>\<open>The program.\<close> The boot loader and the assembly of \<open>src/src/kernel/kmain64.asm\<close> enter \<open>kernel_init\<close>
  (\<open>kernel.c\<close>). It loads the exception table (\<open>interrupts.c\<close>), clears the console (\<open>console.c\<close>),
  sets up the interrupt controller and a second table (\<open>interrupt.c\<close>), the keyboard (\<open>keyboard.c\<close>)
  and the timer (\<open>timer.c\<close>), reads the memory map and lists the free pages (\<open>memory.c\<close>), enables
  interrupts and starts the shell (\<open>shell.c\<close>). After that the processor halts and runs interrupt
  handlers only: the keyboard handler feeds the shell, which edits a line and executes commands that
  print on the console. The kernel also has a heap (\<open>memory.c\<close>), a cooperative scheduler
  (\<open>scheduler.c\<close>, \<open>context_switch.asm\<close>), a file system with an inode and a block cache (\<open>fs/\<close>) and
  demo code for them in \<open>kernel.c\<close>, whose calls are commented out.

  \<^bold>\<open>Theories and code.\<close>
  \<^item> \<open>Base\<close>: integer types, memory as a function from addresses to bytes with little-endian loads and
    stores, the log of the calls of \<open>printk\<close>, \<open>printk_color\<close> and \<open>print_str\<close>, the search loop \<open>scan\<close>.
  \<^item> \<open>Lib\<close>: \<open>lib.h\<close>. \<open>memcpy\<close> and \<open>memset\<close> are the string instructions by width, proved to be byte copy
    and fill; the string routines search a terminator in the whole address space.
  \<^item> \<open>Paging\<close>: the E820 map, the list of free 2M pages, the heap range (\<open>memory.c\<close>, \<open>memory.h\<close>). The
    page structures live in the memory, at the addresses the code computes. \<open>pages_inv\<close> is the
    invariant of the list.
  \<^item> \<open>Heap\<close>: \<open>malloc\<close>, \<open>free\<close>, \<open>memory_test\<close>. The headers live in the memory. \<open>heap_inv\<close> says that they
    tile the heap as a list of blocks; \<open>amalloc\<close>, \<open>release\<close> and \<open>coalesce\<close> are first fit and merging on
    such lists, and the code is proved to implement them. The locale \<open>allocator\<close> is what clients of
    the heap rely on (ownership of disjoint blocks), interpreted as \<open>heap\<close>.
  \<^item> \<open>Sched\<close>: process table, \<open>process_create\<close>, \<open>process_yield\<close>, \<open>process_exit\<close>, \<open>scheduler_start\<close> and
    the register switch. \<open>sched_inv\<close> joins the heap's ownership, the table and the stacks;
    \<open>sched_step\<close> is the step relation.
  \<^item> \<open>Structs\<close>: tables of C structures in memory, and the locales \<open>slot_table\<close> (a table with a search for
    a free slot) and \<open>keyed_table\<close> (slots with distinct keys, seen as a map). They are interpreted as
    \<open>procs\<close>, \<open>files\<close>, \<open>blocks\<close>, \<open>inodes\<close>, \<open>icache\<close> and \<open>bcache\<close>.
  \<^item> \<open>Fs\<close>, \<open>Mount\<close>: \<open>fs/fs.c\<close>. The inode table and the bitmaps are heap blocks, the open-file table is a
    static array. \<open>files_inv\<close> and \<open>open_map\<close> describe the open files, \<open>mounted\<close> the state after \<open>fs_init\<close>.
  \<^item> \<open>Caches\<close>: \<open>fs/inode.c\<close>, \<open>fs/block.c\<close>, \<open>fs/dir.c\<close>; the static tables at two addresses of the memory,
    as callers get pointers into them.
  \<^item> \<open>Session\<close>: \<open>init_filesystem\<close> of \<open>kernel.c\<close>; \<open>stored\<close> is the contract that the steps between the write
    and the read of the file keep.
  \<^item> \<open>Format\<close>: \<open>skip_atoi\<close>, \<open>number\<close> and \<open>vprintk\<close> of \<open>console.c\<close>, with all flags and conversions.
  \<^item> \<open>Console\<close>: the screen, four terminals, the scroll-back history. \<open>con_inv\<close> is the invariant; the
    locale \<open>screen_client\<close> (interpreted as \<open>con\<close>) is what a client that prints may rely on.
  \<^item> \<open>Shell\<close>: the line editor, the command history, the commands. \<open>shell_inv\<close> is the invariant, \<open>edit\<close> the
    abstract line editor and \<open>split_args\<close> the abstract argument splitter.
  \<^item> \<open>Devices\<close>: keyboard, timer, the two descriptor tables, the panic screen.
  \<^item> \<open>Messages\<close>: which calls of \<open>printk\<close> are defined, and how a log is shown on a console.
  \<^item> \<open>Tasks\<close>: the demo processes with their cooperative run, \<open>compute_factorial\<close>, \<open>test_malloc_demo\<close>.
  \<^item> \<open>Kernel\<close>: \<open>kernel_init\<close> and the interrupts that follow it, over a record that joins the states.

  \<^bold>\<open>State.\<close> The records extend each other in the order of the components: \<open>machine\<close> (log and memory),
  \<open>kmem\<close>, \<open>sched\<close>, \<open>fsys\<close>, \<open>caches\<close>; and \<open>console\<close>, \<open>shell\<close>. Operations are polymorphic in the rest of
  the record. A component that prints appends to the log; \<open>flush\<close> shows the log on the console.

  \<^bold>\<open>What is proved.\<close> Refinement of abstract data: the heap of a list of blocks, the open files of a map,
  the block bitmap of a set, the inode cache of a map, the history of a list of lines, the editing
  keys of a line editor. Invariants of every reachable state: scheduler, console, shell, running
  kernel. Termination: the shell on any input, the keyboard handler on any queue of scan codes, the
  demo processes under the scheduler. Round trips: \<open>malloc\<close> and \<open>free\<close>, write and read of a file,
  terminal switches, register switches, numbers. A typing discipline of \<open>printk\<close>. Composition:
  \<open>kernel_init\<close> reaches the shell whatever the firmware's memory map, and every later keyboard interrupt
  is answered; the file session prints what it wrote. Several theorems state defects of the code:
  merging of blocks that are not adjacent, copies in the wrong direction in the block cache, closing
  descriptor 0, a write past the block of a file, missing exception gates, the stack pointer after a
  switch, negative numbers under \<open>%d\<close>.

  \<^bold>\<open>Loops, fuel, bounds.\<close> Loops over a fixed range are folds or \<open>scan\<close>. Loops over lists in memory
  (\<open>malloc_find\<close>, \<open>free_merge\<close>, \<open>kbd_loop\<close>, string searches) are \<open>partial_function (option)\<close>, with \<open>None\<close> for
  a loop that does not end; the theorems show the value. The copy of the E820 map ends after 32
  entries and the flush of the keyboard after 256 reads as in the code. The walk of \<open>malloc\<close> is proved to
  end because each new page shortens the list of free pages.

  \<^bold>\<open>Parameters.\<close> Port input is a function of port and device state; the theorems on the keyboard assume
  that the controller queues scan codes (\<open>ps2_queue\<close>), which \<open>list_inb\<close> satisfies. The linker's symbols,
  the addresses of assembly stubs, of literals and of locals are arguments.

  \<^bold>\<open>Not modelled.\<close> The assembly of the boot and of the interrupt stubs (\<open>kmain64.asm\<close>, \<open>isr.asm\<close>, \<open>linkage.h\<close>):
  no C semantics. Page tables and the processor's caches: the code runs with a fixed mapping, and
  addresses are the virtual ones. The size of \<open>fmt_buf\<close>: output is a list. Interrupts inside a
  C function: a handler runs between calls. The compiler's use of the stack: a process is cut at its
  yields and its live locals are kept in a frame (\<open>Tasks\<close>); what the switch does to registers is
  modelled in \<open>Sched\<close>. Headers with declarations only.
\<close>

end
